(* ===== verification/Prelude.thy ===== *)
theory Prelude
  imports Main "HOL-Library.Word" "HOL-Library.Signed_Division" "HOL-Library.Multiset"
begin

section \<open>Shared types, lemma collections and generic lemmas\<close>

text \<open>
  What every component of the development uses: names for the C integer types, the
  collections of simplification and introduction rules, reachability of a step relation,
  sums over a list of processes of which one moves, and the slice of a circular array that
  both queues of the repository (\<open>lab4\<close> and \<open>lab5\<close>) are abstracted with.
\<close>

type_synonym u8 = "8 word"
type_synonym u16 = "16 word"
type_synonym u32 = "32 word"
type_synonym u64 = "64 word"

text \<open>
  A C \<open>int\<close> whose overflow matters is kept as a 32-bit word and read with \<open>sint\<close>;
  one that the component's invariant bounds is an \<open>int\<close>.
\<close>

type_synonym c_int = "32 word"

text \<open>The exit status of a program that stops early.\<close>

datatype exit_code = EXIT_SUCCESS | EXIT_FAILURE

named_theorems arr_simps "equations of array slices and updates"
named_theorems inv_intros "preservation of the components' invariants"
named_theorems step_defs "definitions of the components' operations"

subsection \<open>Reachability\<close>

inductive steps :: "('s \<Rightarrow> 's \<Rightarrow> bool) \<Rightarrow> 's \<Rightarrow> 's \<Rightarrow> bool" for r where
  steps_refl: "steps r s s"
| steps_snoc: "steps r s t \<Longrightarrow> r t u \<Longrightarrow> steps r s u"

lemma steps_single: "r s t \<Longrightarrow> steps r s t"
  by (rule steps_snoc [OF steps_refl])

lemma steps_trans: "steps r t u \<Longrightarrow> steps r s t \<Longrightarrow> steps r s u"
  by (induction rule: steps.induct) (auto intro: steps.intros)

lemma steps_invariant:
  assumes "steps r s t" and "P s" and "\<And>a b. P a \<Longrightarrow> r a b \<Longrightarrow> P b"
  shows "P t"
  using assms(1,2)
  by (induction rule: steps.induct) (auto intro: assms(3))

lemma steps_mono:
  assumes "steps r s t" and "\<And>a b. r a b \<Longrightarrow> r' a b"
  shows "steps r' s t"
  using assms(1) by (induction rule: steps.induct) (auto intro: steps.intros assms(2))

text \<open>
  The interface between a step relation and the properties of its reachable states: an invariant
  that holds initially and is kept by every step.
\<close>

locale invariant_system =
  fixes start :: "'s \<Rightarrow> bool"
    and step :: "'s \<Rightarrow> 's \<Rightarrow> bool"
    and inv :: "'s \<Rightarrow> bool"
  assumes inv_start: "start s \<Longrightarrow> inv s"
    and inv_step: "inv s \<Longrightarrow> step s t \<Longrightarrow> inv t"
begin

lemma inv_reachable: "start s0 \<Longrightarrow> steps step s0 s \<Longrightarrow> inv s"
  using steps_invariant [of step s0 s inv] inv_start inv_step by blast

end

text \<open>
  The interface between a step relation and its executable moves: a schedule of moves that can be
  executed leads to a reachable state. Concrete runs are evaluated with it.
\<close>

fun run_all :: "('a \<Rightarrow> 's \<Rightarrow> 's option) \<Rightarrow> 'a list \<Rightarrow> 's \<Rightarrow> 's option" where
  "run_all move [] s = Some s"
| "run_all move (a # as) s = (case move a s of None \<Rightarrow> None | Some t \<Rightarrow> run_all move as t)"

locale executable_steps =
  fixes step :: "'s \<Rightarrow> 's \<Rightarrow> bool"
    and move :: "'a \<Rightarrow> 's \<Rightarrow> 's option"
  assumes move_sound: "move a s = Some t \<Longrightarrow> step s t"
begin

lemma run_all_steps: "run_all move as s = Some t \<Longrightarrow> steps step s t"
proof (induction as arbitrary: s)
  case Nil
  then show ?case by (simp add: steps_refl)
next
  case (Cons a as)
  then obtain u where "move a s = Some u" "run_all move as u = Some t" by (auto split: option.splits)
  with Cons.IH [of u] move_sound [of a s u] show ?case by (blast intro: steps_trans steps_single)
qed

lemma run_all_reaches:
  assumes "case run_all move as s of None \<Rightarrow> False | Some t \<Rightarrow> P t"
  obtains t where "steps step s t" "P t"
  using assms run_all_steps [of as s] by (auto split: option.splits)

end

subsection \<open>Sums over the processes of a system\<close>

text \<open>
  The invariants of the producer/consumer systems count the processes at a program location:
  \<open>tally w ps\<close> adds the weights of all of them. One process moving changes one summand.
\<close>

definition tally :: "('p \<Rightarrow> nat) \<Rightarrow> 'p list \<Rightarrow> nat" where
  "tally w ps = sum_list (map w ps)"

lemma tally_Nil [simp]: "tally w [] = 0"
  by (simp add: tally_def)

lemma tally_snoc [simp]: "tally w (ps @ [p]) = tally w ps + w p"
  by (simp add: tally_def)

lemma tally_update:
  "i < length ps \<Longrightarrow> tally w (ps[i := p]) + w (ps ! i) = tally w ps + w p"
proof (induction ps arbitrary: i)
  case Nil
  then show ?case by simp
next
  case (Cons q qs)
  then show ?case by (cases i) (auto simp: tally_def)
qed

lemma tally_ge: "i < length ps \<Longrightarrow> w (ps ! i) \<le> tally w ps"
proof (induction ps arbitrary: i)
  case Nil
  then show ?case by simp
next
  case (Cons q qs)
  then show ?case by (cases i) (auto simp: tally_def intro: trans_le_add2)
qed

lemma tally_ge_two:
  assumes "i < length ps" "j < length ps" "i \<noteq> j"
  shows "w (ps ! i) + w (ps ! j) \<le> tally w ps"
proof -
  have "{i, j} \<subseteq> {0..<length ps}" using assms by auto
  then have "sum (\<lambda>k. w (ps ! k)) {i, j} \<le> sum (\<lambda>k. w (ps ! k)) {0..<length ps}"
    by (intro sum_mono2) auto
  then show ?thesis
    using assms(3) by (simp add: tally_def sum_list_sum_nth)
qed

lemma ball_update:
  assumes "x \<in> set (xs[i := p])" "P p" "\<And>j. j < length xs \<Longrightarrow> P (xs ! j)"
  shows "P x"
proof -
  have "x \<in> insert p (set xs)" using assms(1) set_update_subset_insert by fastforce
  with assms(2,3) show ?thesis by (auto simp: in_set_conv_nth)
qed

subsection \<open>Circular arrays\<close>

text \<open>The \<open>n\<close> elements of the array \<open>xs\<close> that start at index \<open>h\<close> and wrap around.\<close>

definition ring_slice :: "'a list \<Rightarrow> nat \<Rightarrow> nat \<Rightarrow> 'a list" where
  "ring_slice xs h n = map (\<lambda>k. xs ! ((h + k) mod length xs)) [0..<n]"

lemma length_ring_slice [simp]: "length (ring_slice xs h n) = n"
  by (simp add: ring_slice_def)

lemma ring_slice_0 [simp]: "ring_slice xs h 0 = []"
  by (simp add: ring_slice_def)

lemma ring_slice_Nil_iff [simp]: "ring_slice xs h n = [] \<longleftrightarrow> n = 0"
  by (simp add: ring_slice_def)

lemma nth_ring_slice: "k < n \<Longrightarrow> ring_slice xs h n ! k = xs ! ((h + k) mod length xs)"
  by (simp add: ring_slice_def)

lemma ring_slice_Suc:
  "ring_slice xs h (Suc n) = xs ! (h mod length xs) # ring_slice xs (Suc h) n"
  by (simp add: ring_slice_def upt_conv_Cons map_Suc_upt [symmetric] del: upt_Suc)

lemma ring_slice_snoc:
  "ring_slice xs h (Suc n) = ring_slice xs h n @ [xs ! ((h + n) mod length xs)]"
  by (simp add: ring_slice_def)

lemma ring_slice_mod [simp]: "ring_slice xs (h mod length xs) n = ring_slice xs h n"
  by (simp add: ring_slice_def mod_add_left_eq)

lemma mod_add_cancel_le:
  assumes "(h + k) mod L = (h + n) mod L" "k \<le> n" "n < (L::nat)"
  shows "k = n"
proof -
  have "L dvd (h + n) - (h + k)"
    using assms(1,2) by (metis mod_eq_dvd_iff_nat add_left_mono)
  then show ?thesis using assms(2,3) by (auto dest: dvd_imp_le)
qed

lemma mod_add_cancel_small:
  assumes "(h + k) mod L = (h + n) mod L" "k < L" "n < (L::nat)"
  shows "k = n"
  using mod_add_cancel_le [of h k L n] mod_add_cancel_le [of h n L k] assms
  by (cases "k \<le> n") auto

text \<open>Writing the slot just behind a slice appends to it.\<close>

lemma ring_slice_update_behind [arr_simps]:
  assumes "n < length xs"
  shows "ring_slice (xs[(h + n) mod length xs := x]) h n = ring_slice xs h n"
proof -
  have "(h + n) mod length xs \<noteq> (h + k) mod length xs" if "k < n" for k
    using mod_add_cancel_small [of h k "length xs" n] that assms by auto
  then show ?thesis by (auto simp: ring_slice_def)
qed

lemma ring_slice_append [arr_simps]:
  assumes "n < length xs"
  shows "ring_slice (xs[(h + n) mod length xs := x]) h (Suc n) = ring_slice xs h n @ [x]"
proof -
  have "(h + n) mod length xs < length xs" using assms by (intro mod_less_divisor) linarith
  then show ?thesis
    using ring_slice_update_behind [OF assms, of h x] by (simp add: ring_slice_snoc)
qed

text \<open>A slice that does not wrap is a segment of the array.\<close>

lemma ring_slice_no_wrap:
  assumes "h + n \<le> length xs"
  shows "ring_slice xs h n = take n (drop h xs)"
  using assms by (intro nth_equalityI) (auto simp: nth_ring_slice)

text \<open>A slice that wraps is the end of the array followed by its beginning.\<close>

lemma ring_slice_wrap:
  assumes "h < length xs" "length xs \<le> h + n" "n \<le> length xs"
  shows "ring_slice xs h n = drop h xs @ take (h + n - length xs) xs"
proof (rule nth_equalityI)
  show "length (ring_slice xs h n) = length (drop h xs @ take (h + n - length xs) xs)"
    using assms by simp
next
  fix k assume "k < length (ring_slice xs h n)"
  then have k: "k < n" by simp
  show "ring_slice xs h n ! k = (drop h xs @ take (h + n - length xs) xs) ! k"
  proof (cases "h + k < length xs")
    case True
    then have "k < length xs - h" by simp
    with True show ?thesis using k assms by (simp add: nth_ring_slice nth_append)
  next
    case False
    then have "(h + k) mod length xs = h + k - length xs"
      using k assms by (simp add: mod_if)
    moreover have "\<not> k < length xs - h" "k - (length xs - h) = h + k - length xs"
      using False assms(1) by auto
    ultimately show ?thesis using k assms by (simp add: nth_ring_slice nth_append)
  qed
qed

lemma ring_slice_update_other:
  assumes "\<And>k. k < n \<Longrightarrow> (h + k) mod length xs \<noteq> i"
  shows "ring_slice (xs[i := x]) h n = ring_slice xs h n"
proof (rule nth_equalityI)
  show "length (ring_slice (xs[i := x]) h n) = length (ring_slice xs h n)" by simp
next
  fix k assume "k < length (ring_slice (xs[i := x]) h n)"
  then have "k < n" by simp
  with assms [OF this] show "ring_slice (xs[i := x]) h n ! k = ring_slice xs h n ! k"
    by (simp add: nth_ring_slice)
qed

text \<open>The indices of a slice of an array of length \<open>L\<close>.\<close>

definition ring_idx :: "nat \<Rightarrow> nat \<Rightarrow> nat \<Rightarrow> nat set" where
  "ring_idx L h n = (\<lambda>k. (h + k) mod L) ` {..<n}"

lemma ring_idx_0 [simp]: "ring_idx L h 0 = {}"
  by (simp add: ring_idx_def)

lemma ring_idx_mod [simp]: "ring_idx L (h mod L) n = ring_idx L h n"
  by (simp add: ring_idx_def mod_add_left_eq)

lemma ring_idx_snoc: "ring_idx L h (Suc n) = insert ((h + n) mod L) (ring_idx L h n)"
  by (simp add: ring_idx_def lessThan_Suc)

lemma ring_idx_Cons: "ring_idx L h (Suc n) = insert (h mod L) (ring_idx L (Suc h) n)"
  unfolding ring_idx_def lessThan_Suc_eq_insert_0 by (simp add: image_image)

lemma ring_idx_behind: "n < L \<Longrightarrow> (h + n) mod L \<notin> ring_idx L h n"
  unfolding ring_idx_def
proof
  assume "n < L" "(h + n) mod L \<in> (\<lambda>k. (h + k) mod L) ` {..<n}"
  then obtain k where "k < n" "(h + n) mod L = (h + k) mod L" by auto
  with mod_add_cancel_small [of h n L k] \<open>n < L\<close> show False by simp
qed

lemma ring_idx_before: "Suc n \<le> L \<Longrightarrow> h mod L \<notin> ring_idx L (Suc h) n"
  unfolding ring_idx_def
proof
  assume "Suc n \<le> L" "h mod L \<in> (\<lambda>k. (Suc h + k) mod L) ` {..<n}"
  then obtain k where "k < n" "(h + 0) mod L = (h + Suc k) mod L" by auto
  with mod_add_cancel_small [of h 0 L "Suc k"] \<open>Suc n \<le> L\<close> show False by simp
qed

lemma ring_idx_less: "0 < L \<Longrightarrow> i \<in> ring_idx L h n \<Longrightarrow> i < L"
  by (auto simp: ring_idx_def)

lemma ring_idx_no_wrap: "h + n \<le> L \<Longrightarrow> ring_idx L h n = {h..<h + n}"
proof (intro set_eqI iffI)
  fix i assume h: "h + n \<le> L" and "i \<in> {h..<h + n}"
  then have "(h + (i - h)) mod L = i" "i - h < n" by auto
  then show "i \<in> ring_idx L h n" unfolding ring_idx_def by (metis imageI lessThan_iff)
qed (auto simp: ring_idx_def)

lemma ring_idx_wrap:
  assumes "h < L" "L \<le> h + n" "n \<le> L"
  shows "ring_idx L h n = {h..<L} \<union> {..<h + n - L}"
proof -
  have eq: "(h + k) mod L = (if h + k < L then h + k else h + k - L)" if "k < n" for k
    using that assms by (simp add: mod_if)
  show ?thesis
  proof (intro set_eqI iffI)
    fix i assume "i \<in> ring_idx L h n"
    then show "i \<in> {h..<L} \<union> {..<h + n - L}"
      using eq assms by (force simp: ring_idx_def split: if_splits)
  next
    fix i assume i: "i \<in> {h..<L} \<union> {..<h + n - L}"
    define k where "k = (if h \<le> i then i - h else i + L - h)"
    have "k < n" "(h + k) mod L = i" using i assms eq [of k] by (auto simp: k_def split: if_splits)
    then show "i \<in> ring_idx L h n" by (auto simp: ring_idx_def)
  qed
qed

lemma set_ring_slice: "set (ring_slice xs h n) = (\<lambda>i. xs ! i) ` ring_idx (length xs) h n"
  by (simp add: ring_slice_def ring_idx_def image_image lessThan_atLeast0)

subsection \<open>Closing and opening a gap in an array\<close>

text \<open>
  \<open>for (; i < n; i++) a[i] = a[i + 1];\<close> and \<open>for (; i > h; i--) a[i] = a[i - 1];\<close>:
  the loops with which the repository removes an array element and makes room for one.
\<close>

function shift_left :: "nat \<Rightarrow> nat \<Rightarrow> 'a list \<Rightarrow> 'a list" where
  "shift_left i n xs = (if i < n then shift_left (Suc i) n (xs[i := xs ! Suc i]) else xs)"
  by pat_completeness auto
termination
  by (relation "measure (\<lambda>(i, n, xs). n - i)") auto

fun shift_right :: "nat \<Rightarrow> nat \<Rightarrow> 'a list \<Rightarrow> 'a list" where
  "shift_right h 0 xs = xs"
| "shift_right h (Suc i) xs = (if h < Suc i then shift_right h i (xs[Suc i := xs ! i]) else xs)"

declare shift_left.simps [simp del]

lemma length_shift_left [simp]: "length (shift_left i n xs) = length xs"
  by (induction i n xs rule: shift_left.induct) (simp add: shift_left.simps)

lemma length_shift_right [simp]: "length (shift_right h i xs) = length xs"
  by (induction h i xs rule: shift_right.induct) auto

lemma nth_shift_left:
  "n < length xs \<Longrightarrow> shift_left i n xs ! k = (if i \<le> k \<and> k < n then xs ! Suc k else xs ! k)"
proof (induction i n xs rule: shift_left.induct)
  case (1 i n xs)
  show ?case
  proof (cases "i < n")
    case True
    have "shift_left i n xs ! k = shift_left (Suc i) n (xs[i := xs ! Suc i]) ! k"
      using True by (subst shift_left.simps) simp
    also have "\<dots> = (if Suc i \<le> k \<and> k < n then (xs[i := xs ! Suc i]) ! Suc k
        else (xs[i := xs ! Suc i]) ! k)"
      using 1 True by simp
    finally show ?thesis using True "1.prems" by (auto simp: nth_list_update)
  next
    case False
    then have "shift_left i n xs = xs" "\<not> (i \<le> k \<and> k < n)" by (simp_all add: shift_left.simps)
    then show ?thesis by auto
  qed
qed

lemma nth_shift_right:
  "i < length xs \<Longrightarrow> shift_right h i xs ! k = (if h < k \<and> k \<le> i then xs ! (k - 1) else xs ! k)"
proof (induction h i xs rule: shift_right.induct)
  case (1 h xs)
  then show ?case by simp
next
  case (2 h i xs)
  show ?case
  proof (cases "h < Suc i")
    case True
    with 2 have "shift_right h (Suc i) xs ! k
      = (if h < k \<and> k \<le> i then xs[Suc i := xs ! i] ! (k - 1) else xs[Suc i := xs ! i] ! k)"
      by simp
    then show ?thesis using True "2.prems" by (auto simp: nth_list_update)
  next
    case False
    then show ?thesis by auto
  qed
qed

text \<open>Removing element \<open>i\<close> of the first \<open>Suc n\<close> elements closes the gap behind it.\<close>

lemma take_shift_left:
  assumes "i \<le> n" "n < length xs"
  shows "take n (shift_left i n xs) = take i xs @ drop (Suc i) (take (Suc n) xs)"
  using assms by (intro nth_equalityI) (auto simp: nth_shift_left nth_append min_def)

subsection \<open>C integer division\<close>

text \<open>C's remainder truncates towards zero (\<open>smod\<close>); on non-negative operands it is \<open>mod\<close>.\<close>

lemma c_rem_nonneg [simp]: "0 \<le> a \<Longrightarrow> 0 \<le> b \<Longrightarrow> a smod b = a mod (b::int)"
  by (simp add: signed_modulo_int_def signed_divide_int_def sgn_if minus_div_mult_eq_mod)

end
