(* ===== verification/C_String.thy ===== *)
theory C_String
  imports Prelude
begin

section \<open>C strings and the parts of the C library the programs read text with\<close>

text \<open>
  A C string is the list of its characters without the terminating NUL. \<open>fgets\<close>,
  \<open>strcspn\<close> with a newline, \<open>isdigit\<close>, \<open>isspace\<close> and \<open>strtol\<close> in base 10 are
  modelled as the C standard describes them; a stream is the text that is still to be read.
\<close>

abbreviation (input) NUL :: char where
  "NUL \<equiv> CHR 0x00"

abbreviation (input) NL :: char where
  "NL \<equiv> CHR 0x0A"

definition c_isdigit :: "char \<Rightarrow> bool" where
  "c_isdigit c \<longleftrightarrow> 48 \<le> (of_char c :: nat) \<and> (of_char c :: nat) \<le> 57"

definition c_isspace :: "char \<Rightarrow> bool" where
  "c_isspace c \<longleftrightarrow> (of_char c :: nat) = 32 \<or> 9 \<le> (of_char c :: nat) \<and> (of_char c :: nat) \<le> 13"

text \<open>The string a character buffer holds: what precedes its first NUL.\<close>

definition cstr :: "string \<Rightarrow> string" where
  "cstr buf = takeWhile (\<lambda>c. c \<noteq> NUL) buf"

text \<open>\<open>s[strcspn(s, newline)] = 0\<close>\<close>

definition cut_newline :: "string \<Rightarrow> string" where
  "cut_newline s = takeWhile (\<lambda>c. c \<noteq> NL) (cstr s)"

lemma cstr_no_nul: "NUL \<notin> set s \<Longrightarrow> cstr s = s"
  by (auto simp: cstr_def takeWhile_eq_all_conv)

fun read_upto :: "nat \<Rightarrow> string \<Rightarrow> string \<times> string" where
  "read_upto 0 inp = ([], inp)"
| "read_upto (Suc n) [] = ([], [])"
| "read_upto (Suc n) (c # inp) =
     (if c = NL then ([c], inp) else (let (l, rest) = read_upto n inp in (c # l, rest)))"

text \<open>\<open>fgets\<close> into a buffer of \<open>n\<close> bytes; \<open>None\<close> is NULL at the end of the input.\<close>

definition fgets :: "nat \<Rightarrow> string \<Rightarrow> (string \<times> string) option" where
  "fgets n inp = (if inp = [] then None else Some (read_upto (n - 1) inp))"

lemma read_upto_append: "read_upto n inp = (l, rest) \<Longrightarrow> l @ rest = inp"
  by (induction n inp arbitrary: l rest rule: read_upto.induct) (auto split: if_splits prod.splits)

lemma read_upto_length: "length (fst (read_upto n inp)) \<le> n"
  by (induction n inp rule: read_upto.induct) (auto split: prod.splits)

lemma fgets_shorter: "fgets n inp = Some (l, rest) \<Longrightarrow> 2 \<le> n \<Longrightarrow> length rest < length inp"
proof -
  assume a: "fgets n inp = Some (l, rest)" "2 \<le> n"
  then obtain c inp' m where "inp = c # inp'" "n - 1 = Suc m"
    by (cases inp; cases "n - 1") (auto simp: fgets_def)
  with a show ?thesis
    using read_upto_append [of "n - 1" inp l rest] by (auto simp: fgets_def split: if_splits prod.splits)
qed

subsection \<open>Numbers\<close>

abbreviation (input) LONG_MAX :: int where
  "LONG_MAX \<equiv> 2 ^ 63 - 1"

abbreviation (input) LONG_MIN :: int where
  "LONG_MIN \<equiv> - (2 ^ 63)"

fun read_digits :: "int \<Rightarrow> string \<Rightarrow> int \<times> string" where
  "read_digits acc [] = (acc, [])"
| "read_digits acc (c # s) =
     (if c_isdigit c then read_digits (10 * acc + (int (of_char c) - 48)) s else (acc, c # s))"

definition strtol_sign :: "string \<Rightarrow> bool \<times> string" where
  "strtol_sign s =
     (case s of
        [] \<Rightarrow> (False, [])
      | c # r \<Rightarrow> if c = CHR ''-'' then (True, r) else if c = CHR ''+'' then (False, r) else (False, s))"

text \<open>The value, clamped to \<open>long\<close>, and the text behind the number (\<open>*endptr\<close>).\<close>

definition strtol :: "string \<Rightarrow> int \<times> string" where
  "strtol s =
     (let (neg, t) = strtol_sign (dropWhile c_isspace s) in
      if t \<noteq> [] \<and> c_isdigit (hd t)
      then (let (n, rest) = read_digits 0 t
            in (max LONG_MIN (min LONG_MAX (if neg then - n else n)), rest))
      else (0, s))"

text \<open>Conversion of a \<open>long\<close> to \<open>int\<close>: the low 32 bits, read as two's complement.\<close>

definition int_of_long :: "int \<Rightarrow> int" where
  "int_of_long v = sint (word_of_int v :: 32 word)"

lemma int_of_long_id: "- (2 ^ 31) \<le> v \<Longrightarrow> v < 2 ^ 31 \<Longrightarrow> int_of_long v = v"
  by (simp add: int_of_long_def signed_of_int signed_take_bit_int_eq_self)

text \<open>What \<open>%d\<close> prints for a number that is not negative, and \<open>%03d\<close>.\<close>

definition digit_char :: "nat \<Rightarrow> char" where
  "digit_char d = char_of (48 + d)"

fun decimal :: "nat \<Rightarrow> string" where
  "decimal n = (if n < 10 then [digit_char n] else decimal (n div 10) @ [digit_char (n mod 10)])"

declare decimal.simps [simp del]

definition pad3 :: "string \<Rightarrow> string" where
  "pad3 s = replicate (3 - length s) (CHR ''0'') @ s"

lemma digit_char_code: "d < 10 \<Longrightarrow> (of_char (digit_char d) :: nat) = 48 + d"
  by (simp add: digit_char_def)

lemma digit_char_digit: "d < 10 \<Longrightarrow> c_isdigit (digit_char d)"
  by (simp add: c_isdigit_def digit_char_code)

lemma decimal_not_empty [simp]: "decimal n \<noteq> []"
  by (subst decimal.simps) simp

lemma decimal_digits: "c \<in> set (decimal n) \<Longrightarrow> c_isdigit c"
  by (induction n rule: decimal.induct) (subst (asm) (2) decimal.simps, auto split: if_splits intro: digit_char_digit)

text \<open>Reading back a printed number.\<close>

lemma read_digits_decimal:
  "read_digits acc (decimal n @ rest) = read_digits (acc * 10 ^ length (decimal n) + int n) rest"
proof (induction n arbitrary: acc rest rule: decimal.induct)
  case (1 n)
  have d: "c_isdigit (digit_char d)" "int (of_char (digit_char d)) = 48 + int d" if "d < 10" for d
    using digit_char_digit [OF that] digit_char_code [OF that] by auto
  show ?case
  proof (cases "n < 10")
    case True
    then show ?thesis using d [of n] by (subst (1 2) decimal.simps) (simp add: mult.commute)
  next
    case False
    have m: "n mod 10 < 10" by simp
    have "int n = 10 * int (n div 10) + int (n mod 10)"
      using div_mult_mod_eq [of n 10] by (metis mult.commute of_nat_add of_nat_mult of_nat_numeral)
    with False 1 [OF False, of acc "digit_char (n mod 10) # rest"] d [OF m] show ?thesis
      by (subst (1 2) decimal.simps) (simp add: algebra_simps)
  qed
qed

lemma read_digits_zeros: "read_digits 0 (replicate k (CHR ''0'') @ s) = read_digits 0 s"
  by (induction k) (simp_all add: c_isdigit_def)

lemma strtol_digits:
  assumes "\<And>c. c \<in> set s \<Longrightarrow> c_isdigit c" "s \<noteq> []" "read_digits 0 s = (n, [])" "0 \<le> n" "n \<le> LONG_MAX"
  shows "strtol s = (n, [])"
proof -
  obtain c r where s: "s = c # r" using assms(2) by (cases s) auto
  with assms(1) have c: "c_isdigit c" by simp
  then have "\<not> c_isspace c" "c \<noteq> CHR ''-''" "c \<noteq> CHR ''+''"
    by (auto simp: c_isdigit_def c_isspace_def)
  then have "strtol_sign (dropWhile c_isspace s) = (False, s)" by (simp add: s strtol_sign_def)
  with assms(3-5) c show ?thesis by (simp add: strtol_def s)
qed

lemma strtol_pad3: "int n \<le> LONG_MAX \<Longrightarrow> strtol (pad3 (decimal n)) = (int n, [])"
  by (rule strtol_digits)
    (use read_digits_decimal [of 0 n "[]"] read_digits_zeros [of _ "decimal n"] in
      \<open>auto simp: pad3_def c_isdigit_def dest: decimal_digits\<close>)

lemma strtol_decimal: "int n \<le> LONG_MAX \<Longrightarrow> strtol (decimal n) = (int n, [])"
  by (rule strtol_digits) (use read_digits_decimal [of 0 n "[]"] decimal_digits in auto)

end
