(* ===== verification/Message.thy ===== *)
theory Message
  imports Prelude
begin

section \<open>lab4: messages and their hash (lab4/src/message.c)\<close>

text \<open>
  The \<open>message\<close> struct, \<open>calculate_hash\<close> and \<open>generate_message\<close>. The C library's
  \<open>rand\<close> is an argument: a function from the generator's state to a value (0 to
  \<open>RAND_MAX\<close>, so a \<open>nat\<close>) and the next state. The array \<open>data\<close> is a list of
  256 bytes; every index the code uses is at most 254, so no access leaves it.
\<close>

abbreviation (input) MAX_DATA_SIZE :: nat where
  "MAX_DATA_SIZE \<equiv> 256"

record message =
  m_type :: u8
  m_hash :: u16
  m_size :: u8
  m_data :: "u8 list"

type_synonym 'r rng = "'r \<Rightarrow> nat \<times> 'r"

text \<open>The loop of \<open>calculate_hash\<close>: \<open>hash\<close> is a \<open>uint16_t\<close>, so its sum wraps.\<close>

function hash_loop :: "message \<Rightarrow> nat \<Rightarrow> u16 \<Rightarrow> u16" where
  "hash_loop msg i hash =
     (if i < unat (m_size msg)
      then hash_loop msg (Suc i) (hash + ucast (m_data msg ! i))
      else hash)"
  by pat_completeness auto
termination
  by (relation "measure (\<lambda>(msg, i, hash). unat (m_size msg) - i)") auto

declare hash_loop.simps [simp del]

definition calculate_hash :: "message \<Rightarrow> u16" where
  "calculate_hash msg = hash_loop msg 0 (0 + ucast (m_type msg))"

text \<open>The loop of \<open>generate_message\<close> that fills \<open>data\<close>.\<close>

function fill_data :: "'r rng \<Rightarrow> nat \<Rightarrow> message \<Rightarrow> 'r \<Rightarrow> message \<times> 'r" where
  "fill_data rand i msg s =
     (if i < unat (m_size msg)
      then (let (r, s') = rand s
            in fill_data rand (Suc i)
                 (msg\<lparr>m_data := (m_data msg)[i := of_nat (r mod 256)]\<rparr>) s')
      else (msg, s))"
  by pat_completeness auto
termination
  by (relation "measure (\<lambda>(rand, i, msg, s). unat (m_size msg) - i)") auto

declare fill_data.simps [simp del]

definition generate_message :: "'r rng \<Rightarrow> message \<Rightarrow> 'r \<Rightarrow> message \<times> 'r" where
  "generate_message rand msg s =
     (let (r1, s1) = rand s;
          msg = msg\<lparr>m_type := of_nat (r1 mod 256)\<rparr>;
          (r2, s2) = rand s1;
          msg = msg\<lparr>m_size := of_nat (r2 mod 256)\<rparr>;
          (msg, s3) =
            (if m_size msg = 0
             then (msg\<lparr>m_data := replicate MAX_DATA_SIZE 0\<rparr>, s2)
             else fill_data rand 0 msg s2);
          msg = msg\<lparr>m_hash := 0\<rparr>
      in (msg\<lparr>m_hash := calculate_hash msg\<rparr>, s3))"

subsection \<open>Well-formed messages\<close>

definition msg_wf :: "message \<Rightarrow> bool" where
  "msg_wf msg \<longleftrightarrow> length (m_data msg) = MAX_DATA_SIZE"

text \<open>The consumer's check on a message it received.\<close>

definition hash_ok :: "message \<Rightarrow> bool" where
  "hash_ok msg \<longleftrightarrow> calculate_hash msg = m_hash msg"

subsection \<open>The value of the hash\<close>

lemma hash_loop_sum:
  "hash_loop msg i h = h + (\<Sum>k = i..<unat (m_size msg). ucast (m_data msg ! k))"
proof (induction msg i h rule: hash_loop.induct)
  case (1 msg i h)
  then show ?case
    by (simp add: hash_loop.simps [of msg i h] sum.atLeast_Suc_lessThan add.assoc)
qed

lemma calculate_hash_sum:
  "calculate_hash msg = ucast (m_type msg) + (\<Sum>k<unat (m_size msg). ucast (m_data msg ! k))"
  by (simp add: calculate_hash_def hash_loop_sum lessThan_atLeast0)

lemma calculate_hash_cong:
  assumes "m_type a = m_type b" "m_size a = m_size b"
    and "\<And>k. k < unat (m_size a) \<Longrightarrow> m_data a ! k = m_data b ! k"
  shows "calculate_hash a = calculate_hash b"
  using assms by (simp add: calculate_hash_sum)

lemma u8_bound: "unat (b :: u8) \<le> 255"
  using unsigned_less [where 'a = nat, of b] by simp

lemma byte_sum_bound: "(\<Sum>k<n. unat (f k :: u8)) \<le> 255 * n"
proof (induction n)
  case 0
  then show ?case by simp
next
  case (Suc n)
  with u8_bound [of "f n"] show ?case by simp
qed

lemma ucast_byte: "ucast (b :: u8) = (of_nat (unat b) :: u16)"
  by simp

lemma ucast_byte_sum: "(\<Sum>k<n. ucast (f k :: u8)) = (of_nat (\<Sum>k<n. unat (f k)) :: u16)"
  by (simp only: ucast_byte of_nat_sum)

subsection \<open>What the generator draws\<close>

text \<open>The next \<open>n\<close> values of the generator, and its state after them.\<close>

fun draws :: "'r rng \<Rightarrow> nat \<Rightarrow> 'r \<Rightarrow> nat list \<times> 'r" where
  "draws rand 0 s = ([], s)"
| "draws rand (Suc n) s =
     (let (r, s') = rand s; (rs, s'') = draws rand n s' in (r # rs, s''))"

definition bytes_of :: "nat list \<Rightarrow> u8 list" where
  "bytes_of rs = map (\<lambda>r. of_nat (r mod 256)) rs"

lemma length_draws [simp]: "length (fst (draws rand n s)) = n"
  by (induction n arbitrary: s) (auto simp: split_beta Let_def)

lemma fill_data_eq:
  assumes "length (m_data msg) = MAX_DATA_SIZE" "i \<le> unat (m_size msg)"
  shows "fill_data rand i msg s =
    (let (rs, s') = draws rand (unat (m_size msg) - i) s
     in (msg\<lparr>m_data := take i (m_data msg) @ bytes_of rs @ drop (unat (m_size msg)) (m_data msg)\<rparr>, s'))"
  using assms
proof (induction rand i msg s rule: fill_data.induct)
  case (1 rand i msg s)
  show ?case
  proof (cases "i < unat (m_size msg)")
    case True
    obtain r s' where r: "rand s = (r, s')" by fastforce
    define msg' where "msg' = msg\<lparr>m_data := (m_data msg)[i := of_nat (r mod 256)]\<rparr>"
    have i: "i < length (m_data msg)" "unat (m_size msg) - i = Suc (unat (m_size msg) - Suc i)"
      using True "1.prems"(1) u8_bound [of "m_size msg"] by auto
    have "fill_data rand i msg s = fill_data rand (Suc i) msg' s'"
      using True r by (subst fill_data.simps) (simp add: msg'_def)
    also have "\<dots> = (let (rs, s'') = draws rand (unat (m_size msg') - Suc i) s'
       in (msg'\<lparr>m_data := take (Suc i) (m_data msg') @ bytes_of rs @ drop (unat (m_size msg')) (m_data msg')\<rparr>, s''))"
      using True "1.prems" unfolding msg'_def
      by (intro "1.IH" [OF True refl r [symmetric]]) auto
    finally show ?thesis
      using True i r by (simp add: msg'_def split_beta Let_def bytes_of_def take_Suc_conv_app_nth)
  next
    case False
    with "1.prems" have "i = unat (m_size msg)" by simp
    with False show ?thesis by (subst fill_data.simps) (simp add: bytes_of_def)
  qed
qed

lemma calculate_hash_of_hash_update [simp]:
  "calculate_hash (msg\<lparr>m_hash := h\<rparr>) = calculate_hash msg"
  by (rule calculate_hash_cong) simp_all

lemma generate_message_result:
  assumes "msg_wf msg"
    and "rand s = (r1, s1)" and "rand s1 = (r2, s2)" and "draws rand (r2 mod 256) s2 = (rs, s3)"
  shows "\<exists>msg'. generate_message rand msg s = (msg', s3)
    \<and> m_type msg' = of_nat (r1 mod 256) \<and> unat (m_size msg') = r2 mod 256
    \<and> m_data msg' = (if r2 mod 256 = 0 then replicate 256 0
                     else bytes_of rs @ drop (r2 mod 256) (m_data msg))
    \<and> hash_ok msg'"
proof -
  have size: "unat (of_nat (r2 mod 256) :: u8) = r2 mod 256"
    by (simp add: unat_of_nat take_bit_nat_def)
  then have size0: "(of_nat (r2 mod 256) :: u8) = 0 \<longleftrightarrow> r2 mod 256 = 0"
    by (metis unat_eq_0)
  show ?thesis
  proof (cases "r2 mod 256 = 0")
    case True
    with assms(4) have "s3 = s2" by simp
    with True assms(2,3) size0 show ?thesis
      by (simp add: generate_message_def hash_ok_def Let_def)
  next
    case False
    with assms size size0 show ?thesis
      by (simp add: generate_message_def hash_ok_def fill_data_eq msg_wf_def Let_def)
  qed
qed

text \<open>
  C40. The hash of a message is the sum of its type and of its first \<open>size\<close> bytes: the
  16-bit accumulator never wraps, whatever the message holds.
\<close>

theorem calculate_hash_value:
  "unat (calculate_hash msg)
     = unat (m_type msg) + (\<Sum>k<unat (m_size msg). unat (m_data msg ! k))"
proof -
  let ?n = "unat (m_type msg) + (\<Sum>k<unat (m_size msg). unat (m_data msg ! k))"
  have "?n \<le> 255 + 255 * unat (m_size msg)"
    by (intro add_mono u8_bound byte_sum_bound)
  also have "\<dots> < 65536" using u8_bound [of "m_size msg"] by simp
  finally have "?n < 65536" .
  moreover have "calculate_hash msg = of_nat ?n"
    by (simp only: calculate_hash_sum ucast_byte of_nat_add of_nat_sum)
  ultimately show ?thesis by (simp only: unat_of_nat take_bit_nat_def) simp
qed

text \<open>
  A generated message takes its type, its size and its first \<open>size\<close> bytes from
  consecutive draws of the generator, keeps the bytes behind them (all are cleared when the
  size is 0), and carries the hash that the consumer recomputes.
\<close>

theorem generate_message_spec:
  assumes "msg_wf msg"
    and "rand s = (r1, s1)" and "rand s1 = (r2, s2)" and "draws rand (r2 mod 256) s2 = (rs, s3)"
  shows "\<exists>msg'. generate_message rand msg s = (msg', s3)
    \<and> m_type msg' = of_nat (r1 mod 256) \<and> unat (m_size msg') = r2 mod 256
    \<and> m_data msg' = (if r2 mod 256 = 0 then replicate 256 0
                     else bytes_of rs @ drop (r2 mod 256) (m_data msg))
    \<and> hash_ok msg'"
  using generate_message_result [OF assms] .

theorem generate_message_spec_witness:
  "\<exists>msg'. generate_message (\<lambda>s. (s, s + 1)) \<lparr>m_type = 0, m_hash = 0, m_size = 0, m_data = replicate 256 9\<rparr> (1::nat) = (msg', 5)
    \<and> m_type msg' = 1 \<and> unat (m_size msg') = 2 \<and> m_data msg' = 3 # 4 # replicate 254 9 \<and> hash_ok msg'"
  using generate_message_spec [of "\<lparr>m_type = 0, m_hash = 0, m_size = 0, m_data = replicate 256 9\<rparr>"
      "\<lambda>s. (s, s + 1)" "1::nat" 1 2 2 3 "[3, 4]" 5]
  by (simp add: msg_wf_def numeral_2_eq_2 bytes_of_def)

end
