(* ===== verification/Bounded_Fifo.thy ===== *)
theory Bounded_Fifo
  imports Prelude
begin

section \<open>The contract of a bounded first-in first-out store\<close>

text \<open>
  Both queues of the repository are used as bounded FIFO buffers by their producer and
  consumer processes. This theory states what such a client relies on: a locale
  \<open>bounded_store\<close> with the laws that hold as long as the store is never emptied, and its
  extension \<open>bounded_fifo\<close>, where emptying the store keeps it usable. The consequences for
  whole sequences of operations are proved once, against an abstract bounded list.
  \<open>Ring_Buffer\<close> (\<open>lab4\<close>) interprets \<open>bounded_fifo\<close>; \<open>Dyn_Queue\<close> (\<open>lab5\<close>)
  interprets only \<open>bounded_store\<close>.
\<close>

datatype 'a fifo_op = Put 'a | Take

subsection \<open>The abstract store: a list and a capacity\<close>

fun spec_run :: "nat \<Rightarrow> 'a list \<Rightarrow> 'a fifo_op list \<Rightarrow> 'a list \<times> 'a option list" where
  "spec_run cap xs [] = (xs, [])"
| "spec_run cap xs (Put x # ops) = spec_run cap (if length xs < cap then xs @ [x] else xs) ops"
| "spec_run cap [] (Take # ops) = (let (ys, out) = spec_run cap [] ops in (ys, None # out))"
| "spec_run cap (x # xs) (Take # ops) = (let (ys, out) = spec_run cap xs ops in (ys, Some x # out))"

text \<open>A sequence of operations during which no \<open>Take\<close> leaves the store empty.\<close>

fun never_drains :: "nat \<Rightarrow> 'a list \<Rightarrow> 'a fifo_op list \<Rightarrow> bool" where
  "never_drains cap xs [] = True"
| "never_drains cap xs (Put x # ops) = never_drains cap (if length xs < cap then xs @ [x] else xs) ops"
| "never_drains cap xs (Take # ops) = (2 \<le> length xs \<and> never_drains cap (tl xs) ops)"

text \<open>The same sequence on an implementation with operations \<open>put\<close> and \<open>get\<close>.\<close>

fun run_ops :: "('q \<Rightarrow> 'a \<Rightarrow> 'q) \<Rightarrow> ('q \<Rightarrow> 'a option \<times> 'q) \<Rightarrow> 'q \<Rightarrow> 'a fifo_op list \<Rightarrow> 'q \<times> 'a option list" where
  "run_ops put get q [] = (q, [])"
| "run_ops put get q (Put x # ops) = run_ops put get (put q x) ops"
| "run_ops put get q (Take # ops) =
     (let (r, q') = get q; (q'', out) = run_ops put get q' ops in (q'', r # out))"


text \<open>
  Conservation: what a run of the abstract store hands out, followed by what it leaves, is
  what it held followed by the values it accepted, in order.
\<close>

fun accepted :: "nat \<Rightarrow> 'a list \<Rightarrow> 'a fifo_op list \<Rightarrow> 'a list" where
  "accepted cap xs [] = []"
| "accepted cap xs (Put x # ops) =
     (if length xs < cap then x # accepted cap (xs @ [x]) ops else accepted cap xs ops)"
| "accepted cap xs (Take # ops) = accepted cap (tl xs) ops"

definition handed_out :: "'a option list \<Rightarrow> 'a list" where
  "handed_out out = List.map_filter id out"

lemma handed_out_simps [simp]:
  "handed_out [] = []"
  "handed_out (None # out) = handed_out out"
  "handed_out (Some x # out) = x # handed_out out"
  by (simp_all add: handed_out_def List.map_filter_simps)

lemma spec_run_conserves:
  "handed_out (snd (spec_run cap xs ops)) @ fst (spec_run cap xs ops) = xs @ accepted cap xs ops"
  by (induction cap xs ops rule: spec_run.induct) (auto simp: split_beta Let_def)

lemma spec_run_bounded: "length xs \<le> cap \<Longrightarrow> length (fst (spec_run cap xs ops)) \<le> cap"
  by (induction cap xs ops rule: spec_run.induct) (auto simp: split_beta Let_def)

subsection \<open>The interfaces\<close>

locale bounded_store =
  fixes put :: "'q \<Rightarrow> 'a \<Rightarrow> 'q"
    and get :: "'q \<Rightarrow> 'a option \<times> 'q"
    and items :: "'q \<Rightarrow> 'a list"
    and cap :: "'q \<Rightarrow> nat"
    and ok :: "'q \<Rightarrow> bool"
  assumes items_bounded: "ok q \<Longrightarrow> length (items q) \<le> cap q"
    and put_items: "ok q \<Longrightarrow> length (items q) < cap q \<Longrightarrow> items (put q x) = items q @ [x]"
    and put_full: "ok q \<Longrightarrow> length (items q) = cap q \<Longrightarrow> put q x = q"
    and put_ok: "ok q \<Longrightarrow> ok (put q x)"
    and put_cap: "ok q \<Longrightarrow> cap (put q x) = cap q"
    and get_result: "ok q \<Longrightarrow> items q \<noteq> [] \<Longrightarrow> fst (get q) = Some (hd (items q))"
    and get_items: "ok q \<Longrightarrow> items q \<noteq> [] \<Longrightarrow> items (snd (get q)) = tl (items q)"
    and get_empty: "ok q \<Longrightarrow> items q = [] \<Longrightarrow> get q = (None, q)"
    and get_cap: "ok q \<Longrightarrow> cap (snd (get q)) = cap q"
    and get_ok: "ok q \<Longrightarrow> 2 \<le> length (items q) \<Longrightarrow> ok (snd (get q))"
begin

lemma put_spec:
  "ok q \<Longrightarrow> items (put q x) = (if length (items q) < cap q then items q @ [x] else items q)"
  using items_bounded [of q] put_items [of q x] put_full [of q x] by auto

text \<open>Until it is drained, the store returns exactly what the abstract list returns.\<close>

lemma run_undrained:
  assumes "ok q" "never_drains (cap q) (items q) ops"
  shows "snd (run_ops put get q ops) = snd (spec_run (cap q) (items q) ops)
    \<and> items (fst (run_ops put get q ops)) = fst (spec_run (cap q) (items q) ops)
    \<and> ok (fst (run_ops put get q ops))"
  using assms
proof (induction ops arbitrary: q)
  case Nil
  then show ?case by simp
next
  case (Cons p ops)
  show ?case
  proof (cases p)
    case (Put x)
    with Cons.prems Cons.IH [of "put q x"] show ?thesis
      by (simp add: put_ok put_cap put_spec)
  next
    case Take
    with Cons.prems obtain x xs where items: "items q = x # xs" "1 \<le> length xs"
      by (cases "items q") auto
    have "ok (snd (get q))" using Cons.prems items by (intro get_ok) (auto simp: Suc_le_eq)
    with Take Cons.prems items Cons.IH [of "snd (get q)"] show ?thesis
      by (auto simp: split_beta Let_def get_cap get_items get_result)
  qed
qed

end

locale bounded_fifo = bounded_store +
  assumes get_last_ok: "ok q \<Longrightarrow> length (items q) = 1 \<Longrightarrow> ok (snd (get q))"
begin

lemma get_always_ok: "ok q \<Longrightarrow> ok (snd (get q))"
  using get_ok [of q] get_last_ok [of q] get_empty [of q]
  by (cases "items q") (auto simp: Suc_le_eq)

text \<open>Every sequence of operations returns what the abstract list returns.\<close>

lemma run_refines:
  assumes "ok q"
  shows "snd (run_ops put get q ops) = snd (spec_run (cap q) (items q) ops)
    \<and> items (fst (run_ops put get q ops)) = fst (spec_run (cap q) (items q) ops)
    \<and> ok (fst (run_ops put get q ops))"
  using assms
proof (induction ops arbitrary: q)
  case Nil
  then show ?case by simp
next
  case (Cons p ops)
  show ?case
  proof (cases p)
    case (Put x)
    with Cons.prems Cons.IH [of "put q x"] show ?thesis
      by (simp add: put_ok put_cap put_spec)
  next
    case Take
    with Cons.prems Cons.IH [of "snd (get q)"] get_always_ok [of q] show ?thesis
      by (cases "items q") (auto simp: split_beta Let_def get_cap get_items get_result get_empty)
  qed
qed

text \<open>Nothing is lost, duplicated or reordered, and the capacity is never exceeded.\<close>

lemma run_conserves:
  assumes "ok q"
  shows "handed_out (snd (run_ops put get q ops)) @ items (fst (run_ops put get q ops))
    = items q @ accepted (cap q) (items q) ops"
  using run_refines [OF assms, of ops] spec_run_conserves [of "cap q" "items q" ops] by simp

lemma run_bounded: "ok q \<Longrightarrow> length (items (fst (run_ops put get q ops))) \<le> cap q"
  using run_refines [of q ops] spec_run_bounded [of "items q" "cap q" ops] items_bounded [of q]
  by simp

end

end
