(* ===== verification/Ring_Buffer.thy ===== *)
theory Ring_Buffer
  imports Message Bounded_Fifo
begin

section \<open>lab4: the ring buffer in shared memory (lab4/src/ring_buffer.c)\<close>

text \<open>
  The \<open>message_queue\<close> struct and its operations. The indices and the two space counters
  stay between 0 and 10 (\<open>queue_wf\<close>), so they are \<open>int\<close>s; \<open>added_count\<close> and
  \<open>removed_count\<close> only grow, so they are kept as 32-bit words. \<open>dequeue\<close> returns a
  pointer into the buffer, not a copy: the model returns the slot's index, and the caller
  reads the slot from the state the buffer has by then.
\<close>

abbreviation (input) QUEUE_SIZE :: int where
  "QUEUE_SIZE \<equiv> 10"

record message_queue =
  q_buffer :: "message list"
  q_head :: int
  q_tail :: int
  q_count :: int
  q_added_count :: c_int
  q_removed_count :: c_int
  q_free_space :: int

definition zero_message :: message where
  "zero_message = \<lparr>m_type = 0, m_hash = 0, m_size = 0, m_data = replicate 256 0\<rparr>"

text \<open>
  \<open>shmget\<close> and \<open>shmat\<close> are system calls: their results are arguments. \<open>shmget\<close>
  returns the segment's id or -1, \<open>shmat\<close> the segment's contents (whatever an earlier run
  left there) or, as \<open>None\<close>, the pointer -1. Both failures end the program.
\<close>

definition queue_init ::
  "int \<Rightarrow> message_queue option \<Rightarrow> exit_code + (int \<times> message_queue)" where
  "queue_init shmget_result shmat_result =
     (let shm_id = shmget_result in
      if shm_id = -1 then Inl EXIT_FAILURE
      else (case shmat_result of
              None \<Rightarrow> Inl EXIT_FAILURE
            | Some q \<Rightarrow>
                Inr (shm_id,
                  q\<lparr>q_head := 0, q_tail := 0, q_count := 0, q_added_count := 0,
                    q_removed_count := 0, q_free_space := QUEUE_SIZE,
                    q_buffer := replicate (nat QUEUE_SIZE) zero_message\<rparr>)))"

definition enqueue :: "message_queue \<Rightarrow> message \<Rightarrow> message_queue" where
  "enqueue q msg =
     (if q_free_space q = 0 then q
      else q\<lparr>q_buffer := (q_buffer q)[nat (q_tail q) := msg],
             q_tail := (q_tail q + 1) smod QUEUE_SIZE,
             q_count := q_count q + 1,
             q_added_count := q_added_count q + 1,
             q_free_space := q_free_space q - 1\<rparr>)"

text \<open>\<open>None\<close> is the returned NULL; \<open>Some i\<close> is the pointer to \<open>buffer[i]\<close>.\<close>

definition dequeue :: "message_queue \<Rightarrow> nat option \<times> message_queue" where
  "dequeue q =
     (if q_count q = 0 then (None, q)
      else (Some (nat (q_head q)),
            q\<lparr>q_head := (q_head q + 1) smod QUEUE_SIZE,
              q_count := q_count q - 1,
              q_removed_count := q_removed_count q + 1,
              q_free_space := q_free_space q + 1\<rparr>))"

text \<open>The four numbers \<open>print_queue_info\<close> prints, in its order.\<close>

definition print_queue_info :: "message_queue \<Rightarrow> int list" where
  "print_queue_info q =
     [q_count q, q_free_space q, sint (q_added_count q), sint (q_removed_count q)]"

text \<open>
  The shared segment as the system sees it: mapped into the process or not, marked for
  removal or not.
\<close>

record shm_segment =
  shm_attached :: bool
  shm_removed :: bool

definition queue_destroy :: "shm_segment \<Rightarrow> shm_segment" where
  "queue_destroy seg = (let seg = seg\<lparr>shm_attached := False\<rparr> in seg\<lparr>shm_removed := True\<rparr>)"

subsection \<open>The invariant and the abstract contents\<close>

definition queue_wf :: "message_queue \<Rightarrow> bool" where
  "queue_wf q \<longleftrightarrow>
     length (q_buffer q) = 10 \<and> 0 \<le> q_head q \<and> q_head q < 10
     \<and> 0 \<le> q_count q \<and> q_count q \<le> 10
     \<and> q_tail q = (q_head q + q_count q) mod 10
     \<and> q_free_space q = 10 - q_count q
     \<and> q_added_count q - q_removed_count q = of_int (q_count q)"

definition queue_items :: "message_queue \<Rightarrow> message list" where
  "queue_items q = ring_slice (q_buffer q) (nat (q_head q)) (nat (q_count q))"

text \<open>The message a consumer finds behind the pointer, read right after the call.\<close>

definition receive :: "message_queue \<Rightarrow> message option \<times> message_queue" where
  "receive q = (let (p, q') = dequeue q in (map_option (\<lambda>i. q_buffer q' ! i) p, q'))"

lemma length_queue_items: "queue_wf q \<Longrightarrow> int (length (queue_items q)) = q_count q"
  by (simp add: queue_wf_def queue_items_def)

lemma queue_items_Nil: "queue_wf q \<Longrightarrow> queue_items q = [] \<longleftrightarrow> q_count q = 0"
  by (auto simp: queue_wf_def queue_items_def)

lemma queue_init_wf: "queue_init i s = Inr (i', q) \<Longrightarrow> queue_wf q \<and> queue_items q = []"
  by (auto simp: queue_init_def queue_wf_def queue_items_def Let_def split: if_splits option.splits)

lemma queue_init_fields:
  "queue_init i s = Inr (i', q) \<Longrightarrow>
     queue_wf q \<and> q_buffer q = replicate 10 zero_message \<and> q_count q = 0 \<and> q_free_space q = 10"
  using queue_init_wf [of i s i' q]
  by (auto simp: queue_init_def Let_def split: if_splits option.splits)

lemma queue_tail_slot:
  assumes "queue_wf q"
  shows "nat (q_tail q) = (nat (q_head q) + nat (q_count q)) mod length (q_buffer q)"
  using assms by (simp add: queue_wf_def nat_mod_distrib nat_add_distrib)

lemma enqueue_wf [inv_intros]: "queue_wf q \<Longrightarrow> queue_wf (enqueue q msg)"
  by (auto simp: queue_wf_def enqueue_def algebra_simps mod_simps)

lemma enqueue_items:
  assumes "queue_wf q" "q_count q < 10"
  shows "queue_items (enqueue q msg) = queue_items q @ [msg]"
proof -
  from assms have "q_free_space q \<noteq> 0" "nat (q_count q + 1) = Suc (nat (q_count q))"
    "nat (q_count q) < length (q_buffer q)"
    by (auto simp: queue_wf_def)
  then show ?thesis
    using queue_tail_slot [OF assms(1)]
    by (simp add: queue_items_def enqueue_def ring_slice_append)
qed

lemma enqueue_full: "queue_wf q \<Longrightarrow> q_count q = 10 \<Longrightarrow> enqueue q msg = q"
  by (simp add: queue_wf_def enqueue_def)

lemma dequeue_wf [inv_intros]: "queue_wf q \<Longrightarrow> queue_wf (snd (dequeue q))"
  using mod_add_left_eq [of "q_head q + 1" 10 "q_count q - 1"]
  by (simp add: queue_wf_def dequeue_def split: if_splits)

lemma dequeue_items:
  assumes "queue_wf q" "q_count q \<noteq> 0"
  shows "queue_items q = q_buffer q ! nat (q_head q) # queue_items (snd (dequeue q))"
proof -
  let ?h = "nat (q_head q)"
  from assms have h: "?h < length (q_buffer q)" "length (q_buffer q) = 10"
    and n: "nat (q_count q) = Suc (nat (q_count q - 1))"
    and h': "nat ((q_head q + 1) mod 10) = Suc ?h mod length (q_buffer q)"
    by (auto simp: queue_wf_def nat_mod_distrib nat_add_distrib)
  have "queue_items (snd (dequeue q)) = ring_slice (q_buffer q) (Suc ?h) (nat (q_count q - 1))"
    using assms ring_slice_mod [of "q_buffer q" "Suc ?h"]
    by (simp add: queue_items_def dequeue_def h' queue_wf_def)
  with h show ?thesis by (simp add: queue_items_def n ring_slice_Suc)
qed

lemma dequeue_buffer [simp]: "q_buffer (snd (dequeue q)) = q_buffer q"
  by (simp add: dequeue_def)

lemma receive_items:
  assumes "queue_wf q" "queue_items q \<noteq> []"
  shows "fst (receive q) = Some (hd (queue_items q))"
    and "queue_items (snd (receive q)) = tl (queue_items q)"
proof -
  have c: "q_count q \<noteq> 0" using assms queue_items_Nil by blast
  have "dequeue q = (Some (nat (q_head q)), snd (dequeue q))" using c by (simp add: dequeue_def)
  then have "receive q = (Some (q_buffer q ! nat (q_head q)), snd (dequeue q))"
    unfolding receive_def by (metis (no_types, lifting) case_prod_conv dequeue_buffer option.map(2))
  then show "fst (receive q) = Some (hd (queue_items q))"
    and "queue_items (snd (receive q)) = tl (queue_items q)"
    using dequeue_items [OF assms(1) c] by simp_all
qed

lemma dequeue_tl: "queue_wf q \<Longrightarrow> queue_items q \<noteq> [] \<Longrightarrow> queue_items (snd (dequeue q)) = tl (queue_items q)"
  using dequeue_items [of q] queue_items_Nil [of q] by simp

lemma receive_snd: "snd (receive q) = snd (dequeue q)"
  by (simp add: receive_def split_beta Let_def)

lemma receive_empty: "queue_wf q \<Longrightarrow> queue_items q = [] \<Longrightarrow> receive q = (None, q)"
  using queue_items_Nil [of q] by (simp add: receive_def dequeue_def)

interpretation ring: bounded_fifo enqueue receive queue_items "\<lambda>_. 10" queue_wf
proof
  fix q :: message_queue and msg
  assume wf: "queue_wf q"
  note len = length_queue_items [OF wf]
  show "length (queue_items q) \<le> 10"
    using wf len by (simp add: queue_wf_def)
  show "length (queue_items q) < 10 \<Longrightarrow> queue_items (enqueue q msg) = queue_items q @ [msg]"
    using enqueue_items [OF wf] len by simp
  show "length (queue_items q) = 10 \<Longrightarrow> enqueue q msg = q"
    using enqueue_full [OF wf] len by simp
qed (auto intro: inv_intros simp: receive_items(1) receive_empty receive_snd dequeue_tl)

subsection \<open>Sequences of operations\<close>

text \<open>
  C9. Refinement. From the buffer \<open>queue_init\<close> sets up, every sequence of \<open>enqueue\<close> and
  \<open>dequeue\<close> calls returns what a FIFO list of capacity 10 returns, an \<open>enqueue\<close> on the full
  queue and a \<open>dequeue\<close> on the empty one having no effect, and leaves that list in the
  buffer.
\<close>

theorem ring_buffer_refines_fifo:
  assumes "queue_init id0 seg = Inr (id1, q)"
  shows "snd (run_ops enqueue receive q ops) = snd (spec_run 10 [] ops)
    \<and> queue_items (fst (run_ops enqueue receive q ops)) = fst (spec_run 10 [] ops)
    \<and> queue_wf (fst (run_ops enqueue receive q ops))"
  using queue_init_wf [OF assms] ring.run_refines [of q ops] by simp

text \<open>
  Conservation. Whatever the sequence of calls, the messages handed out followed by the
  messages still queued are the messages that were queued followed by those accepted, in
  order: the buffer loses, duplicates and reorders nothing, across any number of wrap-arounds.
\<close>

theorem ring_buffer_conserves:
  assumes "queue_wf q"
  shows "handed_out (snd (run_ops enqueue receive q ops)) @ queue_items (fst (run_ops enqueue receive q ops))
      = queue_items q @ accepted 10 (queue_items q) ops"
  using ring.run_conserves [OF assms] .

subsection \<open>The slot behind a dequeued pointer\<close>

lemma enqueue_all_slots:
  assumes "queue_wf q" "int (length ms) \<le> q_free_space q" "d < 10"
  shows "q_buffer (foldl enqueue q ms) ! ((nat (q_tail q) + d) mod 10)
    = (if d < length ms then ms ! d else q_buffer q ! ((nat (q_tail q) + d) mod 10))"
  using assms
proof (induction ms arbitrary: q d)
  case Nil
  then show ?case by simp
next
  case (Cons m ms)
  let ?t = "nat (q_tail q)" and ?q = "enqueue q m"
  have free: "q_free_space q \<noteq> 0" using Cons.prems(2) by simp
  have t: "?t < 10" "length (q_buffer q) = 10" "0 \<le> q_tail q"
    using Cons.prems(1) by (auto simp: queue_wf_def nat_less_iff)
  have buf: "q_buffer ?q = (q_buffer q)[?t := m]"
    using free by (simp add: enqueue_def)
  have tail: "nat (q_tail ?q) = Suc ?t mod 10"
    using free t by (simp add: enqueue_def nat_mod_distrib nat_add_distrib)
  have IH: "q_buffer (foldl enqueue ?q ms) ! ((Suc ?t + e) mod 10)
      = (if e < length ms then ms ! e else q_buffer ?q ! ((Suc ?t + e) mod 10))" if "e < 10" for e
  proof -
    have "int (length ms) \<le> q_free_space ?q"
      using Cons.prems(2) free by (simp add: enqueue_def)
    from Cons.IH [OF enqueue_wf [OF Cons.prems(1)] this that] show ?thesis
      unfolding tail mod_add_left_eq .
  qed
  show ?case
  proof (cases d)
    case 0
    have "(Suc ?t + 9) mod 10 = ?t" "length ms \<le> 9"
      using t Cons.prems(1,2) by (auto simp: queue_wf_def)
    with IH [of 9] show ?thesis using 0 t buf by simp
  next
    case (Suc e)
    have "(?t + Suc e) mod 10 \<noteq> ?t"
      using mod_add_cancel_small [of ?t "Suc e" 10 0] Suc Cons.prems(3) t by auto
    with IH [of e] show ?thesis using Suc Cons.prems(3) buf t by simp
  qed
qed


subsection \<open>Witnesses\<close>

definition stale_segment :: message_queue where
  "stale_segment = \<lparr>q_buffer = [], q_head = 7, q_tail = 3, q_count = 4, q_added_count = 9,
     q_removed_count = 5, q_free_space = 6\<rparr>"

definition fresh_queue :: message_queue where
  "fresh_queue = \<lparr>q_buffer = replicate 10 zero_message, q_head = 0, q_tail = 0, q_count = 0,
     q_added_count = 0, q_removed_count = 0, q_free_space = 10\<rparr>"

lemma fresh_queue_init: "queue_init 5 (Some stale_segment) = Inr (5, fresh_queue)"
  by (simp add: queue_init_def stale_segment_def fresh_queue_def)

lemma fresh_queue_wf: "queue_wf fresh_queue" "queue_items fresh_queue = []"
  using queue_init_wf [OF fresh_queue_init] by simp_all

theorem ring_buffer_refines_fifo_witness:
  "snd (run_ops enqueue receive fresh_queue [Take, Put zero_message, Take, Take])
     = [None, Some zero_message, None]"
  using ring_buffer_refines_fifo [OF fresh_queue_init, of "[Take, Put zero_message, Take, Take]"]
  by simp

theorem ring_buffer_conserves_witness:
  "handed_out (snd (run_ops enqueue receive fresh_queue [Put zero_message, Take]))
     @ queue_items (fst (run_ops enqueue receive fresh_queue [Put zero_message, Take])) = [zero_message]"
  using ring_buffer_conserves [OF fresh_queue_wf(1), of "[Put zero_message, Take]"]
  by (simp add: fresh_queue_wf)


end
