(* ===== verification/Lab4_System.thy ===== *)
theory Lab4_System
  imports Ring_Buffer
begin

section \<open>lab4: producers and consumers over System V semaphores (lab4/src/main.c)\<close>

text \<open>
  The processes \<open>create_process\<close> forks, as programs over the shared segment: one program
  location per call of \<open>producer_process\<close> and \<open>consumer_process\<close> that touches shared
  state, so that every interleaving of those calls is a run of the step relation. A semaphore
  is a number; \<open>semop\<close> with -1 blocks at 0. The signal handler only sets
  \<open>terminate_flag\<close>; a signal that arrives while \<open>semop\<close> blocks also makes the call return
  \<open>EINTR\<close>, which \<open>wait_semaphore\<close> ignores (\<open>intr_step\<close>).
\<close>

datatype semaphore_type = EL_COUNT_SEM | FREE_SPACE_SEM | QUEUE_ACCESS_SEM

type_synonym semaphores = "semaphore_type \<Rightarrow> nat"

text \<open>\<open>semget\<close> is a system call: its result is an argument.\<close>

definition init_semaphores :: "int \<Rightarrow> exit_code + (int \<times> semaphores)" where
  "init_semaphores semget_result =
     (if semget_result = -1 then Inl EXIT_FAILURE
      else Inr (semget_result,
             ((\<lambda>_. 0)(EL_COUNT_SEM := 0))(FREE_SPACE_SEM := nat QUEUE_SIZE, QUEUE_ACCESS_SEM := 1)))"

text \<open>\<open>None\<close>: the caller blocks.\<close>

definition wait_semaphore :: "semaphore_type \<Rightarrow> semaphores \<Rightarrow> semaphores option" where
  "wait_semaphore sem_num sems =
     (if sems sem_num = 0 then None else Some (sems(sem_num := sems sem_num - 1)))"

definition signal_semaphore :: "semaphore_type \<Rightarrow> semaphores \<Rightarrow> semaphores" where
  "signal_semaphore sem_num sems = sems(sem_num := sems sem_num + 1)"

subsection \<open>The programs of the two kinds of process\<close>

datatype pc =
    P_Start | P_Loop | P_WaitFree | P_WaitAccess | P_Generate | P_Enqueue | P_SignalAccess | P_SignalEl
  | P_Report | P_Exit
  | C_Start | C_Loop | C_WaitEl | C_WaitAccess | C_Dequeue | C_SignalAccess | C_SignalFree | C_Check
  | C_Delay | C_Exit
  | Exited

datatype printed =
    Queue_full | Queue_empty
  | Message_added int | Message_consumed int | Invalid_hash
  | Producer_terminating | Consumer_terminating

record 'r process =
  p_pc :: pc
  p_flag :: bool
  p_msg :: message
  p_ptr :: "nat option"
  p_rng :: 'r
  p_out :: "printed list"

record shared =
  sh_sems :: semaphores
  sh_queue :: message_queue

text \<open>Moving to the next location, and printing.\<close>

definition goto :: "pc \<Rightarrow> 'r process \<Rightarrow> 'r process" where
  "goto c p = p\<lparr>p_pc := c\<rparr>"

definition say :: "printed \<Rightarrow> 'r process \<Rightarrow> 'r process" where
  "say m p = p\<lparr>p_out := p_out p @ [m]\<rparr>"

definition do_wait ::
  "semaphore_type \<Rightarrow> pc \<Rightarrow> 'r process \<Rightarrow> shared \<Rightarrow> ('r process \<times> shared) option" where
  "do_wait sem c p sh =
     map_option (\<lambda>sems. (goto c p, sh\<lparr>sh_sems := sems\<rparr>)) (wait_semaphore sem (sh_sems sh))"

definition do_signal ::
  "semaphore_type \<Rightarrow> pc \<Rightarrow> 'r process \<Rightarrow> shared \<Rightarrow> ('r process \<times> shared) option" where
  "do_signal sem c p sh = Some (goto c p, sh\<lparr>sh_sems := signal_semaphore sem (sh_sems sh)\<rparr>)"

definition producer_step :: "'r rng \<Rightarrow> 'r process \<Rightarrow> shared \<Rightarrow> ('r process \<times> shared) option" where
  "producer_step rand p sh =
     (case p_pc p of
        P_Start \<Rightarrow> Some (goto P_Loop p, sh)
      | P_Loop \<Rightarrow> Some (goto (if p_flag p then P_Exit else P_WaitFree) p, sh)
      | P_WaitFree \<Rightarrow> do_wait FREE_SPACE_SEM P_WaitAccess p sh
      | P_WaitAccess \<Rightarrow> do_wait QUEUE_ACCESS_SEM P_Generate p sh
      | P_Generate \<Rightarrow>
          (let (msg, r) = generate_message rand (p_msg p) (p_rng p)
           in Some (goto P_Enqueue (p\<lparr>p_msg := msg, p_rng := r\<rparr>), sh))
      | P_Enqueue \<Rightarrow>
          Some (goto P_SignalAccess (if q_free_space (sh_queue sh) = 0 then say Queue_full p else p),
                sh\<lparr>sh_queue := enqueue (sh_queue sh) (p_msg p)\<rparr>)
      | P_SignalAccess \<Rightarrow> do_signal QUEUE_ACCESS_SEM P_SignalEl p sh
      | P_SignalEl \<Rightarrow> do_signal EL_COUNT_SEM P_Report p sh
      | P_Report \<Rightarrow> Some (goto P_Loop (say (Message_added (sint (q_added_count (sh_queue sh)))) p), sh)
      | P_Exit \<Rightarrow> Some (goto Exited (say Producer_terminating p), sh)
      | _ \<Rightarrow> None)"

definition consumer_step :: "'r process \<Rightarrow> shared \<Rightarrow> ('r process \<times> shared) option" where
  "consumer_step p sh =
     (case p_pc p of
        C_Start \<Rightarrow> Some (goto C_Loop p, sh)
      | C_Loop \<Rightarrow> Some (goto (if p_flag p then C_Exit else C_WaitEl) p, sh)
      | C_WaitEl \<Rightarrow> do_wait EL_COUNT_SEM C_WaitAccess p sh
      | C_WaitAccess \<Rightarrow> do_wait QUEUE_ACCESS_SEM C_Dequeue p sh
      | C_Dequeue \<Rightarrow>
          (let (ptr, q) = dequeue (sh_queue sh)
           in Some (goto C_SignalAccess (if ptr = None then say Queue_empty (p\<lparr>p_ptr := ptr\<rparr>) else p\<lparr>p_ptr := ptr\<rparr>),
                    sh\<lparr>sh_queue := q\<rparr>))
      | C_SignalAccess \<Rightarrow> do_signal QUEUE_ACCESS_SEM C_SignalFree p sh
      | C_SignalFree \<Rightarrow> do_signal FREE_SPACE_SEM C_Check p sh
      | C_Check \<Rightarrow>
          (case p_ptr p of
             None \<Rightarrow> Some (goto C_Delay p, sh)
           | Some i \<Rightarrow>
               (let msg = q_buffer (sh_queue sh) ! i;
                    hash = calculate_hash msg
                in Some (goto C_Delay
                     (say (if hash = m_hash msg
                           then Message_consumed (sint (q_removed_count (sh_queue sh)))
                           else Invalid_hash) p), sh)))
      | C_Delay \<Rightarrow> Some (goto C_Loop p, sh)
      | C_Exit \<Rightarrow> Some (goto Exited (say Consumer_terminating p), sh)
      | _ \<Rightarrow> None)"

definition is_producer :: "pc \<Rightarrow> bool" where
  "is_producer c \<longleftrightarrow> c \<in> {P_Start, P_Loop, P_WaitFree, P_WaitAccess, P_Generate, P_Enqueue,
     P_SignalAccess, P_SignalEl, P_Report, P_Exit}"

definition proc_step :: "'r rng \<Rightarrow> 'r process \<Rightarrow> shared \<Rightarrow> ('r process \<times> shared) option" where
  "proc_step rand p sh =
     (if is_producer (p_pc p) then producer_step rand p sh else consumer_step p sh)"

text \<open>A forked child: its \<open>message\<close> local is whatever its stack holds.\<close>

definition new_process :: "pc \<Rightarrow> message \<Rightarrow> 'r \<Rightarrow> 'r process" where
  "new_process c junk r =
     \<lparr>p_pc = c, p_flag = False, p_msg = junk, p_ptr = None, p_rng = r, p_out = []\<rparr>"

subsection \<open>The system\<close>

record 'r system =
  s_procs :: "'r process list"
  s_shared :: shared

text \<open>
  SIGUSR1: \<open>termination_handler\<close> sets the flag. A child that has not yet called \<open>signal\<close> is ended
  by the signal's default action.
\<close>

definition sigusr1 :: "'r process \<Rightarrow> 'r process" where
  "sigusr1 p =
     (if p_pc p = Exited then p
      else if p_pc p = P_Start \<or> p_pc p = C_Start then goto Exited p
      else p\<lparr>p_flag := True\<rparr>)"

text \<open>
  One step: a process moves, a child is forked, or a signal reaches a process that is not
  blocked in \<open>semop\<close>.
\<close>

inductive sys_step :: "'r rng \<Rightarrow> 'r system \<Rightarrow> 'r system \<Rightarrow> bool" for rand where
  run: "i < length (s_procs s) \<Longrightarrow> proc_step rand (s_procs s ! i) (s_shared s) = Some (p, sh) \<Longrightarrow>
     sys_step rand s (s\<lparr>s_procs := (s_procs s)[i := p], s_shared := sh\<rparr>)"
| fork: "c \<in> {P_Start, C_Start} \<Longrightarrow> msg_wf junk \<Longrightarrow>
     sys_step rand s (s\<lparr>s_procs := s_procs s @ [new_process c junk r]\<rparr>)"
| signal: "i < length (s_procs s) \<Longrightarrow>
     sys_step rand s (s\<lparr>s_procs := (s_procs s)[i := sigusr1 (s_procs s ! i)]\<rparr>)"

text \<open>
  A signal that interrupts a blocked \<open>semop\<close>: the handler sets the flag, the call returns -1
  and the process goes on to the location behind the wait.
\<close>

definition after_wait :: "pc \<Rightarrow> (semaphore_type \<times> pc) option" where
  "after_wait c =
     (case c of
        P_WaitFree \<Rightarrow> Some (FREE_SPACE_SEM, P_WaitAccess)
      | P_WaitAccess \<Rightarrow> Some (QUEUE_ACCESS_SEM, P_Generate)
      | C_WaitEl \<Rightarrow> Some (EL_COUNT_SEM, C_WaitAccess)
      | C_WaitAccess \<Rightarrow> Some (QUEUE_ACCESS_SEM, C_Dequeue)
      | _ \<Rightarrow> None)"

inductive intr_step :: "'r rng \<Rightarrow> 'r system \<Rightarrow> 'r system \<Rightarrow> bool" for rand where
  normal: "sys_step rand s t \<Longrightarrow> intr_step rand s t"
| eintr: "i < length (s_procs s) \<Longrightarrow> after_wait (p_pc (s_procs s ! i)) = Some (sem, c) \<Longrightarrow>
     sh_sems (s_shared s) sem = 0 \<Longrightarrow>
     intr_step rand s (s\<lparr>s_procs := (s_procs s)[i := goto c ((s_procs s ! i)\<lparr>p_flag := True\<rparr>)]\<rparr>)"

text \<open>The state \<open>main\<close> sets up before it reads the first command.\<close>

definition initial :: "'r system \<Rightarrow> bool" where
  "initial s \<longleftrightarrow> s_procs s = []
     \<and> (\<exists>id0 seg id1. queue_init id0 seg = Inr (id1, sh_queue (s_shared s)))
     \<and> (\<exists>id0 id1. init_semaphores id0 = Inr (id1, sh_sems (s_shared s)))"

subsection \<open>The invariant\<close>

text \<open>
  How many processes are inside the critical section, hold a free-space token they have not
  used, have put a message they have not announced, hold a message token they have not used,
  or have taken a message whose space they have not announced.
\<close>

definition in_crit :: "'r process \<Rightarrow> nat" where
  "in_crit p = of_bool (p_pc p \<in> {P_Generate, P_Enqueue, P_SignalAccess, C_Dequeue, C_SignalAccess})"

definition free_held :: "'r process \<Rightarrow> nat" where
  "free_held p = of_bool (p_pc p \<in> {P_WaitAccess, P_Generate, P_Enqueue})"

definition el_pending :: "'r process \<Rightarrow> nat" where
  "el_pending p = of_bool (p_pc p \<in> {P_SignalAccess, P_SignalEl})"

definition el_held :: "'r process \<Rightarrow> nat" where
  "el_held p = of_bool (p_pc p \<in> {C_WaitAccess, C_Dequeue})"

definition free_pending :: "'r process \<Rightarrow> nat" where
  "free_pending p = of_bool (p_pc p \<in> {C_SignalAccess, C_SignalFree})"

lemmas weights = in_crit_def free_held_def el_pending_def el_held_def free_pending_def

definition good_msg :: "message \<Rightarrow> bool" where
  "good_msg m \<longleftrightarrow> msg_wf m \<and> hash_ok m"

definition proc_ok :: "'r process \<Rightarrow> bool" where
  "proc_ok p \<longleftrightarrow> msg_wf (p_msg p)
     \<and> (p_pc p = P_Enqueue \<longrightarrow> good_msg (p_msg p))
     \<and> (p_pc p \<in> {C_SignalAccess, C_SignalFree, C_Check} \<longrightarrow> (\<exists>i<10. p_ptr p = Some i))
     \<and> set (p_out p) \<inter> {Queue_full, Queue_empty, Invalid_hash} = {}"

definition sys_inv :: "'r system \<Rightarrow> bool" where
  "sys_inv s \<longleftrightarrow>
     (let ps = s_procs s; sems = sh_sems (s_shared s); q = sh_queue (s_shared s) in
        queue_wf q
        \<and> sems QUEUE_ACCESS_SEM + tally in_crit ps = 1
        \<and> sems FREE_SPACE_SEM + tally free_held ps + tally free_pending ps = nat (q_free_space q)
        \<and> sems EL_COUNT_SEM + tally el_held ps + tally el_pending ps = nat (q_count q)
        \<and> (\<forall>p \<in> set ps. proc_ok p)
        \<and> (\<forall>m \<in> set (q_buffer q). good_msg m))"

lemma zero_message_good: "good_msg zero_message"
  by (simp add: good_msg_def zero_message_def msg_wf_def hash_ok_def calculate_hash_sum)

lemma init_semaphores_values:
  "init_semaphores i = Inr (i', sems) \<Longrightarrow>
     sems EL_COUNT_SEM = 0 \<and> sems FREE_SPACE_SEM = 10 \<and> sems QUEUE_ACCESS_SEM = 1"
  by (auto simp: init_semaphores_def split: if_splits)

lemma initial_inv: "initial s \<Longrightarrow> sys_inv s"
  by (auto simp: initial_def sys_inv_def Let_def zero_message_good
      dest!: queue_init_fields init_semaphores_values)

lemma generate_message_good:
  assumes "generate_message rand m r = (m', r')" "msg_wf m"
  shows "good_msg m'"
proof -
  obtain r1 s1 r2 s2 rs s3 where
    "rand r = (r1, s1)" "rand s1 = (r2, s2)" "draws rand (r2 mod 256) s2 = (rs, s3)"
    by (metis surj_pair)
  from generate_message_result [OF assms(2) this] this(3) assms show ?thesis
    using length_draws [of rand "r2 mod 256" s2]
    by (auto simp: good_msg_def msg_wf_def bytes_of_def)
qed

text \<open>What a single move of process \<open>i\<close> does to the five counts.\<close>

lemma tally_moves:
  assumes "i < length ps"
  shows "tally in_crit (ps[i := p]) + in_crit (ps ! i) = tally in_crit ps + in_crit p"
    and "tally free_held (ps[i := p]) + free_held (ps ! i) = tally free_held ps + free_held p"
    and "tally el_pending (ps[i := p]) + el_pending (ps ! i) = tally el_pending ps + el_pending p"
    and "tally el_held (ps[i := p]) + el_held (ps ! i) = tally el_held ps + el_held p"
    and "tally free_pending (ps[i := p]) + free_pending (ps ! i) = tally free_pending ps + free_pending p"
  by (rule tally_update [OF assms])+

lemma sys_invD:
  assumes "sys_inv s"
  shows "queue_wf (sh_queue (s_shared s))"
    and "sh_sems (s_shared s) QUEUE_ACCESS_SEM + tally in_crit (s_procs s) = 1"
    and "sh_sems (s_shared s) FREE_SPACE_SEM + tally free_held (s_procs s) + tally free_pending (s_procs s)
       = nat (q_free_space (sh_queue (s_shared s)))"
    and "sh_sems (s_shared s) EL_COUNT_SEM + tally el_held (s_procs s) + tally el_pending (s_procs s)
       = nat (q_count (sh_queue (s_shared s)))"
    and "\<And>i. i < length (s_procs s) \<Longrightarrow> proc_ok (s_procs s ! i)"
    and "\<And>m. m \<in> set (q_buffer (sh_queue (s_shared s))) \<Longrightarrow> good_msg m"
  using assms by (auto simp: sys_inv_def Let_def)

text \<open>
  A process about to enqueue finds room, one about to dequeue finds a message: the guards of
  the two queue operations never fire.
\<close>

lemma enqueue_finds_room:
  assumes "sys_inv s" "i < length (s_procs s)" "p_pc (s_procs s ! i) = P_Enqueue"
  shows "0 < q_free_space (sh_queue (s_shared s))"
proof -
  have "free_held (s_procs s ! i) = 1" using assms(3) by (simp add: free_held_def)
  with tally_ge [OF assms(2), of free_held] sys_invD(3) [OF assms(1)] show ?thesis by linarith
qed

lemma dequeue_finds_message:
  assumes "sys_inv s" "i < length (s_procs s)" "p_pc (s_procs s ! i) = C_Dequeue"
  shows "0 < q_count (sh_queue (s_shared s))"
proof -
  have "el_held (s_procs s ! i) = 1" using assms(3) by (simp add: el_held_def)
  with tally_ge [OF assms(2), of el_held] sys_invD(4) [OF assms(1)] show ?thesis by linarith
qed

lemmas proc_step_simps = proc_step_def is_producer_def producer_step_def consumer_step_def
  do_wait_def do_signal_def wait_semaphore_def signal_semaphore_def goto_def say_def Let_def split_beta

text \<open>
  A move in three parts: where the process goes, what it does to the semaphores, and what it
  does to the queue.
\<close>

fun next_pcs :: "pc \<Rightarrow> pc list" where
  "next_pcs P_Start = [P_Loop]"
| "next_pcs P_Loop = [P_WaitFree, P_Exit]"
| "next_pcs P_WaitFree = [P_WaitAccess]"
| "next_pcs P_WaitAccess = [P_Generate]"
| "next_pcs P_Generate = [P_Enqueue]"
| "next_pcs P_Enqueue = [P_SignalAccess]"
| "next_pcs P_SignalAccess = [P_SignalEl]"
| "next_pcs P_SignalEl = [P_Report]"
| "next_pcs P_Report = [P_Loop]"
| "next_pcs P_Exit = [Exited]"
| "next_pcs C_Start = [C_Loop]"
| "next_pcs C_Loop = [C_WaitEl, C_Exit]"
| "next_pcs C_WaitEl = [C_WaitAccess]"
| "next_pcs C_WaitAccess = [C_Dequeue]"
| "next_pcs C_Dequeue = [C_SignalAccess]"
| "next_pcs C_SignalAccess = [C_SignalFree]"
| "next_pcs C_SignalFree = [C_Check]"
| "next_pcs C_Check = [C_Delay]"
| "next_pcs C_Delay = [C_Loop]"
| "next_pcs C_Exit = [Exited]"
| "next_pcs Exited = []"

fun sem_move :: "pc \<Rightarrow> semaphores \<Rightarrow> semaphores option" where
  "sem_move P_WaitFree sems = wait_semaphore FREE_SPACE_SEM sems"
| "sem_move P_WaitAccess sems = wait_semaphore QUEUE_ACCESS_SEM sems"
| "sem_move P_SignalAccess sems = Some (signal_semaphore QUEUE_ACCESS_SEM sems)"
| "sem_move P_SignalEl sems = Some (signal_semaphore EL_COUNT_SEM sems)"
| "sem_move C_WaitEl sems = wait_semaphore EL_COUNT_SEM sems"
| "sem_move C_WaitAccess sems = wait_semaphore QUEUE_ACCESS_SEM sems"
| "sem_move C_SignalAccess sems = Some (signal_semaphore QUEUE_ACCESS_SEM sems)"
| "sem_move C_SignalFree sems = Some (signal_semaphore FREE_SPACE_SEM sems)"
| "sem_move _ sems = Some sems"

lemma proc_step_pc: "proc_step rand p sh = Some (p', sh') \<Longrightarrow> p_pc p' \<in> set (next_pcs (p_pc p))"
  by (cases "p_pc p") (auto simp: proc_step_simps split: if_splits option.splits)

lemma proc_step_sems:
  "proc_step rand p sh = Some (p', sh') \<Longrightarrow> sem_move (p_pc p) (sh_sems sh) = Some (sh_sems sh')"
  by (cases "p_pc p") (auto simp: proc_step_simps split: if_splits option.splits)

lemma proc_step_queue:
  "proc_step rand p sh = Some (p', sh') \<Longrightarrow> sh_queue sh' =
     (if p_pc p = P_Enqueue then enqueue (sh_queue sh) (p_msg p)
      else if p_pc p = C_Dequeue then snd (dequeue (sh_queue sh)) else sh_queue sh)"
  by (cases "p_pc p") (auto simp: proc_step_simps split: if_splits option.splits)

text \<open>The moves as balance equations: each token that appears was taken from somewhere.\<close>

lemma sems_balance:
  assumes "sem_move c sems = Some sems'"
  shows "sems' QUEUE_ACCESS_SEM + of_bool (c \<in> {P_WaitAccess, C_WaitAccess})
      = sems QUEUE_ACCESS_SEM + of_bool (c \<in> {P_SignalAccess, C_SignalAccess})"
    and "sems' FREE_SPACE_SEM + of_bool (c = P_WaitFree)
      = sems FREE_SPACE_SEM + of_bool (c = C_SignalFree)"
    and "sems' EL_COUNT_SEM + of_bool (c = C_WaitEl)
      = sems EL_COUNT_SEM + of_bool (c = P_SignalEl)"
  using assms
  by (cases c; auto simp: wait_semaphore_def signal_semaphore_def split: if_splits)+

lemma weights_balance:
  assumes "p_pc p' \<in> set (next_pcs (p_pc p))"
  shows "in_crit p' + of_bool (p_pc p \<in> {P_SignalAccess, C_SignalAccess})
      = in_crit p + of_bool (p_pc p \<in> {P_WaitAccess, C_WaitAccess})"
    and "free_held p' + of_bool (p_pc p = P_Enqueue) = free_held p + of_bool (p_pc p = P_WaitFree)"
    and "el_pending p' + of_bool (p_pc p = P_SignalEl) = el_pending p + of_bool (p_pc p = P_Enqueue)"
    and "el_held p' + of_bool (p_pc p = C_Dequeue) = el_held p + of_bool (p_pc p = C_WaitEl)"
    and "free_pending p' + of_bool (p_pc p = C_SignalFree) = free_pending p + of_bool (p_pc p = C_Dequeue)"
  unfolding weights using assms by (cases "p_pc p"; auto)+

lemma queue_balance:
  assumes "proc_step rand p sh = Some (p', sh')" "queue_wf (sh_queue sh)"
    and "p_pc p = P_Enqueue \<Longrightarrow> 0 < q_free_space (sh_queue sh)"
    and "p_pc p = C_Dequeue \<Longrightarrow> 0 < q_count (sh_queue sh)"
  shows "nat (q_free_space (sh_queue sh')) + of_bool (p_pc p = P_Enqueue)
      = nat (q_free_space (sh_queue sh)) + of_bool (p_pc p = C_Dequeue)"
    and "nat (q_count (sh_queue sh')) + of_bool (p_pc p = C_Dequeue)
      = nat (q_count (sh_queue sh)) + of_bool (p_pc p = P_Enqueue)"
  using proc_step_queue [OF assms(1)] assms(2-4)
  by (auto simp: enqueue_def dequeue_def queue_wf_def)

text \<open>What a move does to the process itself.\<close>

lemma proc_step_msg:
  "proc_step rand p sh = Some (p', sh') \<Longrightarrow>
     p_msg p' = (if p_pc p = P_Generate then fst (generate_message rand (p_msg p) (p_rng p)) else p_msg p)"
  by (cases "p_pc p") (auto simp: proc_step_simps split: if_splits option.splits)

lemma proc_step_ptr:
  "proc_step rand p sh = Some (p', sh') \<Longrightarrow>
     p_ptr p' = (if p_pc p = C_Dequeue then fst (dequeue (sh_queue sh)) else p_ptr p)"
  by (cases "p_pc p") (auto simp: proc_step_simps split: if_splits option.splits)

fun prints :: "'r process \<Rightarrow> shared \<Rightarrow> printed set" where
  "prints p sh =
     (case p_pc p of
        P_Enqueue \<Rightarrow> if q_free_space (sh_queue sh) = 0 then {Queue_full} else {}
      | C_Dequeue \<Rightarrow> if q_count (sh_queue sh) = 0 then {Queue_empty} else {}
      | C_Check \<Rightarrow> (case p_ptr p of
            None \<Rightarrow> {}
          | Some i \<Rightarrow> if hash_ok (q_buffer (sh_queue sh) ! i)
                      then {Message_consumed (sint (q_removed_count (sh_queue sh)))} else {Invalid_hash})
      | P_Report \<Rightarrow> {Message_added (sint (q_added_count (sh_queue sh)))}
      | P_Exit \<Rightarrow> {Producer_terminating}
      | C_Exit \<Rightarrow> {Consumer_terminating}
      | _ \<Rightarrow> {})"

lemma proc_step_out:
  "proc_step rand p sh = Some (p', sh') \<Longrightarrow> set (p_out p') = set (p_out p) \<union> prints p sh"
  by (cases "p_pc p")
    (auto simp: proc_step_simps dequeue_def hash_ok_def split: if_splits option.splits)

lemma dequeue_ptr: "queue_wf q \<Longrightarrow> 0 < q_count q \<Longrightarrow> \<exists>i<10. fst (dequeue q) = Some i"
  by (auto simp: dequeue_def queue_wf_def)

lemma proc_step_ok:
  assumes step: "proc_step rand p sh = Some (p', sh')" and ok: "proc_ok p"
    and wf: "queue_wf (sh_queue sh)"
    and buf: "\<And>m. m \<in> set (q_buffer (sh_queue sh)) \<Longrightarrow> good_msg m"
    and room: "p_pc p = P_Enqueue \<Longrightarrow> 0 < q_free_space (sh_queue sh)"
    and msgs: "p_pc p = C_Dequeue \<Longrightarrow> 0 < q_count (sh_queue sh)"
  shows "proc_ok p'"
  unfolding proc_ok_def
proof (intro conjI impI)
  note pc = proc_step_pc [OF step] and msg = proc_step_msg [OF step] and ptr = proc_step_ptr [OF step]
  have gen: "good_msg (fst (generate_message rand (p_msg p) (p_rng p)))"
    using ok generate_message_good [OF prod.collapse [symmetric]] by (auto simp: proc_ok_def)
  show "msg_wf (p_msg p')"
    using msg gen ok by (auto simp: proc_ok_def good_msg_def)
  show "good_msg (p_msg p')" if "p_pc p' = P_Enqueue"
    using that pc msg gen by (cases "p_pc p") auto
  show "\<exists>i<10. p_ptr p' = Some i" if "p_pc p' \<in> {C_SignalAccess, C_SignalFree, C_Check}"
    using that pc ptr ok dequeue_ptr [OF wf msgs] by (cases "p_pc p") (auto simp: proc_ok_def)
  have "prints p sh \<inter> {Queue_full, Queue_empty, Invalid_hash} = {}"
  proof (cases "p_pc p = C_Check")
    case True
    with ok obtain i where "p_ptr p = Some i" "i < 10" by (auto simp: proc_ok_def)
    with True buf [of "q_buffer (sh_queue sh) ! i"] wf show ?thesis
      by (simp add: queue_wf_def good_msg_def)
  next
    case False
    with room msgs show ?thesis by (cases "p_pc p") auto
  qed
  with ok show "set (p_out p') \<inter> {Queue_full, Queue_empty, Invalid_hash} = {}"
    unfolding proc_step_out [OF step] by (auto simp: proc_ok_def)
qed

text \<open>How the balances of one move add up.\<close>

lemma token_balance:
  assumes "s' + a = s + b" "c' + b = c + a" "T' + c = T + c'" "(s :: nat) + T = n"
  shows "s' + T' = n"
  using assms by linarith

lemma slot_balance:
  assumes "s' + a = s + b" "h' + e = h + a" "p' + b = p + d" "F' + e = F + d"
    "T' + h = T + h'" "U' + p = U + p'" "(s :: nat) + T + U = F"
  shows "s' + T' + U' = F'"
  using assms by linarith

lemma proc_step_inv:
  assumes inv: "sys_inv s" and i: "i < length (s_procs s)"
    and step: "proc_step rand (s_procs s ! i) (s_shared s) = Some (p, sh)"
  shows "sys_inv (s\<lparr>s_procs := (s_procs s)[i := p], s_shared := sh\<rparr>)"
proof -
  let ?old = "s_procs s ! i" and ?q = "sh_queue (s_shared s)"
  note I = sys_invD [OF inv]
  have room: "p_pc ?old = P_Enqueue \<Longrightarrow> 0 < q_free_space ?q"
    by (rule enqueue_finds_room [OF inv i])
  have msgs: "p_pc ?old = C_Dequeue \<Longrightarrow> 0 < q_count ?q"
    by (rule dequeue_finds_message [OF inv i])
  note sems = sems_balance [OF proc_step_sems [OF step]]
    and weights = weights_balance [OF proc_step_pc [OF step]]
    and queue = queue_balance [OF step I(1) room msgs] and tallies = tally_moves [OF i, of p]
  have "queue_wf (sh_queue sh)"
    using I(1) proc_step_queue [OF step] by (simp add: inv_intros)
  moreover have "proc_ok p"
    by (rule proc_step_ok [OF step I(5) [OF i] I(1,6) room msgs])
  moreover have "\<forall>m \<in> set (q_buffer (sh_queue sh)). good_msg m"
    using I(5) [OF i] I(6) proc_step_queue [OF step]
    by (auto simp: enqueue_def proc_ok_def dest!: set_update_subset_insert [THEN subsetD] split: if_splits)
  moreover have "proc_ok x" if "x \<in> set ((s_procs s)[i := p])" for x
    by (rule ball_update [OF that \<open>proc_ok p\<close> I(5)])
  moreover have "sh_sems sh QUEUE_ACCESS_SEM + tally in_crit ((s_procs s)[i := p]) = 1"
    by (rule token_balance [OF sems(1) weights(1) tallies(1) I(2)])
  moreover have "sh_sems sh FREE_SPACE_SEM + tally free_held ((s_procs s)[i := p])
        + tally free_pending ((s_procs s)[i := p]) = nat (q_free_space (sh_queue sh))"
    by (rule slot_balance [OF sems(2) weights(2,5) queue(1) tallies(2,5) I(3)])
  moreover have "sh_sems sh EL_COUNT_SEM + tally el_held ((s_procs s)[i := p])
        + tally el_pending ((s_procs s)[i := p]) = nat (q_count (sh_queue sh))"
    by (rule slot_balance [OF sems(3) weights(4,3) queue(2) tallies(4,3) I(4)])
  ultimately show ?thesis by (simp add: sys_inv_def Let_def)
qed

lemma weights_new: "c \<in> {P_Start, C_Start} \<Longrightarrow>
    in_crit (new_process c m r) = 0 \<and> free_held (new_process c m r) = 0
    \<and> el_pending (new_process c m r) = 0 \<and> el_held (new_process c m r) = 0
    \<and> free_pending (new_process c m r) = 0"
  by (auto simp: weights new_process_def)

lemma sigusr1_pc: "p_pc (sigusr1 p) = (if p_pc p = P_Start \<or> p_pc p = C_Start then Exited else p_pc p)"
  by (simp add: sigusr1_def goto_def)

lemma sigusr1_weights:
  "in_crit (sigusr1 p) = in_crit p" "free_held (sigusr1 p) = free_held p"
  "el_pending (sigusr1 p) = el_pending p" "el_held (sigusr1 p) = el_held p"
  "free_pending (sigusr1 p) = free_pending p"
  unfolding weights sigusr1_pc by (cases "p_pc p"; simp)+

lemma sys_step_inv: "sys_step rand s t \<Longrightarrow> sys_inv s \<Longrightarrow> sys_inv t"
proof (induction rule: sys_step.induct)
  case (run i s p sh)
  then show ?case by (intro proc_step_inv)
next
  case (fork c junk s r)
  then have "proc_ok (new_process c junk r)" by (auto simp: new_process_def proc_ok_def)
  with fork weights_new [OF fork(1), of junk r] show ?case by (simp add: sys_inv_def Let_def)
next
  case (signal i s)
  let ?p = "sigusr1 (s_procs s ! i)"
  have "proc_ok x" if "x \<in> set ((s_procs s)[i := ?p])" for x
  proof (rule ball_update [where P = proc_ok, OF that])
    show "proc_ok ?p" using sys_invD(5) [OF signal(2,1)] by (simp add: proc_ok_def sigusr1_def goto_def)
  qed (rule sys_invD(5) [OF signal(2)])
  moreover have "tally w ((s_procs s)[i := ?p]) = tally w (s_procs s)" if "w ?p = w (s_procs s ! i)" for w
    using tally_update [OF signal(1), of w ?p] that by simp
  note same = this
  have "tally in_crit ((s_procs s)[i := ?p]) = tally in_crit (s_procs s)"
    "tally free_held ((s_procs s)[i := ?p]) = tally free_held (s_procs s)"
    "tally el_pending ((s_procs s)[i := ?p]) = tally el_pending (s_procs s)"
    "tally el_held ((s_procs s)[i := ?p]) = tally el_held (s_procs s)"
    "tally free_pending ((s_procs s)[i := ?p]) = tally free_pending (s_procs s)"
    by (rule same, rule sigusr1_weights)+
  ultimately show ?case
    using signal(2) by (simp add: sys_inv_def Let_def)
qed

interpretation lab4: invariant_system initial "sys_step rand" sys_inv for rand
  by unfold_locales (blast intro: initial_inv sys_step_inv)+

lemmas reachable_inv = lab4.inv_reachable

text \<open>Driving the system along a schedule, for concrete runs: the process with this index moves.\<close>

definition run_proc :: "'r rng \<Rightarrow> nat \<Rightarrow> 'r system \<Rightarrow> 'r system option" where
  "run_proc rand i s =
     (if i < length (s_procs s)
      then map_option (\<lambda>(p, sh). s\<lparr>s_procs := (s_procs s)[i := p], s_shared := sh\<rparr>)
             (proc_step rand (s_procs s ! i) (s_shared s))
      else None)"

interpretation schedules: executable_steps "sys_step rand" "run_proc rand" for rand
  by unfold_locales (auto simp: run_proc_def intro: sys_step.run split: if_splits)

subsection \<open>Safety\<close>

text \<open>
  C6. Mutual exclusion. However the producers and consumers are interleaved, created and asked
  to stop, two processes are never between \<open>wait_semaphore(QUEUE_ACCESS_SEM)\<close> and the matching
  \<open>signal_semaphore\<close> at once, provided no blocked \<open>semop\<close> is interrupted.
\<close>

theorem lab4_mutual_exclusion:
  assumes "initial s0" "steps (sys_step rand) s0 s"
    and "i < length (s_procs s)" "in_crit (s_procs s ! i) = 1"
    and "j < length (s_procs s)" "in_crit (s_procs s ! j) = 1"
  shows "i = j"
proof (rule ccontr)
  assume "i \<noteq> j"
  with tally_ge_two [OF assms(3,5), of in_crit] assms(4,6)
  have "2 \<le> tally in_crit (s_procs s)" by simp
  with sys_invD(2) [OF reachable_inv [OF assms(1,2)]] show False by linarith
qed


subsection \<open>Progress\<close>

lemma proc_step_None:
  "proc_step rand p sh = None \<longleftrightarrow>
     p_pc p = Exited \<or> (\<exists>sem c. after_wait (p_pc p) = Some (sem, c) \<and> sh_sems sh sem = 0)"
  by (cases "p_pc p"; simp add: proc_step_simps after_wait_def split: option.splits)

lemma tally_zero_iff: "tally w ps = 0 \<longleftrightarrow> (\<forall>p \<in> set ps. w p = 0)"
  by (simp add: tally_def)

lemma blocked_pcs:
  assumes "proc_step rand p sh = None" "p_pc p \<noteq> Exited" "0 < sh_sems sh QUEUE_ACCESS_SEM"
  shows "p_pc p = P_WaitFree \<and> sh_sems sh FREE_SPACE_SEM = 0
    \<or> p_pc p = C_WaitEl \<and> sh_sems sh EL_COUNT_SEM = 0"
  using assms by (cases "p_pc p") (auto simp: proc_step_None after_wait_def)

lemma in_crit_cases: "in_crit p = 0 \<or> in_crit p = 1"
  by (simp add: in_crit_def)

lemma crit_moves: "in_crit p = 1 \<Longrightarrow> proc_step rand p sh \<noteq> None"
  by (cases "p_pc p") (auto simp: proc_step_None after_wait_def in_crit_def)

text \<open>
  C21. No deadlock. As long as a producer and a consumer are running (neither has exited), some
  process can move.
\<close>

theorem lab4_progress:
  assumes "initial s0" "steps (sys_step rand) s0 s"
    and prod: "i < length (s_procs s)" "is_producer (p_pc (s_procs s ! i))"
    and cons: "j < length (s_procs s)" "\<not> is_producer (p_pc (s_procs s ! j))" "p_pc (s_procs s ! j) \<noteq> Exited"
  shows "\<exists>k < length (s_procs s). proc_step rand (s_procs s ! k) (s_shared s) \<noteq> None"
proof (rule ccontr)
  assume "\<not> ?thesis"
  then have stuck: "\<And>p. p \<in> set (s_procs s) \<Longrightarrow> proc_step rand p (s_shared s) = None"
    by (metis in_set_conv_nth)
  note I = sys_invD [OF reachable_inv [OF assms(1,2)]]
  let ?sems = "sh_sems (s_shared s)"
  have "\<forall>p \<in> set (s_procs s). in_crit p = 0"
    using stuck crit_moves in_crit_cases by blast
  then have "tally in_crit (s_procs s) = 0" by (simp add: tally_zero_iff)
  with I(2) have access: "0 < ?sems QUEUE_ACCESS_SEM" by simp
  have blocked: "p_pc p = Exited \<or> p_pc p = P_WaitFree \<and> ?sems FREE_SPACE_SEM = 0
      \<or> p_pc p = C_WaitEl \<and> ?sems EL_COUNT_SEM = 0" if "p \<in> set (s_procs s)" for p
    using blocked_pcs [OF stuck [OF that] _ access] by blast
  have "tally free_held (s_procs s) = 0" "tally free_pending (s_procs s) = 0"
    "tally el_held (s_procs s) = 0" "tally el_pending (s_procs s) = 0"
    by (auto simp: tally_zero_iff weights dest!: blocked)
  moreover have "?sems FREE_SPACE_SEM = 0" "?sems EL_COUNT_SEM = 0"
    using blocked [OF nth_mem [OF prod(1)]] blocked [OF nth_mem [OF cons(1)]] prod(2) cons(2,3)
    by (auto simp: is_producer_def)
  ultimately show False using I(1,3,4) by (auto simp: queue_wf_def)
qed

subsection \<open>What an interrupted wait does\<close>

text \<open>The initial state over \<open>fresh_queue\<close>, and a forked child of it.\<close>

definition start_sems :: semaphores where
  "start_sems = ((\<lambda>_. 0)(EL_COUNT_SEM := 0))(FREE_SPACE_SEM := 10, QUEUE_ACCESS_SEM := 1)"

definition start :: "'r system" where
  "start = \<lparr>s_procs = [], s_shared = \<lparr>sh_sems = start_sems, sh_queue = fresh_queue\<rparr>\<rparr>"

lemma start_initial: "initial start"
proof -
  have "init_semaphores 3 = Inr (3, start_sems)"
    by (simp add: init_semaphores_def start_sems_def)
  then show ?thesis using fresh_queue_init by (auto simp: initial_def start_def)
qed

definition with_children :: "'r \<Rightarrow> pc list \<Rightarrow> 'r system" where
  "with_children r cs = start\<lparr>s_procs := map (\<lambda>c. new_process c zero_message r) cs\<rparr>"

lemma with_children_reachable:
  "set cs \<subseteq> {P_Start, C_Start} \<Longrightarrow> steps (sys_step rand) start (with_children r cs)"
proof (induction cs rule: rev_induct)
  case Nil
  then show ?case by (simp add: with_children_def start_def steps_refl)
next
  case (snoc c cs)
  have "msg_wf zero_message" by (simp add: msg_wf_def zero_message_def)
  then have "sys_step rand (with_children r cs) (with_children r (cs @ [c]))"
    using snoc.prems sys_step.fork [of c zero_message rand "with_children r cs" r]
    by (simp add: with_children_def)
  with snoc show ?case by (auto intro: steps_snoc)
qed

lemmas run_eval = run_proc_def with_children_def start_def start_sems_def new_process_def proc_step_simps

lemma intr_after_schedule:
  assumes "set cs \<subseteq> {P_Start, C_Start}" "run_all (run_proc rand) is (with_children r cs) = Some s"
    and "intr_step rand s t" "run_all (run_proc rand) js t = Some u"
  shows "steps (intr_step rand) start u"
proof -
  have lift: "steps (sys_step rand) a b \<Longrightarrow> steps (intr_step rand) a b" for a b
    by (erule steps_mono) (rule intr_step.normal)
  from steps_trans [OF schedules.run_all_steps [OF assms(2)] with_children_reachable [OF assms(1)]]
  have "steps (intr_step rand) start s" by (rule lift)
  then have "steps (intr_step rand) start t" using assms(3) by (rule steps_snoc)
  with lift [OF schedules.run_all_steps [OF assms(4)]] show ?thesis by (rule steps_trans)
qed

text \<open>
  C31. A signal breaks mutual exclusion: a producer that waits for \<open>QUEUE_ACCESS_SEM\<close> when
  \<open>kill_process\<close> sends it SIGUSR1 goes on into the critical section although another producer
  is inside.
\<close>

theorem lab4_signal_breaks_mutual_exclusion:
  "\<exists>s0 s. initial s0 \<and> steps (intr_step rand) s0 s
     \<and> in_crit (s_procs s ! 0) = 1 \<and> in_crit (s_procs s ! 1) = 1 \<and> length (s_procs s) = 2"
proof -
  let ?cs = "[P_Start, P_Start]"
  have "case run_all (run_proc rand) [0, 1, 0, 1, 0, 1, 0] (with_children undefined ?cs) of None \<Rightarrow> False
      | Some s \<Rightarrow> map p_pc (s_procs s) = [P_Generate, P_WaitAccess] \<and> sh_sems (s_shared s) QUEUE_ACCESS_SEM = 0"
    by (simp add: run_eval)
  then obtain s where s: "run_all (run_proc rand) [0, 1, 0, 1, 0, 1, 0] (with_children undefined ?cs) = Some s"
    and pcs: "map p_pc (s_procs s) = [P_Generate, P_WaitAccess]"
    and sems: "sh_sems (s_shared s) QUEUE_ACCESS_SEM = 0"
    by (auto split: option.splits)
  let ?t = "s\<lparr>s_procs := (s_procs s)[1 := goto P_Generate ((s_procs s ! 1)\<lparr>p_flag := True\<rparr>)]\<rparr>"
  from pcs obtain a b where ps: "s_procs s = [a, b]" "p_pc a = P_Generate" "p_pc b = P_WaitAccess"
    by auto
  with sems have step: "intr_step rand s ?t" by (intro intr_step.eintr) (auto simp: after_wait_def)
  have "set ?cs \<subseteq> {P_Start, C_Start}" by simp
  from intr_after_schedule [OF this s step, where js = "[]"] have "steps (intr_step rand) start ?t" by simp
  moreover have "in_crit (s_procs ?t ! 0) = 1" "in_crit (s_procs ?t ! 1) = 1" "length (s_procs ?t) = 2"
    by (simp_all add: ps in_crit_def goto_def)
  ultimately show ?thesis using start_initial by blast
qed

text \<open>
  A signal also breaks the accounting: a consumer that waits on the empty queue when it is
  asked to stop finds no message, yet signals \<open>FREE_SPACE_SEM\<close>, which then promises eleven free
  slots of a queue of ten.
\<close>

theorem lab4_signal_overcounts_free_space:
  "\<exists>s0 s. initial s0 \<and> steps (intr_step rand) s0 s
     \<and> sh_sems (s_shared s) FREE_SPACE_SEM = 11 \<and> q_free_space (sh_queue (s_shared s)) = 10
     \<and> Queue_empty \<in> set (p_out (s_procs s ! 0))"
proof -
  define s :: "'a system" where "s = (with_children undefined [C_Start])
    \<lparr>s_procs := [goto C_WaitEl (new_process C_Start zero_message undefined)]\<rparr>"
  have s: "run_all (run_proc rand) [0, 0] (with_children undefined [C_Start]) = Some s"
    by (simp add: s_def run_eval)
  let ?t = "s\<lparr>s_procs := (s_procs s)[0 := goto C_WaitAccess ((s_procs s ! 0)\<lparr>p_flag := True\<rparr>)]\<rparr>"
  have step: "intr_step rand s ?t"
    by (intro intr_step.eintr)
      (auto simp: s_def after_wait_def goto_def with_children_def start_def start_sems_def)
  have "case run_all (run_proc rand) [0, 0, 0, 0] ?t of None \<Rightarrow> False
      | Some u \<Rightarrow> sh_sems (s_shared u) FREE_SPACE_SEM = 11 \<and> q_free_space (sh_queue (s_shared u)) = 10
          \<and> Queue_empty \<in> set (p_out (s_procs u ! 0))"
    by (simp add: s_def run_eval dequeue_def fresh_queue_def)
  then obtain u where u: "run_all (run_proc rand) [0, 0, 0, 0] ?t = Some u"
    and bad: "sh_sems (s_shared u) FREE_SPACE_SEM = 11" "q_free_space (sh_queue (s_shared u)) = 10"
      "Queue_empty \<in> set (p_out (s_procs u ! 0))"
    by (auto split: option.splits)
  have "steps (intr_step rand) start u"
    by (rule intr_after_schedule [OF _ s step u]) simp
  with bad start_initial show ?thesis by blast
qed

subsection \<open>Witnesses\<close>

theorem lab4_mutual_exclusion_witness:
  "\<exists>s. steps (sys_step (\<lambda>r. (r, r + 1 :: nat))) start s \<and> length (s_procs s) = 1
     \<and> in_crit (s_procs s ! 0) = 1"
proof -
  let ?rand = "\<lambda>r. (r, r + 1 :: nat)"
  have "case run_all (run_proc ?rand) [0, 0, 0, 0] (with_children 0 [P_Start]) of None \<Rightarrow> False
      | Some s \<Rightarrow> length (s_procs s) = 1 \<and> in_crit (s_procs s ! 0) = 1"
    by (simp add: run_eval in_crit_def)
  then obtain s where s: "run_all (run_proc ?rand) [0, 0, 0, 0] (with_children 0 [P_Start]) = Some s"
    and crit: "length (s_procs s) = 1" "in_crit (s_procs s ! 0) = 1"
    by (auto split: option.splits)
  have "steps (sys_step ?rand) start s"
    by (rule steps_trans [OF schedules.run_all_steps [OF s] with_children_reachable]) simp
  moreover from lab4_mutual_exclusion [OF start_initial this, of 0 0] crit have "(0::nat) = 0" by simp
  ultimately show ?thesis using crit by blast
qed


theorem lab4_progress_witness:
  "\<exists>k < 2. proc_step (\<lambda>r. (r, r + 1)) (s_procs (with_children (0::nat) [P_Start, C_Start]) ! k)
     (s_shared (with_children (0::nat) [P_Start, C_Start])) \<noteq> None"
proof -
  let ?s = "with_children (0::nat) [P_Start, C_Start]"
  have "steps (sys_step (\<lambda>r. (r, r + 1))) start ?s" by (rule with_children_reachable) simp
  from lab4_progress [OF start_initial this, of 0 1] show ?thesis
    by (simp add: with_children_def new_process_def is_producer_def numeral_2_eq_2)
qed

end
