(* ===== verification/Lab4_Manager.thy ===== *)
theory Lab4_Manager
  imports C_String Lab4_System
begin

section \<open>lab4: the manager's process table and commands (lab4/src/main.c)\<close>

text \<open>
  The parent process: the parallel arrays \<open>processes\<close> and \<open>processes_types\<close> with their
  count, the commands typed on standard input, and the shutdown. Results of system calls
  (\<open>fork\<close>) are arguments; the signals sent and the children reaped are events.
\<close>

abbreviation (input) MAX_COMMAND_LEN :: nat where
  "MAX_COMMAND_LEN \<equiv> 16"

abbreviation (input) MAX_PROCESSES_COUNT :: int where
  "MAX_PROCESSES_COUNT \<equiv> 100"

datatype process_type = CONSUMER_PROCESS | PRODUCER_PROCESS

datatype sig = SIGUSR1 | SIGTERM

datatype event = Kill int sig | Reap int | Reap_all

record manager =
  processes :: "int list"
  processes_types :: "process_type list"
  processes_count :: int
  events :: "event list"

definition manager_start :: manager where
  "manager_start = \<lparr>processes = replicate 100 0, processes_types = replicate 100 CONSUMER_PROCESS,
     processes_count = 0, events = []\<rparr>"

definition emit :: "event \<Rightarrow> manager \<Rightarrow> manager" where
  "emit e m = m\<lparr>events := events m @ [e]\<rparr>"

text \<open>
  \<open>fork_result\<close> is what \<open>fork\<close> returns in the parent: the child's pid, or a negative number,
  which ends the program. (Where it returns 0 the child runs \<open>producer_process\<close> or
  \<open>consumer_process\<close> of \<open>Lab4_System\<close>.)
\<close>

definition create_process :: "char \<Rightarrow> int \<Rightarrow> manager \<Rightarrow> exit_code + manager" where
  "create_process process_type fork_result m =
     (if processes_count m = MAX_PROCESSES_COUNT then Inr m
      else let pid = fork_result in
        if pid > 0 then
          Inr (m\<lparr>processes := (processes m)[nat (processes_count m) := pid],
                 processes_types := (processes_types m)[nat (processes_count m) :=
                   (if process_type = CHR ''+'' then CONSUMER_PROCESS else PRODUCER_PROCESS)],
                 processes_count := processes_count m + 1\<rparr>)
        else Inl EXIT_FAILURE)"

text \<open>The loop of \<open>kill_process\<close> runs over both arrays at once.\<close>

definition kill_process :: "int \<Rightarrow> manager \<Rightarrow> manager" where
  "kill_process index m =
     (if index < 0 \<or> index \<ge> processes_count m \<or> processes m ! nat index = 0 then m
      else let pid = processes m ! nat index;
               m = emit (Reap pid) (emit (Kill pid SIGUSR1) m);
               n = nat (processes_count m - 1)
           in m\<lparr>processes := shift_left (nat index) n (processes m),
                processes_types := shift_left (nat index) n (processes_types m),
                processes_count := processes_count m - 1\<rparr>)"

text \<open>The lines \<open>print_processes\<close> prints: index, type and pid.\<close>

definition print_processes :: "manager \<Rightarrow> (nat \<times> process_type \<times> int) list" where
  "print_processes m =
     map (\<lambda>i. (i, processes_types m ! i, processes m ! i)) [0..<nat (processes_count m)]"

text \<open>
  What the parent owns outside its own memory. \<open>queue\<close> is not NULL once \<open>main\<close> has set it.
\<close>

record resources =
  res_queue_attached :: bool
  res_shm :: shm_segment
  res_sem_removed :: bool

fun sigterm_all :: "nat \<Rightarrow> nat \<Rightarrow> manager \<Rightarrow> manager" where
  "sigterm_all i 0 m = m"
| "sigterm_all i (Suc n) m =
     (let pid = processes m ! i;
          m = (if pid \<noteq> 0 then emit (Kill pid SIGTERM) m else m)
      in sigterm_all (Suc i) n m)"

definition cleanup_and_exit :: "manager \<Rightarrow> resources \<Rightarrow> manager \<times> resources \<times> exit_code" where
  "cleanup_and_exit m res =
     (let m = emit Reap_all (sigterm_all 0 (nat (processes_count m)) m);
          res = (if \<not> res_queue_attached res
                 then res\<lparr>res_shm := queue_destroy (res_shm res)\<rparr> else res);
          res = res\<lparr>res_sem_removed := True\<rparr>
      in (m, res, EXIT_SUCCESS))"

subsection \<open>Commands\<close>

text \<open>\<open>read_command\<close>: \<open>None\<close> is the exit with a failure at the end of the input.\<close>

definition read_command :: "string \<Rightarrow> (string \<times> string) option" where
  "read_command inp =
     map_option (\<lambda>(buffer, rest). (cut_newline buffer, rest)) (fgets MAX_COMMAND_LEN inp)"

datatype result =
    Continue manager "(nat \<times> process_type \<times> int) list" "int list"
  | Quit manager resources exit_code

text \<open>One round of \<open>main\<close>'s loop, from the command that was read.\<close>

definition run_command :: "string \<Rightarrow> int \<Rightarrow> message_queue \<Rightarrow> manager \<Rightarrow> resources \<Rightarrow> result" where
  "run_command command fork_result q m res =
     (if command = ''+'' \<or> command = ''*'' then
        (case create_process (hd command) fork_result m of
           Inl e \<Rightarrow> Quit m res e
         | Inr m' \<Rightarrow> Continue m' [] [])
      else if command = ''l'' then Continue m (print_processes m) []
      else if command = ''i'' then Continue m [] (print_queue_info q)
      else if length command \<ge> 2 \<and> command ! 0 = CHR ''k'' \<and> c_isdigit (command ! 1) then
        Continue (kill_process (int_of_long (fst (strtol (tl command)))) m) [] []
      else if command = ''q'' then (let (m', res', e) = cleanup_and_exit m res in Quit m' res' e)
      else Continue m [] [])"

subsection \<open>The table as a list of children\<close>

definition table_wf :: "manager \<Rightarrow> bool" where
  "table_wf m \<longleftrightarrow> length (processes m) = 100 \<and> length (processes_types m) = 100
     \<and> 0 \<le> processes_count m \<and> processes_count m \<le> 100
     \<and> (\<forall>pid \<in> set (take (nat (processes_count m)) (processes m)). 0 < pid)"

definition children :: "manager \<Rightarrow> (int \<times> process_type) list" where
  "children m = zip (take (nat (processes_count m)) (processes m))
                    (take (nat (processes_count m)) (processes_types m))"

lemma manager_start_wf: "table_wf manager_start" "children manager_start = []"
  by (simp_all add: manager_start_def table_wf_def children_def)

lemma emit_simps [simp]:
  "processes (emit e m) = processes m" "processes_types (emit e m) = processes_types m"
  "processes_count (emit e m) = processes_count m" "events (emit e m) = events m @ [e]"
  by (simp_all add: emit_def)

lemma length_children: "table_wf m \<Longrightarrow> length (children m) = nat (processes_count m)"
  by (auto simp: table_wf_def children_def min_def)

lemma create_process_table:
  assumes "table_wf m" "create_process c pid m = Inr m'"
  shows "table_wf m' \<and> children m' =
    (if length (children m) = 100 then children m
     else children m @ [(pid, if c = CHR ''+'' then CONSUMER_PROCESS else PRODUCER_PROCESS)])"
proof (cases "processes_count m = 100")
  case True
  then show ?thesis using assms length_children [OF assms(1)] by (simp add: create_process_def)
next
  case False
  let ?n = "nat (processes_count m)"
  from assms False have n: "?n < 100" "length (processes m) = 100" "length (processes_types m) = 100"
    and pid: "0 < pid" and c: "nat (processes_count m + 1) = Suc ?n" "0 \<le> processes_count m"
    by (auto simp: table_wf_def create_process_def Let_def split: if_splits)
  have snoc: "take (Suc ?n) (xs[?n := x]) = take ?n xs @ [x]" if "length xs = 100" for xs :: "'b list" and x
    using that n by (simp add: take_Suc_conv_app_nth)
  show ?thesis
    using assms False n pid c length_children [OF assms(1)]
    by (auto simp: table_wf_def children_def create_process_def Let_def snoc)
qed

lemma kill_process_table:
  assumes wf: "table_wf m" and i: "0 \<le> i" "i < processes_count m"
  shows "table_wf (kill_process i m)
    \<and> children (kill_process i m) = take (nat i) (children m) @ drop (Suc (nat i)) (children m)
    \<and> events (kill_process i m) = events m @ [Kill (fst (children m ! nat i)) SIGUSR1, Reap (fst (children m ! nat i))]"
proof -
  let ?n = "nat (processes_count m - 1)" and ?k = "nat i" and ?N = "nat (processes_count m)"
  from wf i have k: "?k \<le> ?n" "?n < 100" "?N = Suc ?n" "?k < ?N"
    and len: "length (processes m) = 100" "length (processes_types m) = 100"
    and pids: "\<forall>pid \<in> set (take ?N (processes m)). 0 < pid"
    by (auto simp: table_wf_def)
  have "processes m ! ?k \<in> set (take ?N (processes m))"
    using k len by (auto simp: in_set_conv_nth intro!: exI [of _ ?k])
  with pids have pid: "0 < processes m ! ?k" by blast
  have gap: "take ?n (shift_left ?k ?n xs) = take ?k xs @ drop (Suc ?k) (take ?N xs)"
    if "length xs = 100" for xs :: "'b list"
    using take_shift_left [of ?k ?n xs] k that by simp
  have "fst (children m ! ?k) = processes m ! ?k"
    using k len by (simp add: children_def)
  then show ?thesis
    using i pid k len pids set_take_subset_set_take [of ?k ?N "processes m"]
    by (auto simp: kill_process_def table_wf_def children_def Let_def gap zip_append take_zip drop_zip
        min_def dest: in_set_dropD)
qed

lemma kill_process_invalid: "i < 0 \<or> processes_count m \<le> i \<Longrightarrow> kill_process i m = m"
  by (auto simp: kill_process_def)

subsection \<open>Refinement of a list of children\<close>

datatype table_op = Create char int | Kill_index int

fun run_table :: "table_op list \<Rightarrow> manager \<Rightarrow> exit_code + manager" where
  "run_table [] m = Inr m"
| "run_table (Create c pid # ops) m =
     (case create_process c pid m of Inl e \<Rightarrow> Inl e | Inr m' \<Rightarrow> run_table ops m')"
| "run_table (Kill_index i # ops) m = run_table ops (kill_process i m)"

fun spec_table :: "table_op list \<Rightarrow> (int \<times> process_type) list \<Rightarrow> (int \<times> process_type) list" where
  "spec_table [] cs = cs"
| "spec_table (Create c pid # ops) cs =
     spec_table ops (if length cs = 100 then cs
       else cs @ [(pid, if c = CHR ''+'' then CONSUMER_PROCESS else PRODUCER_PROCESS)])"
| "spec_table (Kill_index i # ops) cs =
     spec_table ops (if 0 \<le> i \<and> nat i < length cs then take (nat i) cs @ drop (Suc (nat i)) cs else cs)"

lemma run_table_refines:
  "table_wf m \<Longrightarrow> run_table ops m = Inr m' \<Longrightarrow>
     table_wf m' \<and> children m' = spec_table ops (children m)"
proof (induction ops m rule: run_table.induct)
  case (1 m)
  then show ?case by simp
next
  case (2 c pid ops m)
  then obtain m1 where "create_process c pid m = Inr m1" "run_table ops m1 = Inr m'"
    by (auto split: sum.splits)
  with 2 create_process_table [OF "2.prems"(1) this(1)] show ?case by auto
next
  case (3 i ops m)
  show ?case
  proof (cases "0 \<le> i \<and> i < processes_count m")
    case True
    with 3 kill_process_table [OF "3.prems"(1), of i] length_children [OF "3.prems"(1)]
    show ?thesis by auto
  next
    case False
    then have "kill_process i m = m" by (intro kill_process_invalid) auto
    with 3 False length_children [OF "3.prems"(1)] show ?thesis by auto
  qed
qed

text \<open>
  C25. Refinement. From the empty table, any sequence of creations and kills leaves in the two
  arrays exactly the list of children that are still running, in creation order, each with its
  type: a creation appends (or is refused at 100 children), a kill removes the child of that
  index and no other, an invalid index changes nothing. The arrays are never left.
\<close>

theorem process_table_refines:
  assumes "run_table ops manager_start = Inr m"
  shows "table_wf m \<and> children m = spec_table ops []"
  using run_table_refines [OF manager_start_wf(1) assms] manager_start_wf(2) by simp

theorem process_table_refines_witness:
  "\<exists>m. run_table [Create CHR ''+'' 11, Create CHR ''*'' 12, Create CHR ''+'' 13, Kill_index 0, Kill_index 7] manager_start = Inr m
     \<and> children m = [(12, PRODUCER_PROCESS), (13, CONSUMER_PROCESS)]"
proof -
  let ?ops = "[Create CHR ''+'' 11, Create CHR ''*'' 12, Create CHR ''+'' 13, Kill_index 0, Kill_index 7]"
  obtain m where m: "run_table ?ops manager_start = Inr m"
    by (auto simp: create_process_def manager_start_def)
  from process_table_refines [OF m] m show ?thesis by simp
qed

subsection \<open>Shutdown\<close>

lemma sigterm_all_events:
  assumes "\<forall>k < n. processes m ! (i + k) \<noteq> 0"
  shows "sigterm_all i n m =
    m\<lparr>events := events m @ map (\<lambda>k. Kill (processes m ! (i + k)) SIGTERM) [0..<n]\<rparr>"
  using assms
proof (induction n arbitrary: i m)
  case 0
  then show ?case by simp
next
  case (Suc n)
  let ?m = "emit (Kill (processes m ! i) SIGTERM) m"
  have pid: "processes m ! i \<noteq> 0" using Suc.prems by force
  have "processes ?m ! (Suc i + k) \<noteq> 0" if "k < n" for k
    using Suc.prems [rule_format, of "Suc k"] that by simp
  then have "sigterm_all (Suc i) n ?m = ?m\<lparr>events := events ?m
      @ map (\<lambda>k. Kill (processes ?m ! (Suc i + k)) SIGTERM) [0..<n]\<rparr>"
    by (intro Suc.IH) blast
  with pid show ?case
    by (simp add: emit_def upt_conv_Cons map_Suc_upt [symmetric] del: upt_Suc)
qed

text \<open>
  Shutdown sends SIGTERM to every child of the table, in order, and then reaps them all;
  it removes the semaphores but never detaches or removes the shared-memory segment, because
  the test of \<open>queue\<close> before \<open>queue_destroy\<close> is inverted.
\<close>

theorem cleanup_and_exit_effects:
  assumes "table_wf m" "res_queue_attached res" "cleanup_and_exit m res = (m', res', code)"
  shows "events m' = events m @ map (\<lambda>(pid, _). Kill pid SIGTERM) (children m) @ [Reap_all]
    \<and> res_sem_removed res' \<and> res_shm res' = res_shm res \<and> code = EXIT_SUCCESS"
proof -
  let ?n = "nat (processes_count m)"
  have len: "?n \<le> length (processes m)" "?n \<le> length (processes_types m)"
    using assms(1) by (auto simp: table_wf_def)
  have "processes m ! (0 + k) \<noteq> 0" if "k < ?n" for k
  proof -
    have "processes m ! k \<in> set (take ?n (processes m))"
      using that len by (auto simp: in_set_conv_nth intro!: exI [of _ k])
    with assms(1) show ?thesis by (auto simp: table_wf_def)
  qed
  then have "sigterm_all 0 ?n m =
      m\<lparr>events := events m @ map (\<lambda>k. Kill (processes m ! (0 + k)) SIGTERM) [0..<?n]\<rparr>"
    by (intro sigterm_all_events) blast
  moreover have "map (\<lambda>k. Kill (processes m ! k) SIGTERM) [0..<?n]
      = map (\<lambda>(pid, _). Kill pid SIGTERM) (children m)"
    using len by (intro nth_equalityI) (simp_all add: children_def)
  ultimately show ?thesis
    using assms(2,3) by (auto simp: cleanup_and_exit_def Let_def emit_def)
qed

theorem cleanup_and_exit_effects_witness:
  "\<not> shm_removed (res_shm (fst (snd (cleanup_and_exit manager_start
      \<lparr>res_queue_attached = True, res_shm = \<lparr>shm_attached = True, shm_removed = False\<rparr>, res_sem_removed = False\<rparr>))))"
  using cleanup_and_exit_effects [OF manager_start_wf(1),
      of "\<lparr>res_queue_attached = True, res_shm = \<lparr>shm_attached = True, shm_removed = False\<rparr>, res_sem_removed = False\<rparr>"]
  by (simp add: prod_eq_iff)

end
