(* ===== verification/Lab4_World.thy ===== *)
theory Lab4_World
  imports Lab4_Manager
begin

section \<open>lab4: the manager together with its children (lab4/src/main.c)\<close>

text \<open>
  \<open>Lab4_System\<close> models the producers and consumers, \<open>Lab4_Manager\<close> the process table and the
  commands of the parent. Here the two are composed: the commands fork children, signal them
  and wait for them, while the children run. The kernel's part is \<open>w_child\<close>, which process a
  pid stands for until it is reaped. \<open>kill_process\<close> is split at \<open>waitpid\<close>, where the manager
  blocks until the child has exited, and \<open>cleanup_and_exit\<close> at its loop of \<open>wait\<close>.
\<close>

datatype mpc = Main_Ready | Main_Wait int | Main_Reap | Main_Exited exit_code

record 'r world =
  w_mgr :: manager
  w_res :: resources
  w_sys :: "'r system"
  w_child :: "int \<rightharpoonup> nat"
  w_pc :: mpc

abbreviation w_procs :: "'r world \<Rightarrow> 'r process list" where
  "w_procs w \<equiv> s_procs (w_sys w)"

definition set_proc :: "nat \<Rightarrow> 'r process \<Rightarrow> 'r world \<Rightarrow> 'r world" where
  "set_proc i p w = w\<lparr>w_sys := (w_sys w)\<lparr>s_procs := (w_procs w)[i := p]\<rparr>\<rparr>"

text \<open>
  SIGUSR1 reaches a process. If it is blocked in \<open>semop\<close> the call may already have begun
  (\<open>intr\<close>): then it is interrupted and the process goes on behind the wait. Otherwise only the
  flag is set, and the call begins, and blocks, after that.
\<close>

definition deliver :: "bool \<Rightarrow> semaphores \<Rightarrow> 'r process \<Rightarrow> 'r process" where
  "deliver intr sems p =
     (case after_wait (p_pc p) of
        Some (sem, c) \<Rightarrow> if intr \<and> sems sem = 0 then goto c (p\<lparr>p_flag := True\<rparr>) else sigusr1 p
      | None \<Rightarrow> sigusr1 p)"

text \<open>The index a \<open>k\<close> command gives, when \<open>kill_process\<close> accepts it.\<close>

definition kill_target :: "string \<Rightarrow> manager \<Rightarrow> int option" where
  "kill_target command m =
     (if length command \<ge> 2 \<and> command ! 0 = CHR ''k'' \<and> c_isdigit (command ! 1)
      then (let index = int_of_long (fst (strtol (tl command))) in
        if index < 0 \<or> index \<ge> processes_count m \<or> processes m ! nat index = 0 then None else Some index)
      else None)"

definition child_pc :: "char \<Rightarrow> pc" where
  "child_pc process_type = (if process_type = CHR ''+'' then C_Start else P_Start)"

definition fork_child :: "int \<Rightarrow> char \<Rightarrow> message \<Rightarrow> 'r \<Rightarrow> 'r world \<Rightarrow> 'r world" where
  "fork_child pid process_type junk r w =
     w\<lparr>w_sys := (w_sys w)\<lparr>s_procs := w_procs w @ [new_process (child_pc process_type) junk r]\<rparr>,
       w_child := (w_child w)(pid \<mapsto> length (w_procs w))\<rparr>"

text \<open>
  \<open>child\<close>: a process moves, as long as the semaphores exist. \<open>fork\<close> and \<open>fork_fails\<close>: the commands +
  and *; no process is forked when the table is full. \<open>look\<close>: the commands that change nothing,
  which are also the unknown ones and a \<open>k\<close> with an invalid index. \<open>kill\<close>, \<open>reap\<close>: \<open>kill_process\<close>
  before and behind \<open>waitpid\<close>. \<open>quit\<close>, \<open>die\<close>, \<open>shutdown\<close>: \<open>cleanup_and_exit\<close> sends SIGTERM, the
  children die of it, and when all are reaped the rest follows. \<open>eof\<close>: the end of the input.
\<close>

inductive world_step :: "'r rng \<Rightarrow> 'r world \<Rightarrow> 'r world \<Rightarrow> bool" for rand where
  child: "\<not> res_sem_removed (w_res w) \<Longrightarrow> i < length (w_procs w) \<Longrightarrow>
     proc_step rand (w_procs w ! i) (s_shared (w_sys w)) = Some (p, sh) \<Longrightarrow>
     world_step rand w (w\<lparr>w_sys := \<lparr>s_procs = (w_procs w)[i := p], s_shared = sh\<rparr>\<rparr>)"
| fork: "w_pc w = Main_Ready \<Longrightarrow> read_command inp = Some (c, rest) \<Longrightarrow> c = ''+'' \<or> c = ''*'' \<Longrightarrow>
     0 < pid \<Longrightarrow> w_child w pid = None \<Longrightarrow> msg_wf junk \<Longrightarrow>
     run_command c pid (sh_queue (s_shared (w_sys w))) (w_mgr w) (w_res w) = Continue m l n \<Longrightarrow>
     world_step rand w
       ((if processes_count (w_mgr w) = 100 then w else fork_child pid (hd c) junk r w)\<lparr>w_mgr := m\<rparr>)"
| fork_fails: "w_pc w = Main_Ready \<Longrightarrow> read_command inp = Some (c, rest) \<Longrightarrow> c = ''+'' \<or> c = ''*'' \<Longrightarrow>
     run_command c (-1) (sh_queue (s_shared (w_sys w))) (w_mgr w) (w_res w) = Quit m res e \<Longrightarrow>
     world_step rand w (w\<lparr>w_mgr := m, w_res := res, w_pc := Main_Exited e\<rparr>)"
| look: "w_pc w = Main_Ready \<Longrightarrow> read_command inp = Some (c, rest) \<Longrightarrow> c \<noteq> ''+'' \<Longrightarrow> c \<noteq> ''*'' \<Longrightarrow>
     kill_target c (w_mgr w) = None \<Longrightarrow>
     run_command c pid (sh_queue (s_shared (w_sys w))) (w_mgr w) (w_res w) = Continue m l n \<Longrightarrow>
     world_step rand w (w\<lparr>w_mgr := m\<rparr>)"
| kill: "w_pc w = Main_Ready \<Longrightarrow> read_command inp = Some (c, rest) \<Longrightarrow>
     kill_target c (w_mgr w) = Some index \<Longrightarrow> w_child w (processes (w_mgr w) ! nat index) = Some i \<Longrightarrow>
     world_step rand w
       (set_proc i (deliver intr (sh_sems (s_shared (w_sys w))) (w_procs w ! i)) w\<lparr>w_pc := Main_Wait index\<rparr>)"
| reap: "w_pc w = Main_Wait index \<Longrightarrow> w_child w (processes (w_mgr w) ! nat index) = Some i \<Longrightarrow>
     p_pc (w_procs w ! i) = Exited \<Longrightarrow>
     world_step rand w
       (w\<lparr>w_mgr := kill_process index (w_mgr w),
          w_child := (w_child w)(processes (w_mgr w) ! nat index := None), w_pc := Main_Ready\<rparr>)"
| quit: "w_pc w = Main_Ready \<Longrightarrow> read_command inp = Some (''q'', rest) \<Longrightarrow>
     world_step rand w (w\<lparr>w_pc := Main_Reap\<rparr>)"
| die: "w_pc w = Main_Reap \<Longrightarrow> pid \<in> fst ` set (children (w_mgr w)) \<Longrightarrow> w_child w pid = Some i \<Longrightarrow>
     world_step rand w (set_proc i (goto Exited (w_procs w ! i)) w)"
| shutdown: "w_pc w = Main_Reap \<Longrightarrow> \<forall>p \<in> set (w_procs w). p_pc p = Exited \<Longrightarrow>
     run_command ''q'' pid (sh_queue (s_shared (w_sys w))) (w_mgr w) (w_res w) = Quit m res e \<Longrightarrow>
     world_step rand w (w\<lparr>w_mgr := m, w_res := res, w_child := Map.empty, w_pc := Main_Exited e\<rparr>)"
| eof: "w_pc w = Main_Ready \<Longrightarrow> read_command inp = None \<Longrightarrow>
     world_step rand w (w\<lparr>w_pc := Main_Exited EXIT_FAILURE\<rparr>)"

text \<open>The state in which \<open>main\<close> reads its first command.\<close>

definition world_start :: "'r world \<Rightarrow> bool" where
  "world_start w \<longleftrightarrow> w_mgr w = manager_start \<and> initial (w_sys w) \<and> w_child w = Map.empty
     \<and> w_pc w = Main_Ready
     \<and> w_res w = \<lparr>res_queue_attached = True, res_shm = \<lparr>shm_attached = True, shm_removed = False\<rparr>,
         res_sem_removed = False\<rparr>"

subsection \<open>What the commands do to the table\<close>

lemma table_entry: "table_wf m \<Longrightarrow> 0 \<le> i \<Longrightarrow> i < processes_count m \<Longrightarrow>
    processes m ! nat i = fst (children m ! nat i) \<and> nat i < length (children m)"
  by (auto simp: table_wf_def children_def)

lemma kill_target_index: "kill_target c m = Some i \<Longrightarrow> 0 \<le> i \<and> i < processes_count m"
  by (auto simp: kill_target_def Let_def split: if_splits)

lemma look_keeps:
  assumes "run_command c pid q m res = Continue m' l n" "c \<noteq> ''+''" "c \<noteq> ''*''" "kill_target c m = None"
  shows "m' = m"
proof -
  have "kill_process (int_of_long (fst (strtol (tl c)))) m = m"
    if "length c \<ge> 2" "c ! 0 = CHR ''k''" "c_isdigit (c ! 1)"
    using assms(4) that by (auto simp: kill_target_def kill_process_def Let_def split: if_splits)
  with assms(1-3) show ?thesis
    by (auto simp: run_command_def cleanup_and_exit_def Let_def split: if_splits)
qed

lemma fork_command:
  assumes "run_command c pid q m res = Continue m' l n" "c = ''+'' \<or> c = ''*''"
  shows "create_process (hd c) pid m = Inr m'"
  using assms by (auto simp: run_command_def split: sum.splits)

lemma fork_fails_command:
  assumes "run_command c (-1) q m res = Quit m' res' e" "c = ''+'' \<or> c = ''*''"
  shows "m' = m \<and> res' = res \<and> e = EXIT_FAILURE"
  using assms by (auto simp: run_command_def create_process_def Let_def split: sum.splits if_splits)

lemma sigterm_all_frame [simp]:
  "processes (sigterm_all i n m) = processes m" "processes_types (sigterm_all i n m) = processes_types m"
  "processes_count (sigterm_all i n m) = processes_count m"
  by (induction n arbitrary: i m) (simp_all add: Let_def)

lemma quit_command:
  assumes "run_command ''q'' pid q m res = Quit m' res' e" "res_queue_attached res"
  shows "children m' = children m \<and> (table_wf m' \<longleftrightarrow> table_wf m) \<and> e = EXIT_SUCCESS
    \<and> res_sem_removed res' \<and> res_shm res' = res_shm res \<and> res_queue_attached res'"
proof -
  have "cleanup_and_exit m res = (m', res', e)"
    using assms(1) by (simp add: run_command_def Let_def split_beta prod_eq_iff)
  with assms(2) show ?thesis
    by (auto simp: cleanup_and_exit_def Let_def children_def table_wf_def)
qed

subsection \<open>The table and the kernel agree\<close>

definition listed :: "'r world \<Rightarrow> bool" where
  "listed w \<longleftrightarrow> distinct (map fst (children (w_mgr w))) \<and> dom (w_child w) = fst ` set (children (w_mgr w))
     \<and> (\<forall>pid1 pid2 i. w_child w pid1 = Some i \<and> w_child w pid2 = Some i \<longrightarrow> pid1 = pid2) \<and> ran (w_child w) \<subseteq> {..<length (w_procs w)}"

definition accounted :: "'r world \<Rightarrow> bool" where
  "accounted w \<longleftrightarrow> (\<forall>i < length (w_procs w). i \<in> ran (w_child w) \<or> p_pc (w_procs w ! i) = Exited)"

definition world_inv :: "'r world \<Rightarrow> bool" where
  "world_inv w \<longleftrightarrow> table_wf (w_mgr w) \<and> accounted w
     \<and> (w_pc w \<noteq> Main_Exited EXIT_SUCCESS \<longrightarrow> listed w)
     \<and> (w_pc w = Main_Exited EXIT_SUCCESS \<longrightarrow> w_child w = Map.empty)
     \<and> (res_sem_removed (w_res w) \<longleftrightarrow> w_pc w = Main_Exited EXIT_SUCCESS)
     \<and> (\<forall>index. w_pc w = Main_Wait index \<longrightarrow> 0 \<le> index \<and> index < processes_count (w_mgr w))
     \<and> res_queue_attached (w_res w) \<and> \<not> shm_removed (res_shm (w_res w))"

lemma listedI:
  assumes "distinct (map fst (children (w_mgr w)))" "dom (w_child w) = fst ` set (children (w_mgr w))"
    "\<And>pid1 pid2 i. w_child w pid1 = Some i \<Longrightarrow> w_child w pid2 = Some i \<Longrightarrow> pid1 = pid2"
    "ran (w_child w) \<subseteq> {..<length (w_procs w)}"
  shows "listed w"
  unfolding listed_def using assms by blast

lemma listedD:
  assumes "listed w"
  shows "distinct (map fst (children (w_mgr w)))" "dom (w_child w) = fst ` set (children (w_mgr w))"
    "w_child w pid1 = Some i \<Longrightarrow> w_child w pid2 = Some i \<Longrightarrow> pid1 = pid2"
    "ran (w_child w) \<subseteq> {..<length (w_procs w)}"
  using assms unfolding listed_def by blast+

lemma world_start_inv: "world_start w \<Longrightarrow> world_inv w"
  using manager_start_wf by (auto simp: world_start_def world_inv_def accounted_def listed_def initial_def)

text \<open>A move of process \<open>i\<close> that does not bring it back to life.\<close>

lemma world_inv_proc:
  assumes inv: "world_inv w" and dead: "p_pc (w_procs w ! i) = Exited \<Longrightarrow> p_pc p = Exited"
  shows "world_inv (w\<lparr>w_sys := \<lparr>s_procs = (w_procs w)[i := p], s_shared = sh\<rparr>\<rparr>)"
proof -
  have "accounted (w\<lparr>w_sys := \<lparr>s_procs = (w_procs w)[i := p], s_shared = sh\<rparr>\<rparr>)"
    unfolding accounted_def
  proof (intro allI impI)
    fix j assume j: "j < length (w_procs (w\<lparr>w_sys := \<lparr>s_procs = (w_procs w)[i := p], s_shared = sh\<rparr>\<rparr>))"
    then have "j \<in> ran (w_child w) \<or> p_pc (w_procs w ! j) = Exited" using inv by (simp add: world_inv_def accounted_def)
    with dead j show "j \<in> ran (w_child (w\<lparr>w_sys := \<lparr>s_procs = (w_procs w)[i := p], s_shared = sh\<rparr>\<rparr>))
      \<or> p_pc (w_procs (w\<lparr>w_sys := \<lparr>s_procs = (w_procs w)[i := p], s_shared = sh\<rparr>\<rparr>) ! j) = Exited"
      by (cases "j = i") auto
  qed
  then show ?thesis using inv by (simp add: world_inv_def listed_def)
qed

lemma set_proc_eq: "set_proc i p w = w\<lparr>w_sys := \<lparr>s_procs = (w_procs w)[i := p], s_shared = s_shared (w_sys w)\<rparr>\<rparr>"
  by (simp add: set_proc_def)

lemma deliver_exited: "p_pc p = Exited \<Longrightarrow> deliver intr sems p = p"
  by (simp add: deliver_def after_wait_def sigusr1_def)

lemma world_inv_fork:
  assumes inv: "world_inv w" and pc: "w_pc w = Main_Ready" and pid: "0 < pid" "w_child w pid = None"
    and m: "create_process c pid (w_mgr w) = Inr m" "processes_count (w_mgr w) \<noteq> 100"
  shows "world_inv ((fork_child pid c junk r w)\<lparr>w_mgr := m\<rparr>)"
proof -
  let ?w = "(fork_child pid c junk r w)\<lparr>w_mgr := m\<rparr>"
  have wf: "table_wf (w_mgr w)" and li: "listed w" and ac: "accounted w" using inv pc by (simp_all add: world_inv_def)
  have "length (children (w_mgr w)) \<noteq> 100" using length_children [OF wf] m(2) wf by (auto simp: table_wf_def)
  with create_process_table [OF wf m(1)]
  have t: "table_wf m" "children m = children (w_mgr w) @ [(pid, if c = CHR ''+'' then CONSUMER_PROCESS else PRODUCER_PROCESS)]"
    by auto
  have new: "pid \<notin> fst ` set (children (w_mgr w))" using li pid(2) unfolding listed_def by (metis domIff)
  have fresh: "length (w_procs w) \<notin> ran (w_child w)" using li by (auto simp: listed_def)
  have inj: "a = b" if "((w_child w)(pid \<mapsto> length (w_procs w))) a = Some i"
    "((w_child w)(pid \<mapsto> length (w_procs w))) b = Some i" for a b i
  proof -
    have old: "w_child w x \<noteq> Some (length (w_procs w))" for x using fresh ranI by metis
    show ?thesis
    proof (cases "a = pid"; cases "b = pid")
      assume "a \<noteq> pid" "b \<noteq> pid"
      with that listedD(3) [OF li, of a i b] show ?thesis by simp
    qed (use that old in simp_all)
  qed
  have rn: "ran ((w_child w)(pid \<mapsto> length (w_procs w))) = insert (length (w_procs w)) (ran (w_child w))"
    using pid(2) by simp
  have "listed ?w"
  proof (rule listedI)
    show "distinct (map fst (children (w_mgr ?w)))" using listedD(1) [OF li] new by (simp add: t(2))
    show "dom (w_child ?w) = fst ` set (children (w_mgr ?w))"
      using listedD(2) [OF li] by (simp add: t(2) fork_child_def)
    show "ran (w_child ?w) \<subseteq> {..<length (w_procs ?w)}"
      using listedD(4) [OF li] rn by (auto simp: fork_child_def)
    show "a = b" if "w_child ?w a = Some i" "w_child ?w b = Some i" for a b i
      by (rule inj [where i = i]) (use that in \<open>simp_all add: fork_child_def\<close>)
  qed
  moreover have "accounted ?w"
    unfolding accounted_def
  proof (intro allI impI)
    fix i assume "i < length (w_procs ?w)"
    with ac rn show "i \<in> ran (w_child ?w) \<or> p_pc (w_procs ?w ! i) = Exited"
      by (cases "i = length (w_procs w)") (simp_all add: fork_child_def accounted_def nth_append)
  qed
  ultimately  show ?thesis using inv pc t(1) by (simp add: world_inv_def fork_child_def)
qed

lemma world_inv_reap:
  assumes inv: "world_inv w" and pc: "w_pc w = Main_Wait index"
    and child: "w_child w (processes (w_mgr w) ! nat index) = Some i" "p_pc (w_procs w ! i) = Exited"
  shows "world_inv (w\<lparr>w_mgr := kill_process index (w_mgr w),
    w_child := (w_child w)(processes (w_mgr w) ! nat index := None), w_pc := Main_Ready\<rparr>)"
proof -
  let ?pid = "processes (w_mgr w) ! nat index" and ?cs = "children (w_mgr w)" and ?k = "nat index"
  let ?w = "w\<lparr>w_mgr := kill_process index (w_mgr w), w_child := (w_child w)(?pid := None), w_pc := Main_Ready\<rparr>"
  have wf: "table_wf (w_mgr w)" and li: "listed w" and ac: "accounted w" and ix: "0 \<le> index" "index < processes_count (w_mgr w)"
    using inv pc by (simp_all add: world_inv_def)
  from kill_process_table [OF wf ix]
  have t: "table_wf (kill_process index (w_mgr w))"
    "children (kill_process index (w_mgr w)) = take ?k ?cs @ drop (Suc ?k) ?cs" by auto
  from table_entry [OF wf ix] have e: "?pid = fst (?cs ! ?k)" "?k < length ?cs" by auto
  have split: "?cs = take ?k ?cs @ ?cs ! ?k # drop (Suc ?k) ?cs" by (rule id_take_nth_drop [OF e(2)])
  have d: "distinct (map fst (take ?k ?cs @ ?cs ! ?k # drop (Suc ?k) ?cs))"
    using li split by (simp only: listed_def)
  have "fst ` set ?cs = insert ?pid (fst ` set (take ?k ?cs @ drop (Suc ?k) ?cs))"
    using arg_cong [OF split, of "\<lambda>x. fst ` set x"] e(1) by auto
  moreover have "?pid \<notin> fst ` set (take ?k ?cs @ drop (Suc ?k) ?cs)"
    using d unfolding e(1) by (auto simp: image_iff)
  ultimately have s: "fst ` set (take ?k ?cs @ drop (Suc ?k) ?cs) = fst ` set ?cs - {?pid}" by auto
  have "listed ?w"
  proof (rule listedI)
    show "distinct (map fst (children (w_mgr ?w)))" using d by (simp add: t(2))
    show "dom (w_child ?w) = fst ` set (children (w_mgr ?w))"
      using s listedD(2) [OF li] by (simp add: t(2))
    show "ran (w_child ?w) \<subseteq> {..<length (w_procs ?w)}"
      using listedD(4) [OF li] by (auto simp: ran_def split: if_splits)
    show "a = b" if "w_child ?w a = Some i" "w_child ?w b = Some i" for a b i
      using that listedD(3) [OF li, of a i b] by (simp split: if_splits)
  qed
  moreover have "accounted ?w"
    unfolding accounted_def
  proof (intro allI impI)
    fix j assume j: "j < length (w_procs ?w)"
    show "j \<in> ran (w_child ?w) \<or> p_pc (w_procs ?w ! j) = Exited"
    proof (cases "j = i")
      case True
      with child(2) show ?thesis by simp
    next
      case False
      from ac j have "j \<in> ran (w_child w) \<or> p_pc (w_procs w ! j) = Exited" by (simp add: accounted_def)
      then show ?thesis
      proof
        assume "j \<in> ran (w_child w)"
        then obtain a where a: "w_child w a = Some j" by (auto simp: ran_def)
        with False child(1) have "a \<noteq> ?pid" by auto
        with a have "w_child ?w a = Some j" by simp
        then show ?thesis by (blast intro: ranI)
      qed simp
    qed
  qed
  ultimately show ?thesis using inv pc t(1) by (simp add: world_inv_def)
qed

lemma world_step_inv:
  assumes inv: "world_inv w" and step: "world_step rand w w'"
  shows "world_inv w'"
  using step
proof cases
  case (child i p sh)
  have "p_pc (w_procs w ! i) \<noteq> Exited" using child(4) proc_step_None by (metis option.distinct(1))
  with world_inv_proc [OF inv] child(1) show ?thesis by blast
next
  case (fork inp c rest pid junk m l n r)
  note cp = fork_command [OF fork(8,4)]
  show ?thesis
  proof (cases "processes_count (w_mgr w) = 100")
    case True
    then have "m = w_mgr w" using cp by (simp add: create_process_def)
    with True inv show ?thesis by (simp add: fork(1))
  next
    case False
    with world_inv_fork [OF inv fork(2,5,6) cp] show ?thesis by (simp add: fork(1))
  qed
next
  case (fork_fails inp c rest m res e)
  with fork_fails_command [OF fork_fails(5,4)] inv show ?thesis by (simp add: world_inv_def accounted_def listed_def)
next
  case (look inp c rest pid m l n)
  with look_keeps [OF look(7,4,5,6)] inv show ?thesis by simp
next
  case (kill inp c rest index i intr)
  note ix = kill_target_index [OF kill(4)]
  have "world_inv (set_proc i (deliver intr (sh_sems (s_shared (w_sys w))) (w_procs w ! i)) w)"
    unfolding set_proc_eq by (rule world_inv_proc [OF inv]) (simp add: deliver_exited)
  with ix kill(2) show ?thesis
    by (simp add: kill(1) world_inv_def accounted_def listed_def set_proc_def)
next
  case (reap index i)
  with world_inv_reap [OF inv reap(2-4)] show ?thesis by simp
next
  case (quit inp rest)
  with inv show ?thesis by (simp add: world_inv_def accounted_def listed_def)
next
  case (die pid i)
  then show ?thesis unfolding set_proc_eq
    using world_inv_proc [OF inv, of i "goto Exited (w_procs w ! i)"] by (simp add: goto_def)
next
  case (shutdown pid m res e)
  have "res_queue_attached (w_res w)" using inv by (simp add: world_inv_def)
  note q = quit_command [OF shutdown(4) this]
  have "accounted w'" using shutdown(3) by (simp add: accounted_def shutdown(1))
  with q inv show ?thesis by (simp add: shutdown(1) world_inv_def)
next
  case (eof inp)
  with inv show ?thesis by (simp add: world_inv_def accounted_def listed_def)
qed

interpretation manager_world: invariant_system world_start "world_step rand" world_inv for rand
  by unfold_locales (blast intro: world_start_inv world_step_inv)+

text \<open>
  C13. No stray children. Whatever commands are typed and however the children run, as long as the
  manager has not shut down, the process table lists different pids, exactly those of the
  children it has not reaped, and every other process it ever forked has exited. After \<open>q\<close> every
  process has exited and the semaphores are gone; the shared-memory segment is never removed.
\<close>

theorem lab4_no_stray_children:
  assumes "world_start w0" "steps (world_step rand) w0 w"
  shows "(w_pc w \<noteq> Main_Exited EXIT_SUCCESS \<longrightarrow>
      distinct (map fst (children (w_mgr w)))
      \<and> (\<forall>i < length (w_procs w). p_pc (w_procs w ! i) = Exited
           \<or> (\<exists>(pid, kind) \<in> set (children (w_mgr w)). w_child w pid = Some i)))
    \<and> (w_pc w = Main_Exited EXIT_SUCCESS \<longrightarrow>
      (\<forall>p \<in> set (w_procs w). p_pc p = Exited) \<and> res_sem_removed (w_res w))
    \<and> \<not> shm_removed (res_shm (w_res w))"
proof -
  have inv: "world_inv w" using manager_world.inv_reachable [OF assms] .
  have "\<exists>(pid, kind) \<in> set (children (w_mgr w)). w_child w pid = Some i"
    if "listed w" "i \<in> ran (w_child w)" for i
  proof -
    from that(2) obtain pid where "w_child w pid = Some i" by (auto simp: ran_def)
    moreover from this that(1) have "pid \<in> fst ` set (children (w_mgr w))" by (auto simp: listed_def)
    ultimately show ?thesis by force
  qed
  with inv show ?thesis unfolding world_inv_def accounted_def listed_def
    by (auto simp: in_set_conv_nth)
qed

subsection \<open>Driving the manager\<close>

datatype 'r world_act = Move nat | Type string int 'r bool | Reap_child | Die int | Shut_down

definition typed_command :: "string \<Rightarrow> int \<Rightarrow> 'r \<Rightarrow> bool \<Rightarrow> 'r world \<Rightarrow> 'r world option" where
  "typed_command c pid r intr w =
     (case kill_target c (w_mgr w) of
        Some index \<Rightarrow>
          map_option (\<lambda>i. set_proc i (deliver intr (sh_sems (s_shared (w_sys w))) (w_procs w ! i)) w\<lparr>w_pc := Main_Wait index\<rparr>)
            (w_child w (processes (w_mgr w) ! nat index))
      | None \<Rightarrow>
          if c = ''q'' then Some (w\<lparr>w_pc := Main_Reap\<rparr>)
          else if (c = ''+'' \<or> c = ''*'') \<and> (pid \<le> 0 \<or> w_child w pid \<noteq> None) then None
          else (case run_command c pid (sh_queue (s_shared (w_sys w))) (w_mgr w) (w_res w) of
                  Quit m res e \<Rightarrow> None
                | Continue m l n \<Rightarrow>
                    Some ((if c \<noteq> ''+'' \<and> c \<noteq> ''*'' \<or> processes_count (w_mgr w) = 100 then w
                           else fork_child pid (hd c) zero_message r w)\<lparr>w_mgr := m\<rparr>)))"

fun world_move :: "'r rng \<Rightarrow> 'r world_act \<Rightarrow> 'r world \<Rightarrow> 'r world option" where
  "world_move rand (Move i) w =
     (if \<not> res_sem_removed (w_res w) \<and> i < length (w_procs w)
      then map_option (\<lambda>(p, sh). w\<lparr>w_sys := \<lparr>s_procs = (w_procs w)[i := p], s_shared = sh\<rparr>\<rparr>)
             (proc_step rand (w_procs w ! i) (s_shared (w_sys w)))
      else None)"
| "world_move rand (Type inp pid r intr) w =
     (if w_pc w \<noteq> Main_Ready then None
      else (case read_command inp of
              None \<Rightarrow> Some (w\<lparr>w_pc := Main_Exited EXIT_FAILURE\<rparr>)
            | Some (c, rest) \<Rightarrow> typed_command c pid r intr w))"
| "world_move rand Reap_child w =
     (case w_pc w of
        Main_Wait index \<Rightarrow>
          (case w_child w (processes (w_mgr w) ! nat index) of
             Some i \<Rightarrow>
               if p_pc (w_procs w ! i) = Exited
               then Some (w\<lparr>w_mgr := kill_process index (w_mgr w),
                     w_child := (w_child w)(processes (w_mgr w) ! nat index := None), w_pc := Main_Ready\<rparr>)
               else None
           | None \<Rightarrow> None)
      | _ \<Rightarrow> None)"
| "world_move rand (Die pid) w =
     (if w_pc w = Main_Reap \<and> pid \<in> fst ` set (children (w_mgr w))
      then map_option (\<lambda>i. set_proc i (goto Exited (w_procs w ! i)) w) (w_child w pid) else None)"
| "world_move rand Shut_down w =
     (if w_pc w = Main_Reap \<and> (\<forall>p \<in> set (w_procs w). p_pc p = Exited)
      then (case run_command ''q'' 0 (sh_queue (s_shared (w_sys w))) (w_mgr w) (w_res w) of
              Quit m res e \<Rightarrow> Some (w\<lparr>w_mgr := m, w_res := res, w_child := Map.empty, w_pc := Main_Exited e\<rparr>)
            | Continue m l n \<Rightarrow> None)
      else None)"

lemma zero_message_wf: "msg_wf zero_message"
  by (simp add: msg_wf_def zero_message_def)

lemma typed_command_sound:
  assumes pc: "w_pc w = Main_Ready" and c: "read_command inp = Some (c, rest)"
    and t: "typed_command c pid r intr w = Some w'"
  shows "world_step rand w w'"
proof (cases "kill_target c (w_mgr w)")
  case (Some index)
  with t world_step.kill [OF pc c Some] show ?thesis by (auto simp: typed_command_def)
next
  case None
  show ?thesis
  proof (cases "c = ''q''")
    case True
    with t None have "w' = w\<lparr>w_pc := Main_Reap\<rparr>" by (simp add: typed_command_def)
    with world_step.quit [OF pc c [unfolded True]] show ?thesis by simp
  next
    case False
    have ok: "c = ''+'' \<or> c = ''*'' \<Longrightarrow> 0 < pid \<and> w_child w pid = None"
    proof (rule ccontr)
      assume "c = ''+'' \<or> c = ''*''" "\<not> (0 < pid \<and> w_child w pid = None)"
      then have "(c = ''+'' \<or> c = ''*'') \<and> (pid \<le> 0 \<or> w_child w pid \<noteq> None)" by linarith
      with t None False show "False" by (simp only: typed_command_def option.case if_False if_True) simp
    qed
    from t None False obtain m l n where r: "run_command c pid (sh_queue (s_shared (w_sys w))) (w_mgr w) (w_res w) = Continue m l n"
      and w': "w' = (if c \<noteq> ''+'' \<and> c \<noteq> ''*'' \<or> processes_count (w_mgr w) = 100 then w
        else fork_child pid (hd c) zero_message r w)\<lparr>w_mgr := m\<rparr>"
      unfolding typed_command_def by (simp split: if_split_asm result.split_asm)
    show ?thesis
    proof (cases "c = ''+'' \<or> c = ''*''")
      case True
      with ok world_step.fork [OF pc c True _ _ zero_message_wf r, of rand r] show ?thesis
        unfolding w' by (auto simp only: simp_thms if_True if_False)
    next
      case no: False
      with world_step.look [OF pc c _ _ None r, of rand] show ?thesis unfolding w' by simp
    qed
  qed
qed

interpretation world_runs: executable_steps "world_step rand" "world_move rand" for rand
proof
  fix a w w' assume m: "world_move rand a w = Some w'"
  show "world_step rand w w'"
  proof (cases a)
    case (Move i)
    with m show ?thesis by (auto intro: world_step.child split: if_splits)
  next
    case (Type inp pid r intr)
    with m typed_command_sound [of w inp _ _ pid r intr w' rand] show ?thesis
      by (auto intro: world_step.eof split: if_splits option.splits)
  next
    case Reap_child
    with m show ?thesis by (auto intro: world_step.reap split: mpc.splits option.splits if_splits)
  next
    case (Die pid)
    with m show ?thesis by (auto intro: world_step.die split: if_splits)
  next
    case Shut_down
    with m show ?thesis by (auto intro: world_step.shutdown split: if_splits result.splits)
  qed
qed

definition first_world :: "'r world" where
  "first_world = \<lparr>w_mgr = manager_start,
     w_res = \<lparr>res_queue_attached = True, res_shm = \<lparr>shm_attached = True, shm_removed = False\<rparr>, res_sem_removed = False\<rparr>,
     w_sys = start, w_child = Map.empty, w_pc = Main_Ready\<rparr>"

lemma first_world_start: "world_start first_world"
  by (simp add: world_start_def first_world_def start_initial)

text \<open>One consumer has read the flag and is about to wait for a message when \<open>k0\<close> is typed.\<close>

definition hang_run :: "'r world_act list" where
  "hang_run = [Type [CHR ''+'', NL] 7 undefined False, Move 0, Move 0, Type [CHR ''k'', CHR ''0'', NL] 0 undefined False]"

lemma stuck_world:
  assumes "w_pc w = Main_Wait index" "w_child w (processes (w_mgr w) ! nat index) = Some 0"
    and "length (w_procs w) = 1" "p_pc (w_procs w ! 0) = C_WaitEl" "sh_sems (s_shared (w_sys w)) EL_COUNT_SEM = 0"
  shows "\<not> world_step rand w w'"
proof
  assume "world_step rand w w'"
  then show False
  proof cases
    case (child i p sh)
    with assms(3-5) proc_step_None [of rand "w_procs w ! 0" "s_shared (w_sys w)"] show ?thesis
      by (simp add: after_wait_def)
  qed (use assms in simp_all)
qed

text \<open>
  C30. The program can hang in \<open>kill_process\<close>. If SIGUSR1 reaches a consumer between its test of
  \<open>terminate_flag\<close> and its wait for a message, the flag is set but the wait is not interrupted. With
  no producer running nobody ever wakes the consumer, the manager waits for it in \<open>waitpid\<close>,
  and no step of the whole program is possible any more.
\<close>

theorem lab4_kill_can_hang:
  "\<exists>w. world_start first_world \<and> steps (world_step rand) first_world w \<and> w_pc w = Main_Wait 0
     \<and> p_flag (w_procs w ! 0) \<and> p_pc (w_procs w ! 0) \<noteq> Exited \<and> (\<forall>w'. \<not> world_step rand w w')"
proof -
  have "case run_all (world_move rand) hang_run first_world of None \<Rightarrow> False
      | Some w \<Rightarrow> w_pc w = Main_Wait 0 \<and> w_child w (processes (w_mgr w) ! nat 0) = Some 0
          \<and> length (w_procs w) = 1 \<and> p_pc (w_procs w ! 0) = C_WaitEl \<and> p_flag (w_procs w ! 0)
          \<and> sh_sems (s_shared (w_sys w)) EL_COUNT_SEM = 0"
    by code_simp
  then obtain w where w: "run_all (world_move rand) hang_run first_world = Some w"
    "w_pc w = Main_Wait 0" "w_child w (processes (w_mgr w) ! nat 0) = Some 0"
    "length (w_procs w) = 1" "p_pc (w_procs w ! 0) = C_WaitEl" "p_flag (w_procs w ! 0)"
    "sh_sems (s_shared (w_sys w)) EL_COUNT_SEM = 0"
    by (auto split: option.splits)
  from stuck_world [OF w(2-5,7)] w(2,5,6) world_runs.run_all_steps [OF w(1)] first_world_start
  show ?thesis by (intro exI [of _ w]) simp
qed

text \<open>
  Two children are created, the first is asked to stop, stops and is reaped; \<open>q\<close> ends the other.
\<close>

definition tidy_run :: "nat world_act list" where
  "tidy_run = [Type [CHR ''+'', NL] 7 0 False, Type [CHR ''*'', NL] 9 0 False, Move 0, Move 1,
     Type [CHR ''k'', CHR ''0'', NL] 0 0 False, Move 0, Move 0, Reap_child, Type [CHR ''q'', NL] 0 0 False, Die 9, Shut_down]"

theorem lab4_no_stray_children_witness:
  "\<exists>w. steps (world_step (\<lambda>r. (r, r + 1 :: nat))) first_world w \<and> w_pc w = Main_Exited EXIT_SUCCESS
     \<and> map p_pc (w_procs w) = [Exited, Exited] \<and> \<not> shm_removed (res_shm (w_res w))"
proof -
  have "case run_all (world_move (\<lambda>r. (r, r + 1 :: nat))) tidy_run first_world of None \<Rightarrow> False
      | Some w \<Rightarrow> w_pc w = Main_Exited EXIT_SUCCESS \<and> length (w_procs w) = 2"
    by code_simp
  then obtain w where w: "run_all (world_move (\<lambda>r. (r, r + 1 :: nat))) tidy_run first_world = Some w"
    "w_pc w = Main_Exited EXIT_SUCCESS" "length (w_procs w) = 2"
    by (auto split: option.splits)
  have st: "steps (world_step (\<lambda>r. (r, r + 1 :: nat))) first_world w" by (rule world_runs.run_all_steps [OF w(1)])
  from lab4_no_stray_children [OF first_world_start st] w(2)
  have "\<forall>p \<in> set (w_procs w). p_pc p = Exited" "\<not> shm_removed (res_shm (w_res w))" by simp_all
  moreover from this w(3) have "map p_pc (w_procs w) = [Exited, Exited]"
    by (auto simp: numeral_2_eq_2 length_Suc_conv)
  ultimately show ?thesis using st w(2) by (intro exI [of _ w]) simp
qed

end
