(* ===== verification/Dyn_Queue.thy ===== *)
theory Dyn_Queue
  imports Bounded_Fifo Message
begin

section \<open>lab5: the resizable queue of message pointers (lab5/5.1/src/queue.c)\<close>

text \<open>
  The \<open>message_queue_t\<close> struct and its operations. A message pointer is an address or NULL
  (\<open>None\<close>); the messages themselves live in a heap. Every access at \<open>head\<close>, \<open>tail\<close> or
  \<open>max_len - 1\<close> is checked against the array's current length: leaving it is the outcome
  \<open>Out_of_bounds\<close>. The loops run over indices below \<open>max_len\<close>, the array's length. The memory
  \<open>malloc\<close> and \<open>realloc\<close> add holds arbitrary values, which are arguments; their failure,
  which the code does not test, is not modelled.
\<close>

abbreviation (input) QUEUE_BASE_SIZE :: int where
  "QUEUE_BASE_SIZE \<equiv> 10"

abbreviation (input) MESSAGE_SIZE :: nat where
  "MESSAGE_SIZE \<equiv> 20"

record message_queue_element_t =
  e_type :: u8
  e_hash :: u16
  e_size :: u8
  e_data :: "u32 list"

type_synonym addr = nat
type_synonym ptr = "addr option"
type_synonym heap = "addr \<rightharpoonup> message_queue_element_t"

record message_queue_t =
  dq_head :: int
  dq_tail :: int
  dq_len :: int
  dq_max_len :: int
  dq_messages :: "ptr list"

datatype 'a outcome = Done 'a | Out_of_bounds | Exit int

fun and_then :: "'a outcome \<Rightarrow> ('a \<Rightarrow> 'b outcome) \<Rightarrow> 'b outcome" where
  "and_then (Done x) f = f x"
| "and_then Out_of_bounds f = Out_of_bounds"
| "and_then (Exit n) f = Exit n"

definition in_range :: "int \<Rightarrow> 'a list \<Rightarrow> bool" where
  "in_range i xs \<longleftrightarrow> 0 \<le> i \<and> i < int (length xs)"

definition read_at :: "'a list \<Rightarrow> int \<Rightarrow> 'a outcome" where
  "read_at xs i = (if in_range i xs then Done (xs ! nat i) else Out_of_bounds)"

definition write_at :: "'a list \<Rightarrow> int \<Rightarrow> 'a \<Rightarrow> 'a list outcome" where
  "write_at xs i x = (if in_range i xs then Done (xs[nat i := x]) else Out_of_bounds)"

subsection \<open>The operations\<close>

text \<open>A queue argument of \<open>None\<close> is the NULL pointer; \<open>fresh\<close> is what \<open>malloc\<close> returned.\<close>

fun queue_init :: "ptr list \<Rightarrow> message_queue_t option \<Rightarrow> message_queue_t option" where
  "queue_init fresh None = None"
| "queue_init fresh (Some q) =
     Some (q\<lparr>dq_head := 0, dq_tail := 0, dq_len := 0, dq_max_len := QUEUE_BASE_SIZE,
             dq_messages := fold (\<lambda>i ms. ms[i := None]) [0..<nat QUEUE_BASE_SIZE] fresh\<rparr>)"

fun queue_expand :: "ptr \<Rightarrow> message_queue_t option \<Rightarrow> message_queue_t option outcome" where
  "queue_expand junk None = Done None"
| "queue_expand junk (Some q) =
     (let q = q\<lparr>dq_max_len := dq_max_len q + 1, dq_messages := dq_messages q @ [junk]\<rparr> in
      if dq_tail q < dq_head q then
        (let ms = shift_right (nat (dq_head q)) (nat (dq_max_len q - 1)) (dq_messages q) in
         and_then (write_at ms (dq_head q) None)
           (\<lambda>ms. Done (Some (q\<lparr>dq_messages := ms, dq_head := dq_head q + 1\<rparr>))))
      else
        and_then (write_at (dq_messages q) (dq_max_len q - 1) None)
          (\<lambda>ms. Done (Some (q\<lparr>dq_messages := ms\<rparr>))))"

text \<open>The body behind the guards of \<open>queue_reduce\<close>, which both versions of lab5 share.\<close>

definition reduce_body :: "message_queue_t \<Rightarrow> message_queue_t outcome" where
  "reduce_body q =
     and_then
       (if dq_head q > dq_tail q then
          (let ms = shift_left (nat (dq_head q) - 1) (nat (dq_max_len q) - 1) (dq_messages q) in
           and_then (write_at ms (dq_max_len q - 1) None)
             (\<lambda>ms. Done (q\<lparr>dq_messages := ms, dq_head := dq_head q - 1\<rparr>)))
        else Done q)
       (\<lambda>q. Done (q\<lparr>dq_max_len := dq_max_len q - 1,
                    dq_messages := take (nat (dq_max_len q - 1)) (dq_messages q)\<rparr>))"

fun queue_reduce :: "message_queue_t option \<Rightarrow> message_queue_t option outcome" where
  "queue_reduce None = Done None"
| "queue_reduce (Some q) =
     (if dq_len q = dq_max_len q then Done (Some q)
      else if dq_max_len q = 1 then Done (Some q)
      else and_then (reduce_body q) (\<lambda>q. Done (Some q)))"

fun queue_push :: "ptr \<Rightarrow> message_queue_t option \<Rightarrow> message_queue_t option outcome" where
  "queue_push new_message None = Done None"
| "queue_push None (Some q) = Done (Some q)"
| "queue_push (Some a) (Some q) =
     (if dq_len q \<ge> dq_max_len q then Done (Some q)
      else
        (let q = (if dq_len q \<noteq> 0 then q\<lparr>dq_tail := (dq_tail q + 1) smod dq_max_len q\<rparr> else q) in
         and_then (write_at (dq_messages q) (dq_tail q) (Some a))
           (\<lambda>ms. Done (Some (q\<lparr>dq_messages := ms, dq_len := dq_len q + 1\<rparr>)))))"

fun queue_pop :: "message_queue_t option \<Rightarrow> (ptr \<times> message_queue_t) outcome" where
  "queue_pop None = Exit 1"
| "queue_pop (Some q) =
     (if dq_len q = 0 then Done (None, q)
      else
        and_then (read_at (dq_messages q) (dq_head q)) (\<lambda>data.
        and_then (write_at (dq_messages q) (dq_head q) None) (\<lambda>ms.
          Done (data, q\<lparr>dq_messages := ms,
                        dq_head := (dq_head q + 1) smod dq_max_len q,
                        dq_len := dq_len q - 1\<rparr>))))"

text \<open>
  \<open>queue_free\<close> frees each message the array points to and then the array, after which
  \<open>messages\<close> is NULL (here: the empty array).
\<close>

fun free_slots :: "nat \<Rightarrow> nat \<Rightarrow> ptr list \<Rightarrow> heap \<Rightarrow> heap" where
  "free_slots i 0 ms h = h"
| "free_slots i (Suc n) ms h =
     free_slots (Suc i) n (ms[i := None]) (case ms ! i of None \<Rightarrow> h | Some a \<Rightarrow> h(a := None))"

fun queue_free :: "message_queue_t option \<Rightarrow> heap \<Rightarrow> message_queue_t option \<times> heap" where
  "queue_free None h = (None, h)"
| "queue_free (Some q) h =
     (if dq_messages q = [] then (Some q, h)
      else (Some (q\<lparr>dq_messages := []\<rparr>), free_slots 0 (nat (dq_max_len q)) (dq_messages q) h))"

text \<open>\<open>queue_generate_message\<close>: \<open>a\<close> is the address \<open>malloc\<close> returned, \<open>junk\<close> its contents.\<close>

function fill_element :: "'r rng \<Rightarrow> nat \<Rightarrow> message_queue_element_t \<Rightarrow> 'r \<Rightarrow> message_queue_element_t \<times> 'r" where
  "fill_element rand i e s =
     (if i < unat (e_size e)
      then (let (r, s') = rand s
            in fill_element rand (Suc i) (e\<lparr>e_data := (e_data e)[i := of_nat (r mod 9 + 1)]\<rparr>) s')
      else (e, s))"
  by pat_completeness auto
termination
  by (relation "measure (\<lambda>(rand, i, e, s). unat (e_size e) - i)") auto

declare fill_element.simps [simp del]

definition queue_generate_message ::
  "'r rng \<Rightarrow> addr \<Rightarrow> message_queue_element_t \<Rightarrow> heap \<Rightarrow> 'r \<Rightarrow> ptr \<times> heap \<times> 'r" where
  "queue_generate_message rand a junk h s =
     (let (r, s') = rand s;
          (e, s'') = fill_element rand 0
            (junk\<lparr>e_size := of_nat (r mod 20 + 1), e_type := 1, e_hash := 0\<rparr>) s'
      in (Some a, h(a \<mapsto> e), s''))"

text \<open>What \<open>queue_print\<close> prints: the header's four numbers, then the digits of each message.\<close>

definition queue_print :: "heap \<Rightarrow> message_queue_t \<Rightarrow> int list \<times> u32 list list" where
  "queue_print h q =
     ([dq_max_len q, dq_len q, dq_head q, dq_tail q],
      List.map_filter
        (\<lambda>i. case dq_messages q ! i of
               None \<Rightarrow> None
             | Some a \<Rightarrow> map_option (\<lambda>e. take (unat (e_size e)) (e_data e)) (h a))
        [0..<nat (dq_max_len q)])"

subsection \<open>Shape, alignment and contents\<close>

definition dq_shape :: "message_queue_t \<Rightarrow> bool" where
  "dq_shape q \<longleftrightarrow> int (length (dq_messages q)) = dq_max_len q
     \<and> 0 \<le> dq_head q \<and> dq_head q < dq_max_len q \<and> 0 \<le> dq_tail q \<and> dq_tail q < dq_max_len q
     \<and> 0 \<le> dq_len q \<and> dq_len q \<le> dq_max_len q"

text \<open>The pointers in the \<open>len\<close> slots from \<open>head\<close> on, and the slots that hold a message.\<close>

definition dq_live :: "message_queue_t \<Rightarrow> ptr list" where
  "dq_live q = ring_slice (dq_messages q) (nat (dq_head q)) (nat (dq_len q))"

definition occupied :: "ptr list \<Rightarrow> nat set" where
  "occupied ms = {i. i < length ms \<and> ms ! i \<noteq> None}"

text \<open>
  A queue is aligned when \<open>tail\<close> is the last of those slots (\<open>head\<close> itself when there is
  none) and they are the ones that hold messages.
\<close>

definition dq_aligned :: "message_queue_t \<Rightarrow> bool" where
  "dq_aligned q \<longleftrightarrow> dq_shape q
     \<and> dq_tail q = (if dq_len q = 0 then dq_head q else (dq_head q + dq_len q - 1) mod dq_max_len q)
     \<and> occupied (dq_messages q) = ring_idx (length (dq_messages q)) (nat (dq_head q)) (nat (dq_len q))"

definition dq_items :: "message_queue_t \<Rightarrow> addr list" where
  "dq_items q = map the (dq_live q)"

text \<open>The same over natural numbers: the array, the head, the length and the tail.\<close>

definition mk_queue :: "ptr list \<Rightarrow> nat \<Rightarrow> nat \<Rightarrow> nat \<Rightarrow> message_queue_t" where
  "mk_queue ms h n t = \<lparr>dq_head = int h, dq_tail = int t, dq_len = int n,
     dq_max_len = int (length ms), dq_messages = ms\<rparr>"

definition last_slot :: "nat \<Rightarrow> nat \<Rightarrow> nat \<Rightarrow> nat" where
  "last_slot L h n = (if n = 0 then h else (h + n - 1) mod L)"

lemma mk_queue_sel [simp]:
  "dq_head (mk_queue ms h n t) = int h" "dq_tail (mk_queue ms h n t) = int t"
  "dq_len (mk_queue ms h n t) = int n" "dq_max_len (mk_queue ms h n t) = int (length ms)"
  "dq_messages (mk_queue ms h n t) = ms"
  by (simp_all add: mk_queue_def)

lemma last_slot_int:
  "h < L \<Longrightarrow> int (last_slot L h n) = (if int n = 0 then int h else (int h + int n - 1) mod int L)"
  by (simp add: last_slot_def zmod_int of_nat_diff)

lemma mk_queue_aligned:
  "dq_aligned (mk_queue ms h n t) \<longleftrightarrow>
     h < length ms \<and> n \<le> length ms \<and> t = last_slot (length ms) h n
     \<and> occupied ms = ring_idx (length ms) h n"
proof -
  have "t < length ms" if "h < length ms" "t = last_slot (length ms) h n"
    using that by (cases "ms = []") (auto simp: last_slot_def)
  then show ?thesis
    using last_slot_int [of h "length ms" n] by (auto simp: dq_aligned_def dq_shape_def)
qed

lemma aligned_mk:
  assumes "dq_aligned q"
  obtains ms h n where "q = mk_queue ms h n (last_slot (length ms) h n)"
    and "h < length ms" "n \<le> length ms" "occupied ms = ring_idx (length ms) h n"
proof -
  have "q = mk_queue (dq_messages q) (nat (dq_head q)) (nat (dq_len q)) (nat (dq_tail q))"
    using assms by (simp add: dq_aligned_def dq_shape_def mk_queue_def)
  moreover from this assms have "dq_aligned (mk_queue (dq_messages q) (nat (dq_head q)) (nat (dq_len q)) (nat (dq_tail q)))"
    by simp
  ultimately show thesis using that unfolding mk_queue_aligned by metis
qed

lemma dq_items_mk: "dq_items (mk_queue ms h n t) = map the (ring_slice ms h n)"
  by (simp add: dq_items_def dq_live_def)

lemma occupied_slice:
  assumes "occupied ms = ring_idx (length ms) h n" "k < n" "0 < length ms"
  shows "ms ! ((h + k) mod length ms) \<noteq> None"
proof -
  have "(h + k) mod length ms \<in> occupied ms" using assms by (auto simp: ring_idx_def)
  then show ?thesis by (simp add: occupied_def)
qed

subsection \<open>Initialisation, push and pop\<close>

lemma clear_slots:
  "n \<le> length ms \<Longrightarrow> fold (\<lambda>i ms. ms[i := None]) [0..<n] ms = replicate n None @ drop n ms"
proof (induction n)
  case 0
  then show ?case by simp
next
  case (Suc n)
  then show ?case
    by (simp add: list_update_append replicate_append_same Cons_nth_drop_Suc [symmetric])
qed

lemma queue_init_eq:
  "length fresh = 10 \<Longrightarrow> queue_init fresh (Some q) = Some (mk_queue (replicate 10 None) 0 0 0)"
  using clear_slots [of 10 fresh] by (simp add: mk_queue_def)

lemma empty_aligned: "0 < L \<Longrightarrow> dq_aligned (mk_queue (replicate L None) 0 0 0)"
  by (simp add: mk_queue_aligned last_slot_def occupied_def)

lemma last_slot_next:
  "0 < n \<Longrightarrow> Suc (last_slot L h n) mod L = (h + n) mod L"
  by (simp add: last_slot_def mod_Suc_eq)

lemma push_slot:
  "h < L \<Longrightarrow> (if n \<noteq> 0 then Suc (last_slot L h n) mod L else last_slot L h n) = (h + n) mod L"
  using last_slot_next [of n L h] by (auto simp: last_slot_def)

lemma push_aligned:
  assumes "h < length ms" "n < length ms" "t = last_slot (length ms) h n"
  shows "queue_push (Some a) (Some (mk_queue ms h n t))
    = Done (Some (mk_queue (ms[(h + n) mod length ms := Some a]) h (Suc n) ((h + n) mod length ms)))"
proof -
  let ?L = "length ms"
  have L: "0 < ?L" "(h + n) mod ?L < ?L" using assms by (cases ms; simp)+
  have eq: "(if int n \<noteq> 0 then (mk_queue ms h n t)\<lparr>dq_tail := (int t + 1) smod int ?L\<rparr> else mk_queue ms h n t)
      = mk_queue ms h n ((h + n) mod ?L)"
  proof (cases "n = 0")
    case True
    with push_slot [OF assms(1), of n] assms(3) show ?thesis by simp
  next
    case False
    with push_slot [OF assms(1), of n] assms(3) have "Suc t mod ?L = (h + n) mod ?L" by simp
    then have "(int t + 1) smod int ?L = int ((h + n) mod ?L)"
      by (simp add: add.commute flip: zmod_int of_nat_Suc)
    with False show ?thesis by (simp add: mk_queue_def)
  qed
  show ?thesis
    using assms(2) L unfolding queue_push.simps mk_queue_sel Let_def eq
    by (simp add: write_at_def in_range_def mk_queue_def)
qed

lemma pop_mk:
  assumes "h < length ms" "0 < n"
  shows "queue_pop (Some (mk_queue ms h n t))
    = Done (ms ! h, mk_queue (ms[h := None]) (Suc h mod length ms) (n - 1) t)"
proof -
  have "(int h + 1) smod int (length ms) = int (Suc h mod length ms)"
    by (simp add: zmod_int add.commute)
  then show ?thesis
    using assms by (simp add: read_at_def write_at_def in_range_def mk_queue_def of_nat_diff)
qed

lemma occupied_set: "i < length ms \<Longrightarrow> occupied (ms[i := Some a]) = insert i (occupied ms)"
  by (auto simp: occupied_def nth_list_update)

lemma occupied_clear: "occupied (ms[i := None]) = occupied ms - {i}"
proof (cases "i < length ms")
  case True
  then show ?thesis by (auto simp: occupied_def nth_list_update split: if_splits)
next
  case False
  then show ?thesis by (auto simp: occupied_def list_update_beyond)
qed

lemma push_keeps_aligned:
  assumes "h < length ms" "n < length ms" "occupied ms = ring_idx (length ms) h n"
  shows "dq_aligned (mk_queue (ms[(h + n) mod length ms := Some a]) h (Suc n) ((h + n) mod length ms))"
proof -
  have "(h + n) mod length ms < length ms" using assms by (cases "ms = []") auto
  with assms show ?thesis
    by (simp add: mk_queue_aligned occupied_set ring_idx_snoc last_slot_def)
qed

lemma pop_keeps_aligned:
  assumes "h < length ms" "2 \<le> n" "n \<le> length ms" "occupied ms = ring_idx (length ms) h n"
  shows "dq_aligned (mk_queue (ms[h := None]) (Suc h mod length ms) (n - 1) (last_slot (length ms) h n))"
proof -
  obtain m where m: "n = Suc m" "0 < m" using assms(2) by (cases n) auto
  have "h \<notin> ring_idx (length ms) (Suc h) m"
    using ring_idx_before [of m "length ms" h] assms(1,3) m by simp
  then have "occupied (ms[h := None]) = ring_idx (length ms) (Suc h) m"
    using assms m by (simp add: occupied_clear ring_idx_Cons)
  moreover have "(Suc h mod length ms + m - 1) mod length ms = (h + m) mod length ms"
  proof -
    have "(Suc h mod length ms + (m - 1)) mod length ms = (Suc h + (m - 1)) mod length ms"
      by (rule mod_add_left_eq)
    then show ?thesis using m by simp
  qed
  ultimately show ?thesis
    using assms(1,3) m by (cases "ms = []") (auto simp: mk_queue_aligned last_slot_def)
qed

text \<open>The operations as the interface of \<open>bounded_store\<close>, on a queue that is not NULL.\<close>

definition push_on :: "message_queue_t \<Rightarrow> addr \<Rightarrow> message_queue_t" where
  "push_on q a = (case queue_push (Some a) (Some q) of Done (Some q') \<Rightarrow> q' | _ \<Rightarrow> q)"

definition pop_from :: "message_queue_t \<Rightarrow> addr option \<times> message_queue_t" where
  "pop_from q = (case queue_pop (Some q) of Done r \<Rightarrow> r | _ \<Rightarrow> (None, q))"

lemma push_full: "dq_aligned q \<Longrightarrow> length (dq_items q) = nat (dq_max_len q) \<Longrightarrow> queue_push (Some a) (Some q) = Done (Some q)"
  by (auto simp: dq_items_def dq_live_def dq_aligned_def dq_shape_def)

lemma aligned_push:
  assumes "dq_aligned q" "length (dq_items q) < nat (dq_max_len q)"
  obtains q' where "queue_push (Some a) (Some q) = Done (Some q')" "dq_aligned q'"
    "dq_items q' = dq_items q @ [a]" "dq_max_len q' = dq_max_len q"
proof -
  from assms(1) obtain ms h n where q: "q = mk_queue ms h n (last_slot (length ms) h n)"
    and h: "h < length ms" "n \<le> length ms" "occupied ms = ring_idx (length ms) h n"
    by (rule aligned_mk)
  have n: "n < length ms" using assms(2) by (simp add: q dq_items_mk)
  show thesis
    by (rule that [OF push_aligned [OF h(1) n refl, folded q] push_keeps_aligned [OF h(1) n h(3)]])
      (use n in \<open>simp_all add: q dq_items_mk ring_slice_append\<close>)
qed

lemma aligned_pop:
  assumes "dq_aligned q" "dq_items q \<noteq> []"
  obtains q' where "queue_pop (Some q) = Done (Some (hd (dq_items q)), q')"
    "dq_items q' = tl (dq_items q)" "dq_max_len q' = dq_max_len q"
    "2 \<le> length (dq_items q) \<Longrightarrow> dq_aligned q'"
proof -
  from assms(1) obtain ms h n where q: "q = mk_queue ms h n (last_slot (length ms) h n)"
    and h: "h < length ms" "n \<le> length ms" "occupied ms = ring_idx (length ms) h n"
    by (rule aligned_mk)
  obtain m where m: "n = Suc m" using assms(2) by (cases n) (auto simp: q dq_items_mk)
  have L: "0 < length ms" using h(1) by linarith
  have "ms ! h \<noteq> None" using occupied_slice [OF h(3) _ L, of 0] h(1) m by simp
  then have hd: "ms ! h = Some (hd (dq_items q))"
    using h(1) by (simp add: q dq_items_mk m ring_slice_Suc)
  have "(Suc h + k) mod length ms \<noteq> h" if "k < m" for k
    using ring_idx_before [of m "length ms" h] that h(1,2) m by (force simp: ring_idx_def)
  then have "ring_slice (ms[h := None]) (Suc h) m = ring_slice ms (Suc h) m"
    by (intro ring_slice_update_other) auto
  then have items: "dq_items (mk_queue (ms[h := None]) (Suc h mod length ms) m t) = tl (dq_items q)" for t
    using ring_slice_mod [of "ms[h := None]" "Suc h" m]
    by (simp add: q dq_items_mk m ring_slice_Suc)
  have pop: "queue_pop (Some q)
      = Done (Some (hd (dq_items q)), mk_queue (ms[h := None]) (Suc h mod length ms) m (last_slot (length ms) h n))"
    using pop_mk [OF h(1), of n] m unfolding hd [symmetric] by (simp add: q)
  show thesis
    by (rule that [OF pop items])
      (use pop_keeps_aligned [OF h(1) _ h(2,3)] m in \<open>simp_all add: q dq_items_mk\<close>)
qed

interpretation dq: bounded_store push_on pop_from dq_items "\<lambda>q. nat (dq_max_len q)" dq_aligned
proof
  fix q :: message_queue_t and a
  assume al: "dq_aligned q"
  show le: "length (dq_items q) \<le> nat (dq_max_len q)"
    using al by (auto simp: dq_items_def dq_live_def dq_aligned_def dq_shape_def)
  show full: "push_on q a = q" if "length (dq_items q) = nat (dq_max_len q)"
    using push_full [OF al that, of a] by (simp add: push_on_def)
  show "dq_items (push_on q a) = dq_items q @ [a]" if "length (dq_items q) < nat (dq_max_len q)"
    by (rule aligned_push [OF al that, of a]) (simp add: push_on_def)
  show "dq_aligned (push_on q a)"
  proof (cases "length (dq_items q) < nat (dq_max_len q)")
    case True
    show ?thesis by (rule aligned_push [OF al True, of a]) (simp add: push_on_def)
  next
    case False
    with le full al show ?thesis by simp
  qed
  show "nat (dq_max_len (push_on q a)) = nat (dq_max_len q)"
  proof (cases "length (dq_items q) < nat (dq_max_len q)")
    case True
    show ?thesis by (rule aligned_push [OF al True, of a]) (simp add: push_on_def)
  next
    case False
    with le full show ?thesis by simp
  qed
  show empty: "pop_from q = (None, q)" if "dq_items q = []"
    using that al by (simp add: pop_from_def dq_items_def dq_live_def dq_aligned_def dq_shape_def)
  show "fst (pop_from q) = Some (hd (dq_items q))" if "dq_items q \<noteq> []"
    by (rule aligned_pop [OF al that]) (simp add: pop_from_def)
  show "dq_items (snd (pop_from q)) = tl (dq_items q)" if "dq_items q \<noteq> []"
    by (rule aligned_pop [OF al that]) (simp add: pop_from_def)
  show "nat (dq_max_len (snd (pop_from q))) = nat (dq_max_len q)"
  proof (cases "dq_items q = []")
    case True
    then show ?thesis by (simp add: empty)
  next
    case False
    show ?thesis by (rule aligned_pop [OF al False]) (simp add: pop_from_def)
  qed
  show "dq_aligned (snd (pop_from q))" if "2 \<le> length (dq_items q)"
  proof -
    from that have "dq_items q \<noteq> []" by auto
    show ?thesis
      by (rule aligned_pop [OF al \<open>dq_items q \<noteq> []\<close>]) (use that in \<open>simp add: pop_from_def\<close>)
  qed
qed

subsection \<open>Resizing\<close>

lemma last_slot_wrapped:
  assumes "h < L" "n \<le> L"
  shows "last_slot L h n < h \<longleftrightarrow> L < h + n"
proof -
  have "(h + n - 1) mod L = (if h + n - 1 < L then h + n - 1 else h + n - 1 - L)" if "0 < n"
    using that assms by (simp add: mod_if)
  then show ?thesis using assms by (auto simp: last_slot_def split: if_splits)
qed

lemma last_slot_unwrapped: "h + n \<le> L \<Longrightarrow> h < L \<Longrightarrow> last_slot L h n = (if n = 0 then h else h + n - 1)"
  by (simp add: last_slot_def)

lemma last_slot_wrap: "L < h + n \<Longrightarrow> h < L \<Longrightarrow> n \<le> L \<Longrightarrow> last_slot L h n = h + n - 1 - L"
  by (simp add: last_slot_def mod_if)

text \<open>A queue with a slot inserted, or an unused slot removed, in front of its head.\<close>

lemma gap_opened:
  assumes "h < length ms"
  shows "(shift_right h (length ms) (ms @ [junk]))[h := None] = take h ms @ None # drop h ms"
proof (rule nth_equalityI)
  fix k assume "k < length ((shift_right h (length ms) (ms @ [junk]))[h := None])"
  then have k: "k < Suc (length ms)" by simp
  consider "k < h" | "k = h" | "h < k" by linarith
  then show "(shift_right h (length ms) (ms @ [junk]))[h := None] ! k = (take h ms @ None # drop h ms) ! k"
  proof cases
    case 3
    then obtain j where "k = Suc j" "h \<le> j" by (cases k) auto
    then show ?thesis
      using k assms by (simp add: nth_shift_right nth_append Suc_diff_le)
  qed (use assms in \<open>simp_all add: nth_shift_right nth_append\<close>)
qed (use assms in simp)

lemma gap_closed:
  assumes "0 < h" "h < length ms"
  shows "take (length ms - 1) ((shift_left (h - 1) (length ms - 1) ms)[length ms - 1 := x])
    = take (h - 1) ms @ drop h ms"
  using assms take_shift_left [of "h - 1" "length ms - 1" ms] by simp

lemma expand_aligned:
  assumes al: "dq_aligned q"
  shows "\<exists>q'. queue_expand junk (Some q) = Done (Some q') \<and> dq_aligned q'
    \<and> dq_items q' = dq_items q \<and> dq_max_len q' = dq_max_len q + 1"
proof -
  from al obtain ms h n where q: "q = mk_queue ms h n (last_slot (length ms) h n)"
    and h: "h < length ms" "n \<le> length ms" and occ: "occupied ms = ring_idx (length ms) h n"
    by (rule aligned_mk)
  let ?L = "length ms" and ?t = "last_slot (length ms) h n"
  show ?thesis
  proof (cases "?L < h + n")
    case False
    let ?ms = "ms @ [None]"
    have "\<not> ?t < h" using False last_slot_wrapped [OF h] by simp
    then have "queue_expand junk (Some q) = Done (Some (mk_queue ?ms h n ?t))"
      by (simp add: q write_at_def in_range_def Let_def list_update_append mk_queue_def)
    moreover have "occupied ?ms = occupied ms"
      by (auto simp: occupied_def nth_append less_Suc_eq)
    then have "dq_aligned (mk_queue ?ms h n ?t)"
      using False h occ by (simp add: mk_queue_aligned last_slot_unwrapped ring_idx_no_wrap)
    moreover have "ring_slice ?ms h n = ring_slice ms h n"
      using False by (simp add: ring_slice_no_wrap)
    ultimately show ?thesis by (simp add: dq_items_mk q)
  next
    case True
    let ?ms = "take h ms @ None # drop h ms"
    have "?t < h" using True last_slot_wrapped [OF h] by simp
    then have "queue_expand junk (Some q) = Done (Some (mk_queue ?ms (Suc h) n ?t))"
      using h gap_opened [OF h(1), of junk]
      by (simp add: q write_at_def in_range_def Let_def mk_queue_def)
    moreover have "occupied ?ms = {Suc h..<Suc ?L} \<union> {..<Suc h + n - Suc ?L}"
    proof -
      have "occupied ms = {h..<?L} \<union> {..<h + n - ?L}"
        using occ ring_idx_wrap [of h ?L n] True h by simp
      then have "\<And>i. i < ?L \<Longrightarrow> ms ! i \<noteq> None \<longleftrightarrow> h \<le> i \<or> i < h + n - ?L"
        by (auto simp: occupied_def set_eq_iff)
      then show ?thesis using h True
        by (auto simp: occupied_def nth_append nth_Cons' split: if_splits) linarith?
    qed
    then have "dq_aligned (mk_queue ?ms (Suc h) n ?t)"
      using True h ring_idx_wrap [of "Suc h" "Suc ?L" n]
      by (simp add: mk_queue_aligned last_slot_wrap)
    moreover have "ring_slice ?ms (Suc h) n = ring_slice ms h n"
      using True h ring_slice_wrap [of h ms n] ring_slice_wrap [of "Suc h" ?ms n] by simp
    ultimately show ?thesis by (simp add: dq_items_mk q)
  qed
qed

lemma reduce_body_wrapped:
  assumes "0 < h" "h < length ms" "t < h"
  shows "reduce_body (mk_queue ms h n t)
    = Done (mk_queue (take (h - 1) ms @ drop h ms) (h - 1) n t)"
proof -
  obtain g m where gm: "h = Suc g" "length ms = Suc m" using assms by (cases h; cases "length ms") auto
  let ?ms = "shift_left g m ms"
  have "reduce_body (mk_queue ms h n t) = Done (mk_queue (take m (?ms[m := None])) g n t)"
    using assms gm
    by (simp add: reduce_body_def write_at_def in_range_def Let_def mk_queue_def nat_add_distrib)
  moreover have "take m (?ms[m := None]) = take (h - 1) ms @ drop h ms"
    using gap_closed [OF assms(1,2), of None] gm by simp
  ultimately show ?thesis using gm by simp
qed

lemma reduce_body_unwrapped:
  assumes "h \<le> t" "ms \<noteq> []"
  shows "reduce_body (mk_queue ms h n t) = Done (mk_queue (butlast ms) h n t)"
  using assms by (simp add: reduce_body_def mk_queue_def butlast_conv_take of_nat_diff Suc_leI nat_diff_distrib)

lemma queue_reduce_body:
  assumes "n < length ms" "length ms \<noteq> 1" "reduce_body (mk_queue ms h n t) = Done q'"
  shows "queue_reduce (Some (mk_queue ms h n t)) = Done (Some q')"
  using assms by simp

lemma occupied_butlast: "occupied (butlast ms) = occupied ms \<inter> {..<length ms - 1}"
  by (auto simp: occupied_def nth_butlast)

lemma reduce_aligned:
  assumes al: "dq_aligned q" and room: "dq_len q < dq_max_len q" "dq_max_len q \<noteq> 1"
    and layout: "dq_tail q < dq_head q \<or> dq_tail q < dq_max_len q - 1"
  shows "\<exists>q'. queue_reduce (Some q) = Done (Some q') \<and> dq_aligned q'
    \<and> dq_items q' = dq_items q \<and> dq_max_len q' = dq_max_len q - 1"
proof -
  from al obtain ms h n where q: "q = mk_queue ms h n (last_slot (length ms) h n)"
    and h: "h < length ms" "n \<le> length ms" and occ: "occupied ms = ring_idx (length ms) h n"
    by (rule aligned_mk)
  let ?L = "length ms" and ?t = "last_slot (length ms) h n"
  from room have L: "n < ?L" "?L \<noteq> 1" by (auto simp: q)
  show ?thesis
  proof (cases "?L < h + n")
    case True
    let ?ms = "take (h - 1) ms @ drop h ms"
    have t: "?t < h" "0 < h" using True last_slot_wrapped [OF h] L by auto
    have "queue_reduce (Some q) = Done (Some (mk_queue ?ms (h - 1) n ?t))"
      unfolding q by (rule queue_reduce_body [OF L reduce_body_wrapped [OF t(2) h(1) t(1)]])
    moreover have "occupied ?ms = {h - 1..<?L - 1} \<union> {..<(h - 1) + n - (?L - 1)}"
    proof -
      have "occupied ms = {h..<?L} \<union> {..<h + n - ?L}"
        using occ ring_idx_wrap [of h ?L n] True h by simp
      then have "\<And>i. i < ?L \<Longrightarrow> ms ! i \<noteq> None \<longleftrightarrow> h \<le> i \<or> i < h + n - ?L"
        by (auto simp: occupied_def set_eq_iff)
      then show ?thesis using h True L t
        by (auto simp: occupied_def nth_append split: if_splits) linarith?
    qed
    then have "dq_aligned (mk_queue ?ms (h - 1) n ?t)"
      using True h L ring_idx_wrap [of "h - 1" "?L - 1" n]
      by (auto simp: mk_queue_aligned last_slot_wrap)
    moreover have "ring_slice ?ms (h - 1) n = ring_slice ms h n"
      using True h L ring_slice_wrap [of h ms n] ring_slice_wrap [of "h - 1" ?ms n] by simp
    moreover have "int (length ?ms) = int ?L - 1" using h t by simp
    ultimately show ?thesis
      by (intro exI [of _ "mk_queue ?ms (h - 1) n ?t"]) (simp only: dq_items_mk q mk_queue_sel simp_thms)
  next
    case False
    let ?ms = "butlast ms"
    have t: "h \<le> ?t" "ms \<noteq> []" "?t < ?L - 1"
      using False last_slot_wrapped [OF h] h layout by (auto simp: q)
    have last: "h + n \<le> ?L - 1" "h < ?L - 1"
      using t(1,3) False h by (auto simp: last_slot_unwrapped split: if_splits)
    have "queue_reduce (Some q) = Done (Some (mk_queue ?ms h n ?t))"
      unfolding q by (rule queue_reduce_body [OF L reduce_body_unwrapped [OF t(1,2)]])
    moreover have "occupied ?ms = {h..<h + n}"
    proof -
      have "occupied ms = {h..<h + n}" using occ ring_idx_no_wrap [of h n ?L] False by simp
      with last show ?thesis unfolding occupied_butlast by auto
    qed
    then have "dq_aligned (mk_queue ?ms h n ?t)"
      using last False h by (simp add: mk_queue_aligned last_slot_unwrapped ring_idx_no_wrap)
    moreover have "ring_slice ?ms h n = ring_slice ms h n"
      using last by (simp add: ring_slice_no_wrap butlast_conv_take drop_take)
    moreover have "int (length ?ms) = int ?L - 1" using t(2) by (cases ms rule: rev_cases) auto
    ultimately show ?thesis
      by (intro exI [of _ "mk_queue ?ms h n ?t"]) (simp only: dq_items_mk q mk_queue_sel simp_thms)
  qed
qed

lemma reduce_drops_last:
  assumes al: "dq_aligned q" and room: "0 < dq_len q" "dq_len q < dq_max_len q"
    and last: "dq_head q \<le> dq_tail q" "dq_tail q = dq_max_len q - 1"
  shows "\<exists>q'. queue_reduce (Some q) = Done (Some q') \<and> dq_len q' = dq_len q
    \<and> dq_messages q = dq_messages q' @ [Some (last (dq_items q))] \<and> dq_head q' = dq_head q
    \<and> dq_max_len q' = dq_max_len q - 1"
proof -
  from al obtain ms h n where q: "q = mk_queue ms h n (last_slot (length ms) h n)"
    and h: "h < length ms" "n \<le> length ms" and occ: "occupied ms = ring_idx (length ms) h n"
    by (rule aligned_mk)
  let ?L = "length ms" and ?t = "last_slot (length ms) h n"
  from room have n: "0 < n" "n < ?L" "?L \<noteq> 1" by (auto simp: q)
  have "\<not> ?L < h + n" using last(1) last_slot_wrapped [OF h] by (simp add: q)
  with last(2) n h have hn: "h + n = ?L" by (simp add: q last_slot_unwrapped)
  have ms: "ms \<noteq> []" using h by auto
  have "queue_reduce (Some q) = Done (Some (mk_queue (butlast ms) h n ?t))"
    unfolding q using last(1) by (intro queue_reduce_body [OF n(2,3) reduce_body_unwrapped [OF _ ms]]) (simp add: q)
  moreover have "last ms = Some (last (dq_items q))"
  proof -
    have "ms ! (?L - 1) \<noteq> None" using occupied_slice [OF occ, of "n - 1"] n hn ms by simp
    then show ?thesis
      using n hn ms by (simp add: q dq_items_mk ring_slice_no_wrap last_map last_conv_nth)
  qed
  then have "ms = butlast ms @ [Some (last (dq_items q))]"
    using ms append_butlast_last_id by metis
  moreover have "int (length (butlast ms)) = int ?L - 1" using ms by (cases ms rule: rev_cases) auto
  ultimately show ?thesis
    by (intro exI [of _ "mk_queue (butlast ms) h n ?t"]) (simp only: q mk_queue_sel simp_thms)
qed

subsection \<open>Theorems\<close>

text \<open>
  C14. Refinement, until the queue is drained. From the queue \<open>queue_init\<close> sets up, any
  sequence of pushes and pops in which no pop takes the last message returns exactly what a
  FIFO list of capacity 10 returns, and no array access leaves the array.
\<close>

theorem dyn_queue_refines_fifo:
  assumes "length fresh = 10" "queue_init fresh (Some junk) = Some q" "never_drains 10 [] ops"
  shows "snd (run_ops push_on pop_from q ops) = snd (spec_run 10 [] ops)
    \<and> dq_items (fst (run_ops push_on pop_from q ops)) = fst (spec_run 10 [] ops)
    \<and> dq_aligned (fst (run_ops push_on pop_from q ops))"
proof -
  have q: "q = mk_queue (replicate 10 None) 0 0 0"
    using queue_init_eq [OF assms(1), of junk] assms(2) by simp
  then have "dq_aligned q" "dq_items q = []" "nat (dq_max_len q) = 10"
    using empty_aligned [of 10] by (simp_all add: dq_items_mk)
  with dq.run_undrained [of q ops] assms(3) show ?thesis by simp
qed

text \<open>
  C38. A push after the queue was drained is lost. Popping the only message moves \<open>head\<close> past
  \<open>tail\<close>, the next push writes at \<open>tail\<close>, behind the head, and the pop after that returns
  NULL: the message stays in the array but the queue counts zero messages.
\<close>

theorem push_after_drain_is_lost:
  assumes "dq_aligned q" "dq_items q = [x]" "2 \<le> dq_max_len q"
  shows "\<exists>q1 q2 q3. queue_pop (Some q) = Done (Some x, q1)
    \<and> queue_push (Some a) (Some q1) = Done (Some q2)
    \<and> queue_pop (Some q2) = Done (None, q3)
    \<and> dq_len q3 = 0 \<and> Some a \<in> set (dq_messages q3)"
proof -
  from assms(1) obtain ms h n where q: "q = mk_queue ms h n (last_slot (length ms) h n)"
    and h: "h < length ms" "n \<le> length ms" and occ: "occupied ms = ring_idx (length ms) h n"
    by (rule aligned_mk)
  from assms(2) have "length (dq_items q) = 1" by simp
  then have n: "n = 1" and L: "2 \<le> length ms" "0 < length ms"
    using assms(3) by (auto simp: q dq_items_mk)
  have occ1: "occupied ms = {h}" using occ n h by (simp add: ring_idx_Cons)
  have ring1: "ring_slice ms h 1 = [ms ! h]" using ring_slice_Suc [of ms h 0] h by simp
  have "h \<in> occupied ms" using occ1 by simp
  then obtain y where "ms ! h = Some y" by (auto simp: occupied_def)
  then have x: "ms ! h = Some x" using assms(2) ring1 n by (simp add: q dq_items_mk)
  have t: "last_slot (length ms) h (Suc 0) = h" using h by (simp add: last_slot_def)
  let ?ms1 = "ms[h := None]" and ?h = "Suc h mod length ms"
  let ?ms2 = "?ms1[h := Some a]"
  have hh: "?h \<noteq> h" "?h < length ms" using L h by (auto simp: mod_Suc)
  have pop1: "queue_pop (Some q) = Done (Some x, mk_queue ?ms1 ?h 0 h)"
    using pop_mk [OF h(1), of 1] x by (simp add: q n t)
  have push: "queue_push (Some a) (Some (mk_queue ?ms1 ?h 0 h)) = Done (Some (mk_queue ?ms2 ?h 1 h))"
    using h L by (simp add: write_at_def in_range_def mk_queue_def)
  have "?h \<notin> occupied ms" using occ1 hh by simp
  then have "?ms2 ! ?h = None" using hh by (simp add: occupied_def)
  then have pop2: "queue_pop (Some (mk_queue ?ms2 ?h 1 h)) = Done (None, mk_queue (?ms2[?h := None]) (Suc ?h mod length ms) 0 h)"
    using pop_mk [of ?h ?ms2 1 h] hh by simp
  have "(?ms2[?h := None]) ! h = Some a" using hh h by simp
  moreover have "h < length (?ms2[?h := None])" using h by simp
  ultimately have "Some a \<in> set (?ms2[?h := None])" unfolding in_set_conv_nth by blast
  with pop1 push pop2 show ?thesis
    by (intro exI [of _ "mk_queue ?ms1 ?h 0 h"] exI [of _ "mk_queue ?ms2 ?h 1 h"]
        exI [of _ "mk_queue (?ms2[?h := None]) (Suc ?h mod length ms) 0 h"]) simp
qed

text \<open>
  Growing the queue keeps its contents: \<open>queue_expand\<close> adds one slot, in front of the head
  when the messages wrap around the end of the array and behind the last slot otherwise, and
  leaves the same messages in the same order, whatever the memory \<open>realloc\<close> added holds.
\<close>

theorem expand_keeps_contents:
  assumes "dq_aligned q"
  shows "\<exists>q'. queue_expand junk (Some q) = Done (Some q') \<and> dq_aligned q'
    \<and> dq_items q' = dq_items q \<and> dq_max_len q' = dq_max_len q + 1"
  by (rule expand_aligned [OF assms])

text \<open>
  Shrinking the queue keeps its contents when there is a free slot and the last message is
  not in the last slot of the array.
\<close>

theorem reduce_keeps_contents:
  assumes "dq_aligned q" "dq_len q < dq_max_len q" "dq_max_len q \<noteq> 1"
    and "dq_tail q < dq_head q \<or> dq_tail q < dq_max_len q - 1"
  shows "\<exists>q'. queue_reduce (Some q) = Done (Some q') \<and> dq_aligned q'
    \<and> dq_items q' = dq_items q \<and> dq_max_len q' = dq_max_len q - 1"
  by (rule reduce_aligned [OF assms])

text \<open>
  C37. Shrinking the queue when the last message is in the last slot of the array drops that
  message while \<open>len\<close> still counts it; if it was the only one, the next pop reads outside the
  array.
\<close>

theorem reduce_loses_last_message:
  assumes "dq_aligned q" "0 < dq_len q" "dq_len q < dq_max_len q"
    and "dq_head q \<le> dq_tail q" "dq_tail q = dq_max_len q - 1"
  shows "\<exists>q'. queue_reduce (Some q) = Done (Some q') \<and> dq_len q' = dq_len q
    \<and> dq_messages q = dq_messages q' @ [Some (last (dq_items q))]
    \<and> (dq_len q = 1 \<longrightarrow> queue_pop (Some q') = Out_of_bounds)"
proof -
  obtain q' where q': "queue_reduce (Some q) = Done (Some q')" "dq_len q' = dq_len q"
    "dq_messages q = dq_messages q' @ [Some (last (dq_items q))]" "dq_head q' = dq_head q"
    "dq_max_len q' = dq_max_len q - 1"
    using reduce_drops_last [OF assms] by blast
  have len: "int (length (dq_messages q')) = dq_max_len q - 1"
    using assms(1) q'(3) by (simp add: dq_aligned_def dq_shape_def)
  have "queue_pop (Some q') = Out_of_bounds" if "dq_len q = 1"
  proof -
    have "dq_head q = dq_tail q"
      using that assms(1) by (simp add: dq_aligned_def dq_shape_def)
    with that q' len assms(5) show ?thesis by (simp add: read_at_def in_range_def)
  qed
  with q' show ?thesis by blast
qed

text \<open>
  \<open>queue_free\<close> frees every message the array points to, and nothing else.
\<close>

theorem queue_free_frees_messages:
  assumes "int (length (dq_messages q)) = dq_max_len q"
  shows "queue_free (Some q) h
    = (Some (q\<lparr>dq_messages := []\<rparr>), h |` (- {a. Some a \<in> set (dq_messages q)}))"
proof -
  have slots: "free_slots i n ms h = h |` (- {a. Some a \<in> set (take n (drop i ms))})"
    if "i + n \<le> length ms" for i n ms h
    using that
  proof (induction n arbitrary: i ms h)
    case 0
    then show ?case by simp
  next
    case (Suc n)
    have drop: "drop (Suc i) (ms[i := None]) = drop (Suc i) ms" by simp
    have split: "take (Suc n) (drop i ms) = ms ! i # take n (drop (Suc i) ms)"
      using Suc.prems by (simp add: Cons_nth_drop_Suc [symmetric])
    show ?case using Suc.IH [of "Suc i" "ms[i := None]"] Suc.prems
      unfolding split free_slots.simps drop
      by (cases "ms ! i") (auto simp: restrict_map_def fun_eq_iff drop)
  qed
  have "nat (dq_max_len q) = length (dq_messages q)" using assms by simp
  with slots [of 0 "length (dq_messages q)" "dq_messages q" h] show ?thesis
    by (auto simp: restrict_map_def)
qed

lemma fill_element_data:
  assumes "length (e_data e) = MESSAGE_SIZE" "unat (e_size e) \<le> MESSAGE_SIZE"
    and "fill_element rand i e s = (e', s')"
  shows "length (e_data e') = MESSAGE_SIZE \<and> e_size e' = e_size e \<and> e_type e' = e_type e
    \<and> e_hash e' = e_hash e
    \<and> (\<forall>k < unat (e_size e). if i \<le> k then 1 \<le> unat (e_data e' ! k) \<and> unat (e_data e' ! k) \<le> 9
                                else e_data e' ! k = e_data e ! k)"
  using assms
proof (induction rand i e s arbitrary: e' s' rule: fill_element.induct)
  case (1 rand i e s)
  show ?case
  proof (cases "i < unat (e_size e)")
    case True
    obtain r s1 where r: "rand s = (r, s1)" by fastforce
    let ?b = "of_nat (r mod 9 + 1) :: u32"
    let ?e = "e\<lparr>e_data := (e_data e)[i := ?b]\<rparr>"
    have "unat ?b = r mod 9 + 1"
      by (simp only: unat_of_nat take_bit_nat_def) (simp add: mod_less_divisor [THEN less_trans])
    moreover have "r mod 9 < 9" by simp
    ultimately have b: "1 \<le> unat ?b" "unat ?b \<le> 9" by linarith+
    have "fill_element rand (Suc i) ?e s1 = (e', s')"
      using "1.prems"(3) True r by (subst (asm) fill_element.simps) simp
    with "1.IH" [OF True refl r [symmetric], of e' s'] "1.prems"(1,2)
    have IH: "length (e_data e') = MESSAGE_SIZE \<and> e_size e' = e_size e \<and> e_type e' = e_type e
      \<and> e_hash e' = e_hash e"
      and data: "\<And>k. k < unat (e_size e) \<Longrightarrow>
        if Suc i \<le> k then 1 \<le> unat (e_data e' ! k) \<and> unat (e_data e' ! k) \<le> 9
        else e_data e' ! k = e_data ?e ! k"
      by auto
    have "if i \<le> k then 1 \<le> unat (e_data e' ! k) \<and> unat (e_data e' ! k) \<le> 9
      else e_data e' ! k = e_data e ! k" if k: "k < unat (e_size e)" for k
    proof -
      consider "k = i" | "Suc i \<le> k" | "k < i" by linarith
      then show ?thesis
      proof cases
        case 1
        with data [OF k] k "1.prems"(1,2) have "e_data e' ! k = ?b" by simp
        with b 1 show ?thesis by simp
      next
        case 2
        with data [OF k] show ?thesis by simp
      next
        case 3
        with data [OF k] show ?thesis by simp
      qed
    qed
    with IH show ?thesis by blast
  next
    case False
    with "1.prems" show ?thesis by (subst (asm) fill_element.simps) auto
  qed
qed

text \<open>
  A generated message has between 1 and 20 data words, each between 1 and 9, so the loop
  that fills it and every loop that prints it stay inside \<open>data\<close>; it is stored at the address
  returned and nothing else in the heap changes.
\<close>

theorem queue_generate_message_bounds:
  assumes "length (e_data junk) = 20" "queue_generate_message rand a junk h s = (p, h', s')"
  shows "p = Some a \<and> (\<exists>e. h' = h(a \<mapsto> e) \<and> e_type e = 1 \<and> e_hash e = 0
    \<and> 1 \<le> unat (e_size e) \<and> unat (e_size e) \<le> 20 \<and> length (e_data e) = 20
    \<and> (\<forall>k < unat (e_size e). 1 \<le> unat (e_data e ! k) \<and> unat (e_data e ! k) \<le> 9))"
proof -
  obtain r s1 where r: "rand s = (r, s1)" by fastforce
  let ?n = "of_nat (r mod 20 + 1) :: u8"
  let ?e = "junk\<lparr>e_size := ?n, e_type := 1, e_hash := 0\<rparr>"
  obtain e s2 where e: "fill_element rand 0 ?e s1 = (e, s2)" by fastforce
  have "unat ?n = r mod 20 + 1"
    by (simp only: unat_of_nat take_bit_nat_def) (simp add: mod_less_divisor [THEN less_trans])
  moreover have "r mod 20 < 20" by simp
  ultimately have n: "1 \<le> unat ?n" "unat ?n \<le> 20" by linarith+
  have "p = Some a" "h' = h(a \<mapsto> e)"
    using assms(2) r e by (simp_all add: queue_generate_message_def)
  with fill_element_data [OF _ _ e] assms(1) n show ?thesis by auto
qed

subsection \<open>Witnesses\<close>

lemma occupied_filter: "occupied ms = set (filter (\<lambda>i. ms ! i \<noteq> None) [0..<length ms])"
  by (auto simp: occupied_def)

lemma witness_aligned:
  "dq_aligned (mk_queue [None, None, Some 7] 2 1 2)"
  "dq_aligned (mk_queue [None, Some 7, None] 1 1 1)"
  by (simp_all add: mk_queue_aligned last_slot_def occupied_filter ring_idx_def upt_rec lessThan_Suc)

lemma witness_items:
  "dq_items (mk_queue [None, None, Some 7] 2 1 2) = [7]"
  "dq_items (mk_queue [None, Some 7, None] 1 1 1) = [7]"
  by (simp_all add: dq_items_mk ring_slice_def)

theorem dyn_queue_refines_fifo_witness:
  "snd (run_ops push_on pop_from (mk_queue (replicate 10 None) 0 0 0) [Put 5, Put 6, Take, Put 8]) = [Some 5]"
  using dyn_queue_refines_fifo [of "replicate 10 (Some 1)" undefined "mk_queue (replicate 10 None) 0 0 0"
      "[Put 5, Put 6, Take, Put 8]"] queue_init_eq [of "replicate 10 (Some 1)" undefined]
  by simp

theorem push_after_drain_is_lost_witness:
  "\<exists>q1 q2 q3. queue_pop (Some (mk_queue [None, None, Some 7] 2 1 2)) = Done (Some 7, q1)
     \<and> queue_push (Some 8) (Some q1) = Done (Some q2) \<and> queue_pop (Some q2) = Done (None, q3)"
proof -
  have "2 \<le> dq_max_len (mk_queue [None, None, Some 7] 2 1 2)" by simp
  from push_after_drain_is_lost [OF witness_aligned(1) witness_items(1) this, of 8]
  show ?thesis by blast
qed

theorem expand_keeps_contents_witness:
  "\<exists>q'. queue_expand (Some 3) (Some (mk_queue [None, None, Some 7] 2 1 2)) = Done (Some q') \<and> dq_items q' = [7]"
  using expand_keeps_contents [OF witness_aligned(1), of "Some 3"]
  unfolding witness_items by blast

theorem reduce_keeps_contents_witness:
  "\<exists>q'. queue_reduce (Some (mk_queue [None, Some 7, None] 1 1 1)) = Done (Some q') \<and> dq_items q' = [7]"
proof -
  let ?q = "mk_queue [None, Some 7, None] 1 1 1"
  have "dq_len ?q < dq_max_len ?q" "dq_max_len ?q \<noteq> 1"
    "dq_tail ?q < dq_head ?q \<or> dq_tail ?q < dq_max_len ?q - 1" by simp_all
  from reduce_keeps_contents [OF witness_aligned(2) this] show ?thesis
    unfolding witness_items by blast
qed

theorem reduce_loses_last_message_witness:
  "\<exists>q'. queue_reduce (Some (mk_queue [None, None, Some 7] 2 1 2)) = Done (Some q')
     \<and> queue_pop (Some q') = Out_of_bounds"
proof -
  let ?q = "mk_queue [None, None, Some 7] 2 1 2"
  have "0 < dq_len ?q" "dq_len ?q < dq_max_len ?q" "dq_head ?q \<le> dq_tail ?q"
    "dq_tail ?q = dq_max_len ?q - 1" by simp_all
  from reduce_loses_last_message [OF witness_aligned(1) this]
  have "\<exists>q'. queue_reduce (Some ?q) = Done (Some q')
    \<and> (dq_len ?q = 1 \<longrightarrow> queue_pop (Some q') = Out_of_bounds)" by blast
  moreover have "dq_len ?q = 1" by simp
  ultimately show ?thesis by blast
qed

theorem queue_free_frees_messages_witness:
  "dom (snd (queue_free (Some (mk_queue [None, Some 7, None] 1 1 1))
     ((\<lambda>_. Some \<lparr>e_type = 1, e_hash = 0, e_size = 1, e_data = replicate 20 5\<rparr>) |` {7, 9}))) = {9}"
  using queue_free_frees_messages [of "mk_queue [None, Some 7, None] 1 1 1"
      "(\<lambda>_. Some \<lparr>e_type = 1, e_hash = 0, e_size = 1, e_data = replicate 20 5\<rparr>) |` {7, 9}"]
  by (auto simp: dom_def restrict_map_def)

theorem queue_generate_message_bounds_witness:
  "\<exists>e. fst (snd (queue_generate_message (\<lambda>s. (s, s + 1)) 4
      \<lparr>e_type = 0, e_hash = 0, e_size = 0, e_data = replicate 20 0\<rparr> Map.empty (5::nat))) 4 = Some e
    \<and> 1 \<le> unat (e_size e) \<and> unat (e_size e) \<le> 20"
proof -
  let ?g = "queue_generate_message (\<lambda>s. (s, s + 1)) 4
      \<lparr>e_type = 0, e_hash = 0, e_size = 0, e_data = replicate 20 0\<rparr> Map.empty (5::nat)"
  obtain p h' s' where g: "?g = (p, h', s')" by (cases ?g)
  from queue_generate_message_bounds [OF _ g] g show ?thesis by auto
qed

end
