(* ===== verification/Dyn_Queue_52.thy ===== *)
theory Dyn_Queue_52
  imports Dyn_Queue
begin

section \<open>lab5: the queue of the condition-variable version (lab5/5.2/src/queue.c)\<close>

text \<open>
  The second queue has the struct of \<open>Dyn_Queue\<close> and, up to printed texts, the same bodies;
  these are the definitions of \<open>Dyn_Queue\<close> under the name of this file. \<open>queue_reduce\<close>
  differs: it refuses only at capacity 0, not at 1, so this queue can shrink to no slots at
  all. \<open>queue_is_full\<close> and \<open>queue_is_empty\<close> are new.
\<close>

definition queue_init_52 :: "ptr list \<Rightarrow> message_queue_t option \<Rightarrow> message_queue_t option" where
  "queue_init_52 = queue_init"

definition queue_expand_52 :: "ptr \<Rightarrow> message_queue_t option \<Rightarrow> message_queue_t option outcome" where
  "queue_expand_52 = queue_expand"

fun queue_reduce_52 :: "message_queue_t option \<Rightarrow> message_queue_t option outcome" where
  "queue_reduce_52 None = Done None"
| "queue_reduce_52 (Some q) =
     (if dq_len q = dq_max_len q then Done (Some q)
      else if dq_max_len q = 0 then Done (Some q)
      else and_then (reduce_body q) (\<lambda>q. Done (Some q)))"

definition queue_free_52 :: "message_queue_t option \<Rightarrow> heap \<Rightarrow> message_queue_t option \<times> heap" where
  "queue_free_52 = queue_free"

definition queue_push_52 :: "ptr \<Rightarrow> message_queue_t option \<Rightarrow> message_queue_t option outcome" where
  "queue_push_52 = queue_push"

definition queue_pop_52 :: "message_queue_t option \<Rightarrow> (ptr \<times> message_queue_t) outcome" where
  "queue_pop_52 = queue_pop"

definition queue_generate_message_52 ::
  "'r rng \<Rightarrow> addr \<Rightarrow> message_queue_element_t \<Rightarrow> heap \<Rightarrow> 'r \<Rightarrow> ptr \<times> heap \<times> 'r" where
  "queue_generate_message_52 = queue_generate_message"

definition queue_print_52 :: "heap \<Rightarrow> message_queue_t \<Rightarrow> int list \<times> u32 list list" where
  "queue_print_52 = queue_print"

definition queue_is_full :: "message_queue_t \<Rightarrow> bool" where
  "queue_is_full q \<longleftrightarrow> dq_len q = dq_max_len q"

definition queue_is_empty :: "message_queue_t \<Rightarrow> bool" where
  "queue_is_empty q \<longleftrightarrow> dq_len q = 0"

lemmas queue_52_defs = queue_init_52_def queue_expand_52_def queue_free_52_def queue_push_52_def
  queue_pop_52_def queue_generate_message_52_def queue_print_52_def

lemma queue_reduce_52_eq:
  "0 \<le> dq_len q \<Longrightarrow> dq_len q \<le> dq_max_len q \<Longrightarrow> dq_max_len q \<noteq> 1 \<Longrightarrow>
     queue_reduce_52 (Some q) = queue_reduce (Some q)"
  by auto

lemma reduce_body_empty:
  assumes "dq_head q = dq_tail q" "0 < dq_max_len q"
  shows "reduce_body q = Done (q\<lparr>dq_max_len := dq_max_len q - 1,
    dq_messages := take (nat (dq_max_len q - 1)) (dq_messages q)\<rparr>)"
  using assms by (simp add: reduce_body_def)

text \<open>
  Capacity 0 is a state the queue recovers from. Reducing an empty queue of one slot leaves
  no slots; then the queue is both full and empty, every push is refused, every pop returns
  NULL, a further reduction does nothing, and expanding it gives an empty aligned queue of
  capacity 1.
\<close>

theorem capacity_zero_recovers:
  assumes "dq_aligned q" "dq_max_len q = 1" "dq_len q = 0"
  shows "\<exists>q0. queue_reduce_52 (Some q) = Done (Some q0)
    \<and> queue_is_full q0 \<and> queue_is_empty q0
    \<and> queue_push_52 (Some a) (Some q0) = Done (Some q0)
    \<and> queue_pop_52 (Some q0) = Done (None, q0)
    \<and> queue_reduce_52 (Some q0) = Done (Some q0)
    \<and> (\<exists>q1. queue_expand_52 junk (Some q0) = Done (Some q1)
         \<and> dq_aligned q1 \<and> dq_items q1 = [] \<and> dq_max_len q1 = 1)"
proof -
  from assms(1) obtain ms h n where q: "q = mk_queue ms h n (last_slot (length ms) h n)"
    and h: "h < length ms" "n \<le> length ms"
    by (rule aligned_mk)
  have n: "n = 0" "length ms = 1" "h = 0" using assms(2,3) h by (simp_all add: q)
  then have "reduce_body q = Done (mk_queue [] 0 0 0)"
    using reduce_body_empty [of q] by (simp add: q last_slot_def mk_queue_def)
  then have red: "queue_reduce_52 (Some q) = Done (Some (mk_queue [] 0 0 0))"
    using assms(2,3) by simp
  have "queue_expand_52 junk (Some (mk_queue [] 0 0 0)) = Done (Some (mk_queue [None] 0 0 0))"
    by (simp add: queue_expand_52_def write_at_def in_range_def mk_queue_def)
  moreover have "dq_aligned (mk_queue [None] 0 0 0)" using empty_aligned [of 1] by simp
  ultimately show ?thesis
    by (intro exI [of _ "mk_queue [] 0 0 0"] conjI exI [of _ "mk_queue [None] 0 0 0"] red)
      (simp_all add: queue_is_full_def queue_is_empty_def queue_push_52_def queue_pop_52_def dq_items_mk)
qed

text \<open>
  Reducing an empty queue whose head is in the last slot leaves head and tail outside the
  array: the next push writes out of bounds.
\<close>

theorem reduce_empty_then_push_out_of_bounds:
  assumes "dq_aligned q" "dq_len q = 0" "dq_head q = dq_max_len q - 1" "2 \<le> dq_max_len q"
  shows "\<exists>q'. queue_reduce_52 (Some q) = Done (Some q') \<and> queue_reduce (Some q) = Done (Some q')
    \<and> queue_push_52 (Some a) (Some q') = Out_of_bounds"
proof -
  let ?q' = "q\<lparr>dq_max_len := dq_max_len q - 1, dq_messages := take (nat (dq_max_len q - 1)) (dq_messages q)\<rparr>"
  have tail: "dq_tail q = dq_head q" and len: "int (length (dq_messages q)) = dq_max_len q"
    using assms by (simp_all add: dq_aligned_def dq_shape_def)
  have body: "reduce_body q = Done ?q'"
    by (rule reduce_body_empty) (use tail assms(4) in simp_all)
  have "\<not> in_range (dq_tail ?q') (dq_messages ?q')"
    using tail len assms(3,4) by (simp add: in_range_def)
  then have "queue_push_52 (Some a) (Some ?q') = Out_of_bounds"
    using assms by (simp add: queue_push_52_def write_at_def)
  moreover have "queue_reduce_52 (Some q) = Done (Some ?q')" "queue_reduce (Some q) = Done (Some ?q')"
    using body assms by simp_all
  ultimately show ?thesis by blast
qed

theorem capacity_zero_recovers_witness:
  "\<exists>q0 q1. queue_reduce_52 (Some (mk_queue [None] 0 0 0)) = Done (Some q0)
    \<and> queue_push_52 (Some 5) (Some q0) = Done (Some q0)
    \<and> queue_expand_52 (Some 3) (Some q0) = Done (Some q1) \<and> dq_max_len q1 = 1"
proof -
  have "dq_aligned (mk_queue [None] 0 0 0)" "dq_max_len (mk_queue [None] 0 0 0) = 1"
    "dq_len (mk_queue [None] 0 0 0) = 0"
    using empty_aligned [of 1] by simp_all
  from capacity_zero_recovers [OF this, of 5 "Some 3"] show ?thesis by blast
qed

theorem reduce_empty_then_push_out_of_bounds_witness:
  "\<exists>q'. queue_reduce_52 (Some (mk_queue [None, None] 1 0 1)) = Done (Some q')
    \<and> queue_push_52 (Some 5) (Some q') = Out_of_bounds"
proof -
  let ?q = "mk_queue [None, None] 1 0 1"
  have "dq_aligned ?q" by (simp add: mk_queue_aligned last_slot_def occupied_filter upt_rec)
  moreover have "dq_len ?q = 0" "dq_head ?q = dq_max_len ?q - 1" "2 \<le> dq_max_len ?q" by simp_all
  ultimately show ?thesis using reduce_empty_then_push_out_of_bounds [of ?q 5] by blast
qed

end
