(* ===== verification/Lab5_Threads.thy ===== *)
theory Lab5_Threads
  imports Dyn_Queue
begin

section \<open>lab5: producer and consumer threads over semaphores (lab5/5.1/src/main.c)\<close>

text \<open>
  The main thread and the threads it creates, as programs over the shared variables: one
  program location per call that can block or that touches the queue. The critical sections of
  \<open>producers_working_mutex\<close> and \<open>consumers_working_mutex\<close> contain no blocking call and are
  one step each. A thread for which \<open>pthread_cancel\<close> was called may end at \<open>sleep\<close> and
  \<open>sem_wait\<close>, the cancellation points every POSIX system has.
\<close>

abbreviation (input) MAX_THREADS :: int where
  "MAX_THREADS \<equiv> 10"

datatype kind = Producer | Consumer

text \<open>The \<open>opt\<close> and \<open>type\<close> arguments: 1 for producers, -1 for consumers.\<close>

definition kind_of :: "int \<Rightarrow> kind option" where
  "kind_of opt = (if opt = 1 then Some Producer else if opt = -1 then Some Consumer else None)"

datatype tpc = T_Check | T_Sleep | T_Wait | T_Lock | T_Queue | T_Print | T_Unlock | T_Post
  | T_Closing | T_Done

record thread =
  t_kind :: kind
  t_ind :: int
  t_pc :: tpc
  t_data :: ptr
  t_cancel :: bool

record 'r shared =
  free_space_sem :: nat
  items_sem :: nat
  queue_mutex :: bool
  mqueue :: "message_queue_t option"
  mem :: heap
  seed :: 'r
  working :: "kind \<Rightarrow> int list"
  printed :: "u32 list list"

datatype mpc = M_Ready
  | M_ReduceWait | M_ReduceLock | M_Reduce | M_ReduceUnlock
  | M_ExpandLock | M_Expand | M_ExpandUnlock | M_ExpandPost
  | M_Join kind int mpc | M_Count kind int mpc
  | M_CloseAll kind | M_Free | M_Exited

text \<open>What the options l and s print: the state of the queue, and the numbers of threads.\<close>

datatype said = Queue_printed "int list \<times> u32 list list" | Thread_counts int int

record 'r state =
  threads :: "thread list"
  shared :: "'r shared"
  m_pc :: mpc
  count :: "kind \<Rightarrow> int"
  tids :: "kind \<Rightarrow> nat list"
  said :: "said list"

subsection \<open>Initialisation\<close>

text \<open>The results of the five initialisation calls are arguments; a semaphore is a number.\<close>

definition sync_init :: "int list \<Rightarrow> exit_code + (nat \<times> nat \<times> bool)" where
  "sync_init results =
     (if \<exists>r \<in> set results. r \<noteq> 0 then Inl EXIT_FAILURE else Inr (nat QUEUE_BASE_SIZE, 0, False))"

text \<open>\<open>None\<close> as the result of \<open>malloc\<close> is NULL; \<open>fresh\<close> is what the array's memory holds.\<close>

definition message_queue_init ::
  "message_queue_t option \<Rightarrow> ptr list \<Rightarrow> exit_code + message_queue_t option" where
  "message_queue_init allocated fresh =
     (if allocated = None then Inl EXIT_FAILURE else Inr (queue_init fresh allocated))"

text \<open>The state in which \<open>main\<close> enters its loop.\<close>

definition at_main_loop :: "'r state \<Rightarrow> bool" where
  "at_main_loop s \<longleftrightarrow> threads s = [] \<and> m_pc s = M_Ready \<and> count s = (\<lambda>k. 0)
     \<and> (\<forall>k. length (tids s k) = 10)
     \<and> working (shared s) = (\<lambda>k. replicate 10 0) \<and> printed (shared s) = [] \<and> said s = []
     \<and> (\<exists>results. sync_init results =
          Inr (free_space_sem (shared s), items_sem (shared s), queue_mutex (shared s)))
     \<and> (\<exists>q fresh. length fresh = 10
          \<and> message_queue_init (Some q) fresh = Inr (mqueue (shared s)))"

subsection \<open>The threads\<close>

definition jump :: "tpc \<Rightarrow> thread \<Rightarrow> thread" where
  "jump c t = t\<lparr>t_pc := c\<rparr>"

text \<open>\<open>sem_wait\<close> and \<open>pthread_mutex_lock\<close>; \<open>None\<close> is a blocked caller.\<close>

definition sem_wait :: "nat \<Rightarrow> nat option" where
  "sem_wait n = (if n = 0 then None else Some (n - 1))"

definition mutex_lock :: "bool \<Rightarrow> bool option" where
  "mutex_lock held = (if held then None else Some True)"

text \<open>
  \<open>a\<close> is the address \<open>malloc\<close> returns to \<open>queue_generate_message\<close> and \<open>junk\<close> what the
  memory there holds.
\<close>

definition producer_step ::
  "'r rng \<Rightarrow> addr \<Rightarrow> message_queue_element_t \<Rightarrow> thread \<Rightarrow> 'r shared \<Rightarrow> (thread \<times> 'r shared) outcome option" where
  "producer_step rand a junk t sh =
     (case t_pc t of
        T_Check \<Rightarrow>
          Some (Done (jump (if working sh Producer ! nat (t_ind t) = 0 then T_Closing else T_Sleep) t, sh))
      | T_Sleep \<Rightarrow> Some (Done (jump T_Wait t, sh))
      | T_Wait \<Rightarrow>
          map_option (\<lambda>n. Done (jump T_Lock t, sh\<lparr>free_space_sem := n\<rparr>)) (sem_wait (free_space_sem sh))
      | T_Lock \<Rightarrow>
          map_option (\<lambda>m. Done (jump T_Queue t, sh\<lparr>queue_mutex := m\<rparr>)) (mutex_lock (queue_mutex sh))
      | T_Queue \<Rightarrow>
          (let (msg, h, r) = queue_generate_message rand a junk (mem sh) (seed sh)
           in Some (and_then (queue_push msg (mqueue sh))
                (\<lambda>q. Done (jump T_Print t, sh\<lparr>mqueue := q, mem := h, seed := r\<rparr>))))
      | T_Print \<Rightarrow> Some (Done (jump T_Unlock t, sh))
      | T_Unlock \<Rightarrow> Some (Done (jump T_Post t, sh\<lparr>queue_mutex := False\<rparr>))
      | T_Post \<Rightarrow> Some (Done (jump T_Check t, sh\<lparr>items_sem := items_sem sh + 1\<rparr>))
      | T_Closing \<Rightarrow> Some (Done (jump T_Done t, sh))
      | T_Done \<Rightarrow> None)"

definition consumer_step :: "thread \<Rightarrow> 'r shared \<Rightarrow> (thread \<times> 'r shared) outcome option" where
  "consumer_step t sh =
     (case t_pc t of
        T_Check \<Rightarrow>
          Some (Done (jump (if working sh Consumer ! nat (t_ind t) = 0 then T_Closing else T_Sleep) t, sh))
      | T_Sleep \<Rightarrow> Some (Done (jump T_Wait t, sh))
      | T_Wait \<Rightarrow>
          map_option (\<lambda>n. Done (jump T_Lock t, sh\<lparr>items_sem := n\<rparr>)) (sem_wait (items_sem sh))
      | T_Lock \<Rightarrow>
          map_option (\<lambda>m. Done (jump T_Queue t, sh\<lparr>queue_mutex := m\<rparr>)) (mutex_lock (queue_mutex sh))
      | T_Queue \<Rightarrow>
          Some (and_then (queue_pop (mqueue sh))
            (\<lambda>(data, q). Done (jump T_Print (t\<lparr>t_data := data\<rparr>), sh\<lparr>mqueue := Some q\<rparr>)))
      | T_Print \<Rightarrow>
          Some (case t_data t of
             None \<Rightarrow> Done (jump T_Unlock t, sh)
           | Some a \<Rightarrow>
               (case mem sh a of
                  None \<Rightarrow> Out_of_bounds
                | Some e \<Rightarrow>
                    Done (jump T_Unlock (t\<lparr>t_data := None\<rparr>),
                          sh\<lparr>printed := printed sh @ [take (unat (e_size e)) (e_data e)],
                             mem := (mem sh)(a := None)\<rparr>)))
      | T_Unlock \<Rightarrow> Some (Done (jump T_Post t, sh\<lparr>queue_mutex := False\<rparr>))
      | T_Post \<Rightarrow> Some (Done (jump T_Check t, sh\<lparr>free_space_sem := free_space_sem sh + 1\<rparr>))
      | T_Closing \<Rightarrow> Some (Done (jump T_Done t, sh))
      | T_Done \<Rightarrow> None)"

definition thread_step ::
  "'r rng \<Rightarrow> addr \<Rightarrow> message_queue_element_t \<Rightarrow> thread \<Rightarrow> 'r shared \<Rightarrow> (thread \<times> 'r shared) outcome option" where
  "thread_step rand a junk t sh =
     (case t_kind t of Producer \<Rightarrow> producer_step rand a junk t sh | Consumer \<Rightarrow> consumer_step t sh)"

subsection \<open>Creating and closing threads\<close>

text \<open>The loop that looks for the first index whose \<open>working\<close> entry is 0.\<close>

fun free_index :: "int list \<Rightarrow> int" where
  "free_index [] = 0"
| "free_index (w # ws) = (if w \<noteq> 0 then free_index ws + 1 else 0)"

definition new_thread :: "kind \<Rightarrow> int \<Rightarrow> thread" where
  "new_thread k i = \<lparr>t_kind = k, t_ind = i, t_pc = T_Check, t_data = None, t_cancel = False\<rparr>"

definition set_working :: "kind \<Rightarrow> int \<Rightarrow> int \<Rightarrow> 'r state \<Rightarrow> 'r state" where
  "set_working k i v s = s\<lparr>shared := shared s\<lparr>working :=
     (working (shared s))(k := (working (shared s) k)[nat i := v])\<rparr>\<rparr>"

text \<open>\<open>created\<close>: \<open>pthread_create\<close> returned 0.\<close>

definition create_thread :: "int \<Rightarrow> bool \<Rightarrow> 'r state \<Rightarrow> 'r state outcome" where
  "create_thread opt created s =
     (case kind_of opt of
        None \<Rightarrow> Done s
      | Some k \<Rightarrow>
          (if count s k < MAX_THREADS then
             (let i = free_index (working (shared s) k) in
              if \<not> in_range i (working (shared s) k) then Out_of_bounds
              else
                (let s = set_working k i 1 s in
                 if \<not> created then Done (set_working k i 0 s)
                 else Done (s\<lparr>threads := threads s @ [new_thread k i],
                              tids := (tids s)(k := (tids s k)[nat i := length (threads s)]),
                              count := (count s)(k := count s k + 1)\<rparr>)))
           else Done s))"

definition other :: "kind \<Rightarrow> kind" where
  "other k = (case k of Producer \<Rightarrow> Consumer | Consumer \<Rightarrow> Producer)"

text \<open>
  A thread that nobody will wake is cancelled: a producer when there are no consumers and the
  queue is full, a consumer when there are no producers and the queue is empty.
\<close>

definition must_cancel :: "kind \<Rightarrow> 'r state \<Rightarrow> bool" where
  "must_cancel k s \<longleftrightarrow> count s (other k) = 0
     \<and> (case mqueue (shared s) of
          None \<Rightarrow> False
        | Some q \<Rightarrow> (case k of Producer \<Rightarrow> dq_len q = dq_max_len q | Consumer \<Rightarrow> dq_len q = 0))"

definition pthread_cancel :: "nat \<Rightarrow> 'r state \<Rightarrow> 'r state" where
  "pthread_cancel j s = s\<lparr>threads := (threads s)[j := (threads s ! j)\<lparr>t_cancel := True\<rparr>]\<rparr>"

text \<open>
  \<open>close_thread_by_ind\<close> up to \<open>pthread_join\<close>; the join and the decrement of the counter are
  the next two locations, and \<open>ret\<close> is where the call returns to.
\<close>

definition close_thread_by_ind :: "int \<Rightarrow> int \<Rightarrow> mpc \<Rightarrow> 'r state \<Rightarrow> 'r state" where
  "close_thread_by_ind ind opt ret s =
     (case kind_of opt of
        None \<Rightarrow> s\<lparr>m_pc := ret\<rparr>
      | Some k \<Rightarrow>
          (if count s k > 0 \<and> ind \<ge> 0 \<and> ind < MAX_THREADS \<and> working (shared s) k ! nat ind = 1 then
             (let s = (if must_cancel k s then pthread_cancel (tids s k ! nat ind) s else s)
              in (set_working k ind 0 s)\<lparr>m_pc := M_Join k ind ret\<rparr>)
           else s\<lparr>m_pc := ret\<rparr>))"

definition opt_of :: "kind \<Rightarrow> int" where
  "opt_of k = (case k of Producer \<Rightarrow> 1 | Consumer \<Rightarrow> -1)"

text \<open>One round of the loop of \<open>close_all_threads\<close>, and what follows the loop in \<open>cleanup_and_exit\<close>.\<close>

definition close_all_threads :: "kind \<Rightarrow> 'r state \<Rightarrow> 'r state" where
  "close_all_threads k s =
     (if count s k > 0 then close_thread_by_ind (count s k - 1) (opt_of k) (M_CloseAll k) s
      else s\<lparr>m_pc := (case k of Producer \<Rightarrow> M_CloseAll Consumer | Consumer \<Rightarrow> M_Free)\<rparr>)"

definition free_queue :: "'r state \<Rightarrow> 'r state" where
  "free_queue s =
     (case mqueue (shared s) of
        None \<Rightarrow> s
      | Some q \<Rightarrow> s\<lparr>shared := shared s\<lparr>mqueue := None, mem := snd (queue_free (Some q) (mem (shared s)))\<rparr>\<rparr>)"

text \<open>
  \<open>cleanup_and_exit\<close> closes the producers, then the consumers, then frees the queue: the
  locations \<open>M_CloseAll Producer\<close>, \<open>M_CloseAll Consumer\<close> and \<open>M_Free\<close>. \<open>sync_destroy\<close>
  happens with the latter.
\<close>

definition cleanup_and_exit :: "'r state \<Rightarrow> 'r state" where
  "cleanup_and_exit s = s\<lparr>m_pc := M_CloseAll Producer\<rparr>"

subsection \<open>The main thread\<close>

definition print_message_queue :: "'r state \<Rightarrow> 'r state" where
  "print_message_queue s =
     (case mqueue (shared s) of
        None \<Rightarrow> s
      | Some q \<Rightarrow> s\<lparr>said := said s @ [Queue_printed (queue_print (mem (shared s)) q)]\<rparr>)"

definition print_counts :: "'r state \<Rightarrow> 'r state" where
  "print_counts s = s\<lparr>said := said s @ [Thread_counts (count s Producer) (count s Consumer)]\<rparr>"

text \<open>What \<open>main\<close> does with an option it has read.\<close>

definition dispatch :: "string \<Rightarrow> bool \<Rightarrow> 'r state \<Rightarrow> 'r state outcome" where
  "dispatch option created s =
     (if option = ''+'' then create_thread 1 created s
      else if option = ''*'' then create_thread (-1) created s
      else if option = ''-'' then Done (close_thread_by_ind (count s Producer - 1) 1 M_Ready s)
      else if option = ''_'' then Done (close_thread_by_ind (count s Consumer - 1) (-1) M_Ready s)
      else if option = ''l'' then Done (print_message_queue s)
      else if option = ''s'' then Done (print_counts s)
      else if option = ''r'' then
        (if count s Consumer = 0 then Done s else Done (s\<lparr>m_pc := M_ReduceWait\<rparr>))
      else if option = ''e'' then Done (s\<lparr>m_pc := M_ExpandLock\<rparr>)
      else if option = ''q'' then Done (cleanup_and_exit s)
      else Done s)"

definition main_step :: "string \<Rightarrow> bool \<Rightarrow> ptr \<Rightarrow> 'r state \<Rightarrow> 'r state outcome option" where
  "main_step option created junk s =
     (let sh = shared s in
      case m_pc s of
        M_Ready \<Rightarrow> Some (dispatch option created s)
      | M_ReduceWait \<Rightarrow>
          map_option (\<lambda>n. Done (s\<lparr>m_pc := M_ReduceLock, shared := sh\<lparr>free_space_sem := n\<rparr>\<rparr>))
            (sem_wait (free_space_sem sh))
      | M_ReduceLock \<Rightarrow>
          map_option (\<lambda>m. Done (s\<lparr>m_pc := M_Reduce, shared := sh\<lparr>queue_mutex := m\<rparr>\<rparr>))
            (mutex_lock (queue_mutex sh))
      | M_Reduce \<Rightarrow>
          Some (and_then (queue_reduce (mqueue sh))
            (\<lambda>q. Done (s\<lparr>m_pc := M_ReduceUnlock, shared := sh\<lparr>mqueue := q\<rparr>\<rparr>)))
      | M_ReduceUnlock \<Rightarrow>
          Some (Done (s\<lparr>m_pc := M_Ready, shared := sh\<lparr>queue_mutex := False\<rparr>\<rparr>))
      | M_ExpandLock \<Rightarrow>
          map_option (\<lambda>m. Done (s\<lparr>m_pc := M_Expand, shared := sh\<lparr>queue_mutex := m\<rparr>\<rparr>))
            (mutex_lock (queue_mutex sh))
      | M_Expand \<Rightarrow>
          Some (and_then (queue_expand junk (mqueue sh))
            (\<lambda>q. Done (s\<lparr>m_pc := M_ExpandUnlock, shared := sh\<lparr>mqueue := q\<rparr>\<rparr>)))
      | M_ExpandUnlock \<Rightarrow>
          Some (Done (s\<lparr>m_pc := M_ExpandPost, shared := sh\<lparr>queue_mutex := False\<rparr>\<rparr>))
      | M_ExpandPost \<Rightarrow>
          Some (Done (s\<lparr>m_pc := M_Ready, shared := sh\<lparr>free_space_sem := free_space_sem sh + 1\<rparr>\<rparr>))
      | M_Join k ind ret \<Rightarrow>
          (if t_pc (threads s ! (tids s k ! nat ind)) = T_Done
           then Some (Done (s\<lparr>m_pc := M_Count k ind ret\<rparr>)) else None)
      | M_Count k ind ret \<Rightarrow>
          Some (Done (s\<lparr>m_pc := ret, count := (count s)(k := count s k - 1)\<rparr>))
      | M_CloseAll k \<Rightarrow> Some (Done (close_all_threads k s))
      | M_Free \<Rightarrow> Some (Done ((free_queue s)\<lparr>m_pc := M_Exited\<rparr>))
      | M_Exited \<Rightarrow> None)"

subsection \<open>The program\<close>

text \<open>
  A step of the process while it runs: a thread moves, a cancelled thread ends at a
  cancellation point, or the main thread moves, on any option the user may type.
\<close>

inductive sys_step :: "'r rng \<Rightarrow> 'r state \<Rightarrow> 'r state \<Rightarrow> bool" for rand where
  thread: "m_pc s \<noteq> M_Exited \<Longrightarrow> i < length (threads s) \<Longrightarrow> mem (shared s) a = None \<Longrightarrow>
     thread_step rand a junk (threads s ! i) (shared s) = Some (Done (t, sh)) \<Longrightarrow>
     sys_step rand s (s\<lparr>threads := (threads s)[i := t], shared := sh\<rparr>)"
| cancelled: "m_pc s \<noteq> M_Exited \<Longrightarrow> i < length (threads s) \<Longrightarrow> t_cancel (threads s ! i) \<Longrightarrow>
     t_pc (threads s ! i) \<in> {T_Sleep, T_Wait} \<Longrightarrow>
     sys_step rand s (s\<lparr>threads := (threads s)[i := jump T_Done (threads s ! i)]\<rparr>)"
| main: "main_step option created p s = Some (Done s') \<Longrightarrow> sys_step rand s s'"

end
