(* ===== verification/Lab5_Tokens.thy ===== *)
theory Lab5_Tokens
  imports Lab5_Threads
begin

section \<open>lab5 (semaphores): the tokens and the queue counters agree\<close>

text \<open>
  Who is inside the critical section, and which tokens of the two semaphores have been taken
  but not used, or earned but not posted yet. Their sums with the semaphores' values are
  invariant under every step, which is what makes the guards of \<open>queue_push\<close> and
  \<open>queue_pop\<close> superfluous.
\<close>

definition crit :: "thread \<Rightarrow> nat" where
  "crit t = of_bool (t_pc t \<in> {T_Queue, T_Print, T_Unlock})"

definition free_use :: "thread \<Rightarrow> nat" where
  "free_use t = of_bool (case t_kind t of
     Producer \<Rightarrow> t_pc t \<in> {T_Lock, T_Queue} | Consumer \<Rightarrow> t_pc t \<in> {T_Print, T_Unlock, T_Post})"

definition item_use :: "thread \<Rightarrow> nat" where
  "item_use t = of_bool (case t_kind t of
     Producer \<Rightarrow> t_pc t \<in> {T_Print, T_Unlock, T_Post} | Consumer \<Rightarrow> t_pc t \<in> {T_Lock, T_Queue})"

definition main_crit :: "mpc \<Rightarrow> nat" where
  "main_crit c = of_bool (c \<in> {M_Reduce, M_ReduceUnlock, M_Expand, M_ExpandUnlock})"

definition main_free :: "mpc \<Rightarrow> nat" where
  "main_free c = of_bool (c \<in> {M_ReduceLock, M_Reduce, M_ExpandUnlock, M_ExpandPost})"

lemmas token_defs = crit_def free_use_def item_use_def main_crit_def main_free_def

definition mutex_inv :: "'r state \<Rightarrow> bool" where
  "mutex_inv s \<longleftrightarrow>
     of_bool (queue_mutex (shared s)) = tally crit (threads s) + main_crit (m_pc s)"

definition token_inv :: "message_queue_t \<Rightarrow> 'r state \<Rightarrow> bool" where
  "token_inv q s \<longleftrightarrow> mqueue (shared s) = Some q \<and> 0 \<le> dq_len q
     \<and> int (free_space_sem (shared s)) + int (tally free_use (threads s)) + int (main_free (m_pc s))
         + dq_len q \<le> dq_max_len q
     \<and> int (items_sem (shared s)) + int (tally item_use (threads s)) = dq_len q"

definition tok_inv :: "'r state \<Rightarrow> bool" where
  "tok_inv s \<longleftrightarrow> m_pc s \<noteq> M_Exited \<longrightarrow> mutex_inv s \<and> (\<exists>q. token_inv q s)"

subsection \<open>What the queue operations do to the counters\<close>

lemma and_then_Done: "and_then x f = Done y \<longleftrightarrow> (\<exists>z. x = Done z \<and> f z = Done y)"
  by (cases x) auto

lemma and_then_OOB: "and_then x f = Out_of_bounds \<longleftrightarrow> x = Out_of_bounds \<or> (\<exists>z. x = Done z \<and> f z = Out_of_bounds)"
  by (cases x) auto

lemma push_counts:
  assumes "queue_push (Some a) (Some q) = Done (Some q')" "dq_len q < dq_max_len q"
  shows "dq_len q' = dq_len q + 1 \<and> dq_max_len q' = dq_max_len q"
  using assms by (auto simp: and_then_Done Let_def)

lemma push_some: "queue_push p (Some q) = Done q' \<Longrightarrow> \<exists>q''. q' = Some q''"
  by (cases p) (auto simp: and_then_Done Let_def split: if_splits)

lemma pop_counts:
  assumes "queue_pop (Some q) = Done (data, q')" "0 < dq_len q"
  shows "dq_len q' = dq_len q - 1 \<and> dq_max_len q' = dq_max_len q"
  using assms by (auto simp: and_then_Done)

lemma reduce_counts:
  assumes "queue_reduce (Some q) = Done q'"
  shows "\<exists>q''. q' = Some q'' \<and> dq_len q'' = dq_len q \<and> dq_max_len q - 1 \<le> dq_max_len q''"
  using assms by (auto simp: and_then_Done reduce_body_def Let_def split: if_splits)

lemma expand_counts:
  assumes "queue_expand junk (Some q) = Done q'"
  shows "\<exists>q''. q' = Some q'' \<and> dq_len q'' = dq_len q \<and> dq_max_len q'' = dq_max_len q + 1"
  using assms by (auto simp: and_then_Done Let_def split: if_splits)

lemma generate_some:
  "queue_generate_message rand a junk h r = (msg, h', r') \<Longrightarrow> msg = Some a"
  by (auto simp: queue_generate_message_def split_beta Let_def)

subsection \<open>One step of a thread\<close>

definition balanced :: "thread \<Rightarrow> 'r shared \<Rightarrow> message_queue_t \<Rightarrow> thread \<Rightarrow> 'r shared \<Rightarrow> message_queue_t \<Rightarrow> bool" where
  "balanced t sh q t' sh' q' \<longleftrightarrow> mqueue sh' = Some q'
     \<and> of_bool (queue_mutex sh') + crit t = of_bool (queue_mutex sh) + crit t'
     \<and> int (free_space_sem sh') + int (free_use t') + dq_len q' = int (free_space_sem sh) + int (free_use t) + dq_len q
     \<and> int (items_sem sh') + int (item_use t') + dq_len q = int (items_sem sh) + int (item_use t) + dq_len q'
     \<and> 0 \<le> dq_len q' \<and> dq_max_len q' = dq_max_len q
     \<and> t_kind t' = t_kind t \<and> t_ind t' = t_ind t \<and> working sh' = working sh"

lemmas thread_simps = jump_def sem_wait_def mutex_lock_def

lemma producer_balanced:
  assumes st: "producer_step rand a junk t sh = Some (Done (t', sh'))" and k: "t_kind t = Producer"
    and q: "mqueue sh = Some q" "0 \<le> dq_len q"
    and room: "t_pc t = T_Queue \<Longrightarrow> dq_len q < dq_max_len q"
    and mutex: "crit t = 1 \<Longrightarrow> queue_mutex sh"
  shows "\<exists>q'. balanced t sh q t' sh' q'"
proof (cases "t_pc t")
  case T_Queue
  obtain msg h r where g: "queue_generate_message rand a junk (mem sh) (seed sh) = (msg, h, r)"
    by (cases "queue_generate_message rand a junk (mem sh) (seed sh)")
  then have msg: "msg = Some a" by (rule generate_some)
  from st T_Queue g obtain q' where push: "queue_push msg (Some q) = Done q'"
    and res: "t' = jump T_Print t" "sh' = sh\<lparr>mqueue := q', mem := h, seed := r\<rparr>"
    by (auto simp: producer_step_def q and_then_Done simp del: queue_push.simps)
  from push_some [OF push] obtain q'' where q'': "q' = Some q''" by blast
  from push_counts [OF push [unfolded msg q''] room [OF T_Queue]] res q'' T_Queue k q
  show ?thesis
    by (intro exI [of _ q'']) (simp add: balanced_def jump_def token_defs)
qed (use st k q mutex in \<open>auto simp: producer_step_def balanced_def token_defs thread_simps split: if_splits\<close>)

lemma consumer_balanced:
  assumes st: "consumer_step t sh = Some (Done (t', sh'))" and k: "t_kind t = Consumer"
    and q: "mqueue sh = Some q" "0 \<le> dq_len q"
    and item: "t_pc t = T_Queue \<Longrightarrow> 0 < dq_len q"
    and mutex: "crit t = 1 \<Longrightarrow> queue_mutex sh"
  shows "\<exists>q'. balanced t sh q t' sh' q'"
proof (cases "t_pc t")
  case T_Queue
  with st q obtain data q' where pop: "queue_pop (Some q) = Done (data, q')"
    and res: "t' = jump T_Print (t\<lparr>t_data := data\<rparr>)" "sh' = sh\<lparr>mqueue := Some q'\<rparr>"
    by (auto simp: consumer_step_def and_then_Done split_beta simp del: queue_pop.simps)
  from pop_counts [OF pop item [OF T_Queue]] item [OF T_Queue] res T_Queue k q
  show ?thesis
    by (intro exI [of _ q']) (simp add: balanced_def jump_def token_defs)
qed (use st k q mutex in \<open>auto simp: consumer_step_def balanced_def token_defs thread_simps
       split: if_splits option.splits\<close>)

lemma mutex_held:
  assumes "mutex_inv s" "i < length (threads s)" "crit (threads s ! i) = 1"
  shows "queue_mutex (shared s)"
proof (rule ccontr)
  assume "\<not> queue_mutex (shared s)"
  with assms tally_ge [OF assms(2), of crit] show False by (simp add: mutex_inv_def)
qed

lemma producer_has_room:
  assumes "token_inv q s" "i < length (threads s)" "t_kind (threads s ! i) = Producer"
    "t_pc (threads s ! i) = T_Queue"
  shows "dq_len q < dq_max_len q"
proof -
  have "free_use (threads s ! i) = 1" using assms by (simp add: free_use_def)
  with tally_ge [OF assms(2), of free_use] assms(1) show ?thesis by (simp add: token_inv_def)
qed

lemma consumer_has_item:
  assumes "token_inv q s" "i < length (threads s)" "t_kind (threads s ! i) = Consumer"
    "t_pc (threads s ! i) = T_Queue"
  shows "0 < dq_len q"
proof -
  have "item_use (threads s ! i) = 1" using assms by (simp add: item_use_def)
  with tally_ge [OF assms(2), of item_use] assms(1) show ?thesis by (simp add: token_inv_def)
qed

lemma reduce_has_room:
  "token_inv q s \<Longrightarrow> m_pc s = M_Reduce \<Longrightarrow> dq_len q < dq_max_len q"
  by (simp add: token_inv_def main_free_def)

lemma balanced_update:
  assumes i: "i < length (threads s)" and inv: "mutex_inv s" "token_inv q s"
    and b: "balanced (threads s ! i) (shared s) q t sh q'"
  shows "mutex_inv (s\<lparr>threads := (threads s)[i := t], shared := sh\<rparr>)
    \<and> token_inv q' (s\<lparr>threads := (threads s)[i := t], shared := sh\<rparr>)"
proof -
  note bal = b [unfolded balanced_def]
  have "of_bool (queue_mutex sh) = tally crit ((threads s)[i := t]) + main_crit (m_pc s)"
    using bal inv(1) tally_update [OF i, of crit t] unfolding mutex_inv_def by linarith
  moreover have "int (free_space_sem sh) + int (tally free_use ((threads s)[i := t]))
      + int (main_free (m_pc s)) + dq_len q' \<le> dq_max_len q'"
    using bal inv(2) tally_update [OF i, of free_use t] unfolding token_inv_def by linarith
  moreover have "int (items_sem sh) + int (tally item_use ((threads s)[i := t])) = dq_len q'"
    using bal inv(2) tally_update [OF i, of item_use t] unfolding token_inv_def by linarith
  ultimately show ?thesis using bal by (simp add: mutex_inv_def token_inv_def)
qed

lemma thread_balanced:
  assumes "mutex_inv s" "token_inv q s" "i < length (threads s)"
    and "thread_step rand a junk (threads s ! i) (shared s) = Some (Done (t, sh))"
  shows "\<exists>q'. balanced (threads s ! i) (shared s) q t sh q'"
proof -
  have q: "mqueue (shared s) = Some q" "0 \<le> dq_len q" using assms(2) by (simp_all add: token_inv_def)
  show ?thesis
  proof (cases "t_kind (threads s ! i)")
    case Producer
    with assms(4) have "producer_step rand a junk (threads s ! i) (shared s) = Some (Done (t, sh))"
      by (simp add: thread_step_def)
    from producer_balanced [OF this Producer q] producer_has_room [OF assms(2,3) Producer]
      mutex_held [OF assms(1,3)] show ?thesis by blast
  next
    case Consumer
    with assms(4) have "consumer_step (threads s ! i) (shared s) = Some (Done (t, sh))"
      by (simp add: thread_step_def)
    from consumer_balanced [OF this Consumer q] consumer_has_item [OF assms(2,3) Consumer]
      mutex_held [OF assms(1,3)] show ?thesis by blast
  qed
qed

subsection \<open>One step of the main thread\<close>

text \<open>Creating, cancelling and closing threads moves no token.\<close>

fun quiet :: "mpc \<Rightarrow> bool" where
  "quiet M_Ready = True"
| "quiet M_ReduceWait = True"
| "quiet M_ExpandLock = True"
| "quiet (M_CloseAll k) = True"
| "quiet M_Free = True"
| "quiet (M_Join k ind ret) = quiet ret"
| "quiet (M_Count k ind ret) = quiet ret"
| "quiet c = False"

definition pc_ok :: "mpc \<Rightarrow> bool" where
  "pc_ok c \<longleftrightarrow> quiet c \<or> c \<in> {M_ReduceLock, M_Reduce, M_ReduceUnlock, M_Expand, M_ExpandUnlock,
     M_ExpandPost, M_Exited}"

definition same_tokens :: "'r state \<Rightarrow> 'r state \<Rightarrow> bool" where
  "same_tokens s s' \<longleftrightarrow> tally crit (threads s') = tally crit (threads s)
     \<and> tally free_use (threads s') = tally free_use (threads s)
     \<and> tally item_use (threads s') = tally item_use (threads s)
     \<and> free_space_sem (shared s') = free_space_sem (shared s)
     \<and> items_sem (shared s') = items_sem (shared s)
     \<and> queue_mutex (shared s') = queue_mutex (shared s)
     \<and> mqueue (shared s') = mqueue (shared s)"

lemma quiet_tokens: "quiet c \<Longrightarrow> main_crit c = 0 \<and> main_free c = 0"
  by (auto simp: main_crit_def main_free_def elim: quiet.elims)

lemma same_tokens_inv:
  assumes "same_tokens s s'" "quiet (m_pc s)" "quiet (m_pc s')"
  shows "mutex_inv s \<Longrightarrow> mutex_inv s'" and "token_inv q s \<Longrightarrow> token_inv q s'"
  using assms quiet_tokens [OF assms(2)] quiet_tokens [OF assms(3)]
  by (simp_all add: mutex_inv_def token_inv_def same_tokens_def)

lemma same_tokens_refl: "same_tokens s s"
  by (simp add: same_tokens_def)

lemma tally_same:
  "w t = w (ps ! i) \<Longrightarrow> tally w (ps[i := t]) = tally w ps"
  using tally_update [of i ps w t] by (cases "i < length ps") (simp_all add: list_update_beyond)

lemma cancel_tokens: "same_tokens s (pthread_cancel j s)"
  unfolding same_tokens_def pthread_cancel_def
  by (auto intro!: tally_same simp: token_defs split: kind.split)

lemma set_working_tokens: "same_tokens s t \<Longrightarrow> same_tokens s (set_working k i v t)"
  by (simp add: same_tokens_def set_working_def)

lemma pc_tokens: "same_tokens s (t\<lparr>m_pc := c\<rparr>) = same_tokens s t"
  by (simp add: same_tokens_def)

lemma create_tokens:
  assumes "create_thread opt created s = Done s'"
  shows "same_tokens s s' \<and> m_pc s' = m_pc s"
  using assms
  by (auto simp: create_thread_def Let_def same_tokens_def set_working_def new_thread_def token_defs
      split: option.splits if_splits kind.splits)

lemma close_tokens:
  "same_tokens s (close_thread_by_ind ind opt ret s)"
  by (simp add: close_thread_by_ind_def Let_def pc_tokens set_working_tokens cancel_tokens
      same_tokens_refl split: option.splits)

lemma close_pc:
  "m_pc (close_thread_by_ind ind opt ret s) \<in> {ret, M_Join Producer ind ret, M_Join Consumer ind ret}"
  by (auto simp: close_thread_by_ind_def Let_def kind_of_def)

lemma close_quiet: "quiet ret \<Longrightarrow> quiet (m_pc (close_thread_by_ind ind opt ret s))"
  using close_pc [of ind opt ret s] by auto

lemma close_all_tokens: "same_tokens s (close_all_threads k s) \<and> quiet (m_pc (close_all_threads k s))"
  by (auto simp: close_all_threads_def close_tokens pc_tokens same_tokens_refl
      intro!: close_quiet split: kind.splits)

lemma print_only_said:
  assumes "\<And>out. P (Done (s\<lparr>said := out\<rparr>))"
  shows "P (Done (print_message_queue s))" "P (Done (print_counts s))"
  using assms assms [of "said s"] by (simp_all add: print_message_queue_def print_counts_def split: option.split)

lemma said_tokens: "same_tokens s (t\<lparr>said := out\<rparr>) = same_tokens s t"
  by (simp add: same_tokens_def)

lemma dispatch_cases:
  assumes "P (create_thread 1 created s)" "P (create_thread (-1) created s)"
    "P (Done (close_thread_by_ind (count s Producer - 1) (opt_of Producer) M_Ready s))"
    "P (Done (close_thread_by_ind (count s Consumer - 1) (opt_of Consumer) M_Ready s))"
    "P (Done s)" "\<And>out. P (Done (s\<lparr>said := out\<rparr>))" "P (Done (s\<lparr>m_pc := M_ReduceWait\<rparr>))" "P (Done (s\<lparr>m_pc := M_ExpandLock\<rparr>))"
    "P (Done (s\<lparr>m_pc := M_CloseAll Producer\<rparr>))"
  shows "P (dispatch option created s)"
  unfolding dispatch_def using assms print_only_said [of P s]
  unfolding opt_of_def kind.case cleanup_and_exit_def
  by (simp only: if_distrib [of P] if_cancel simp_thms)

lemma dispatch_tokens:
  assumes "dispatch option created s = Done s'" "m_pc s = M_Ready"
  shows "same_tokens s s' \<and> quiet (m_pc s')"
proof -
  have "\<forall>s'. dispatch option created s = Done s' \<longrightarrow> same_tokens s s' \<and> quiet (m_pc s')"
    by (rule dispatch_cases)
      (use assms(2) in \<open>simp_all add: pc_tokens said_tokens same_tokens_refl close_tokens close_quiet create_tokens\<close>)
  with assms(1) show ?thesis by blast
qed

lemma main_holds: "mutex_inv s \<Longrightarrow> main_crit (m_pc s) = 1 \<Longrightarrow> queue_mutex (shared s)"
  by (cases "queue_mutex (shared s)") (simp_all add: mutex_inv_def)

lemma main_pc_tokens [simp]:
  "main_crit M_ReduceWait = 0" "main_crit M_ReduceLock = 0" "main_crit M_Reduce = 1"
  "main_crit M_ReduceUnlock = 1" "main_crit M_Ready = 0" "main_crit M_ExpandLock = 0"
  "main_crit M_Expand = 1" "main_crit M_ExpandUnlock = 1" "main_crit M_ExpandPost = 0"
  "main_free M_ReduceWait = 0" "main_free M_ReduceLock = 1" "main_free M_Reduce = 1"
  "main_free M_ReduceUnlock = 0" "main_free M_Ready = 0" "main_free M_ExpandLock = 0"
  "main_free M_Expand = 0" "main_free M_ExpandUnlock = 1" "main_free M_ExpandPost = 1"
  by (simp_all add: main_crit_def main_free_def)

lemma main_move:
  assumes inv: "mutex_inv s" "token_inv q s"
    and q': "mqueue sh = Some q'" "dq_len q' = dq_len q" "items_sem sh = items_sem (shared s)"
    and mutex: "of_bool (queue_mutex sh) + main_crit (m_pc s) = of_bool (queue_mutex (shared s)) + main_crit c"
    and free: "int (free_space_sem sh) + int (main_free c) - dq_max_len q'
      \<le> int (free_space_sem (shared s)) + int (main_free (m_pc s)) - dq_max_len q"
    and c: "pc_ok c"
  shows "pc_ok (m_pc (s\<lparr>m_pc := c, shared := sh\<rparr>))
    \<and> (m_pc (s\<lparr>m_pc := c, shared := sh\<rparr>) = M_Exited
        \<or> mutex_inv (s\<lparr>m_pc := c, shared := sh\<rparr>) \<and> (\<exists>q'. token_inv q' (s\<lparr>m_pc := c, shared := sh\<rparr>)))"
proof -
  have "of_bool (queue_mutex sh) = tally crit (threads s) + main_crit c"
    using inv(1) mutex unfolding mutex_inv_def by linarith
  moreover have "int (free_space_sem sh) + int (tally free_use (threads s)) + int (main_free c) + dq_len q'
      \<le> dq_max_len q'"
    using inv(2) free q'(2) unfolding token_inv_def by linarith
  moreover have "0 \<le> dq_len q'" "int (items_sem sh) + int (tally item_use (threads s)) = dq_len q'"
    using inv(2) q'(2,3) unfolding token_inv_def by simp_all
  ultimately have "mutex_inv (s\<lparr>m_pc := c, shared := sh\<rparr>)" "token_inv q' (s\<lparr>m_pc := c, shared := sh\<rparr>)"
    using q'(1) by (simp_all add: mutex_inv_def token_inv_def)
  with c show ?thesis by auto
qed

lemma main_keeps_tokens:
  assumes step: "main_step option created p s = Some (Done s')"
    and pc: "pc_ok (m_pc s)" and inv: "mutex_inv s" "token_inv q s"
  shows "pc_ok (m_pc s') \<and> (m_pc s' = M_Exited \<or> mutex_inv s' \<and> (\<exists>q'. token_inv q' s'))"
proof -
  have quiet_case: ?thesis if "same_tokens s s'" "quiet (m_pc s)" "quiet (m_pc s')"
    using same_tokens_inv [OF that] inv that by (auto simp: pc_ok_def)
  have q: "mqueue (shared s) = Some q" using inv by (simp add: token_inv_def)
  note step = step [unfolded main_step_def Let_def]
  note ms = sem_wait_def mutex_lock_def pc_ok_def
  show ?thesis
  proof (cases "m_pc s")
    case M_Ready
    with step dispatch_tokens [of option created s s'] quiet_case show ?thesis by simp
  next
    case (M_CloseAll k)
    with step close_all_tokens [of s k] quiet_case show ?thesis by simp
  next
    case (M_Join k ind ret)
    with step have "s' = s\<lparr>m_pc := M_Count k ind ret\<rparr>" by (simp split: if_splits)
    with quiet_case pc M_Join show ?thesis by (simp add: pc_tokens same_tokens_refl pc_ok_def)
  next
    case (M_Count k ind ret)
    with step have "s' = s\<lparr>m_pc := ret, count := (count s)(k := count s k - 1)\<rparr>" by simp
    with quiet_case pc M_Count show ?thesis by (simp add: same_tokens_def pc_ok_def)
  next
    case M_ReduceWait
    with step have s': "s' = s\<lparr>m_pc := M_ReduceLock, shared := (shared s)\<lparr>free_space_sem := free_space_sem (shared s) - 1\<rparr>\<rparr>"
      "free_space_sem (shared s) \<noteq> 0"
      by (simp_all add: ms split: if_splits)
    show ?thesis unfolding s'(1)
      by (rule main_move [OF inv, where q' = q]) (use s'(2) M_ReduceWait q in \<open>simp_all add: ms\<close>)
  next
    case M_ReduceLock
    with step have s': "s' = s\<lparr>m_pc := M_Reduce, shared := (shared s)\<lparr>queue_mutex := True\<rparr>\<rparr>"
      "\<not> queue_mutex (shared s)"
      by (auto simp add: ms split: if_splits)
    show ?thesis unfolding s'(1)
      by (rule main_move [OF inv, where q' = q]) (use s'(2) M_ReduceLock q in \<open>simp_all add: ms\<close>)
  next
    case M_Reduce
    with step q obtain q1 where red: "queue_reduce (Some q) = Done q1"
      and s': "s' = s\<lparr>m_pc := M_ReduceUnlock, shared := (shared s)\<lparr>mqueue := q1\<rparr>\<rparr>"
      by (auto simp: and_then_Done simp del: queue_reduce.simps)
    from reduce_counts [OF red] obtain q2 where q2: "q1 = Some q2" "dq_len q2 = dq_len q"
      "dq_max_len q - 1 \<le> dq_max_len q2" by blast
    show ?thesis unfolding s'
      by (rule main_move [OF inv, where q' = q2]) (use q2 M_Reduce in \<open>simp_all add: ms\<close>)
  next
    case M_ReduceUnlock
    with step have s': "s' = s\<lparr>m_pc := M_Ready, shared := (shared s)\<lparr>queue_mutex := False\<rparr>\<rparr>" by simp
    show ?thesis unfolding s'
      by (rule main_move [OF inv, where q' = q]) (use main_holds [OF inv(1)] M_ReduceUnlock q in \<open>simp_all add: ms\<close>)
  next
    case M_ExpandLock
    with step have s': "s' = s\<lparr>m_pc := M_Expand, shared := (shared s)\<lparr>queue_mutex := True\<rparr>\<rparr>"
      "\<not> queue_mutex (shared s)"
      by (auto simp add: ms split: if_splits)
    show ?thesis unfolding s'(1)
      by (rule main_move [OF inv, where q' = q]) (use s'(2) M_ExpandLock q in \<open>simp_all add: ms\<close>)
  next
    case M_Expand
    with step q obtain q1 where ex: "queue_expand p (Some q) = Done q1"
      and s': "s' = s\<lparr>m_pc := M_ExpandUnlock, shared := (shared s)\<lparr>mqueue := q1\<rparr>\<rparr>"
      by (auto simp: and_then_Done simp del: queue_expand.simps)
    from expand_counts [OF ex] obtain q2 where q2: "q1 = Some q2" "dq_len q2 = dq_len q"
      "dq_max_len q2 = dq_max_len q + 1" by blast
    show ?thesis unfolding s'
      by (rule main_move [OF inv, where q' = q2]) (use q2 M_Expand in \<open>simp_all add: ms\<close>)
  next
    case M_ExpandUnlock
    with step have s': "s' = s\<lparr>m_pc := M_ExpandPost, shared := (shared s)\<lparr>queue_mutex := False\<rparr>\<rparr>" by simp
    show ?thesis unfolding s'
      by (rule main_move [OF inv, where q' = q]) (use main_holds [OF inv(1)] M_ExpandUnlock q in \<open>simp_all add: ms\<close>)
  next
    case M_ExpandPost
    with step have s': "s' = s\<lparr>m_pc := M_Ready, shared := (shared s)\<lparr>free_space_sem := free_space_sem (shared s) + 1\<rparr>\<rparr>"
      by simp
    show ?thesis unfolding s'
      by (rule main_move [OF inv, where q' = q]) (use M_ExpandPost q in \<open>simp_all add: ms\<close>)
  next
    case M_Free
    with step have "s' = (free_queue s)\<lparr>m_pc := M_Exited\<rparr>" by simp
    then show ?thesis by (simp add: pc_ok_def)
  next
    case M_Exited
    with step show ?thesis by simp
  qed
qed

subsection \<open>The invariant\<close>

lemma start_tokens: "at_main_loop s \<Longrightarrow> tok_inv s \<and> pc_ok (m_pc s)"
  by (auto simp: at_main_loop_def tok_inv_def mutex_inv_def token_inv_def sync_init_def
      message_queue_init_def main_crit_def main_free_def pc_ok_def
      eq_commute [of _ "mqueue (shared s)"] split: if_splits)

lemma idle_tokens:
  "t_pc t \<in> {T_Sleep, T_Wait, T_Done} \<Longrightarrow> crit t = 0 \<and> free_use t = 0 \<and> item_use t = 0"
  by (cases "t_kind t") (auto simp: token_defs)

lemma sys_step_tokens:
  assumes inv: "tok_inv s \<and> pc_ok (m_pc s)" and step: "sys_step rand s s'"
  shows "tok_inv s' \<and> pc_ok (m_pc s')"
  using step
proof cases
  case (thread i a junk t sh)
  with inv obtain q where q: "mutex_inv s" "token_inv q s" by (auto simp: tok_inv_def)
  from thread_balanced [OF q thread(3,5)] obtain q' where "balanced (threads s ! i) (shared s) q t sh q'"
    by blast
  from balanced_update [OF thread(3) q this] thread inv show ?thesis by (auto simp: tok_inv_def)
next
  case (cancelled i)
  with inv obtain q where q: "mutex_inv s" "token_inv q s" by (auto simp: tok_inv_def)
  have "balanced (threads s ! i) (shared s) q (jump T_Done (threads s ! i)) (shared s) q"
  proof -
    have "t_pc (threads s ! i) \<in> {T_Sleep, T_Wait, T_Done}" "t_pc (jump T_Done (threads s ! i)) \<in> {T_Sleep, T_Wait, T_Done}"
      using cancelled(5) by (auto simp: jump_def)
    note this [THEN idle_tokens]
    then show ?thesis using q(2) by (simp add: balanced_def token_inv_def) (simp add: jump_def)
  qed
  from balanced_update [OF cancelled(3) q this] cancelled inv show ?thesis by (auto simp: tok_inv_def)
next
  case (main option created p)
  then have "m_pc s \<noteq> M_Exited" by (auto simp: main_step_def)
  with inv obtain q where q: "mutex_inv s" "token_inv q s" by (auto simp: tok_inv_def)
  from main_keeps_tokens [OF main _ q] inv show ?thesis by (auto simp: tok_inv_def)
qed

interpretation tokens: invariant_system at_main_loop "sys_step rand" "\<lambda>s. tok_inv s \<and> pc_ok (m_pc s)" for rand
  by unfold_locales (erule start_tokens, erule (1) sys_step_tokens)

lemmas reachable_tokens = tokens.inv_reachable

text \<open>
  Mutual exclusion. In every reachable state of the program, at most one of the threads and
  the main thread is between locking and unlocking \<open>queue_mutex\<close>.
\<close>

theorem lab5_mutual_exclusion:
  assumes "at_main_loop s0" "steps (sys_step rand) s0 s" "m_pc s \<noteq> M_Exited"
    and "i < length (threads s)" "crit (threads s ! i) = 1"
  shows "main_crit (m_pc s) = 0 \<and> (\<forall>j < length (threads s). j \<noteq> i \<longrightarrow> crit (threads s ! j) = 0)"
proof -
  have inv: "of_bool (queue_mutex (shared s)) = tally crit (threads s) + main_crit (m_pc s)"
    using reachable_tokens [OF assms(1,2)] assms(3) by (auto simp: tok_inv_def mutex_inv_def)
  have "tally crit (threads s) + main_crit (m_pc s) \<le> 1"
    unfolding inv [symmetric] by simp
  moreover have "crit (threads s ! j) = 0" if "j < length (threads s)" "j \<noteq> i" for j
    using tally_ge_two [OF that(1) assms(4) that(2), of crit] calculation assms(5) by linarith
  ultimately show ?thesis using tally_ge [OF assms(4), of crit] assms(5) by auto
qed


end
