(* ===== verification/Lab5_Pool.thy ===== *)
theory Lab5_Pool
  imports Lab5_Tokens
begin

section \<open>lab5 (semaphores): the arrays of threads and the shutdown\<close>

text \<open>
  The two arrays \<open>producers_working\<close> and \<open>consumers_working\<close> always hold ones followed by
  zeros, and the thread handles below the counters are those of the threads that have not
  finished. So creating a thread never searches past the end of an array, closing the last
  one always finds it, and the shutdown frees the queue only after every thread is gone.
\<close>

definition ones :: "int \<Rightarrow> int list" where
  "ones n = replicate (nat n) 1 @ replicate (nat (10 - n)) 0"

lemma length_ones: "0 \<le> n \<Longrightarrow> n \<le> 10 \<Longrightarrow> length (ones n) = 10"
  by (simp add: ones_def)

lemma nth_ones: "0 \<le> n \<Longrightarrow> n \<le> 10 \<Longrightarrow> i < 10 \<Longrightarrow> ones n ! i = (if int i < n then 1 else 0)"
  by (auto simp: ones_def nth_append)

lemma ones_add: "0 \<le> n \<Longrightarrow> n < 10 \<Longrightarrow> (ones n)[nat n := 1] = ones (n + 1)"
  by (rule nth_equalityI) (auto simp: length_ones nth_ones nth_list_update)

lemma ones_same:
  assumes "0 \<le> n" "n < 10"
  shows "(ones n)[nat n := 0] = ones n"
proof (rule nth_equalityI)
  fix i
  assume "i < length ((ones n)[nat n := 0])"
  then have "i < 10" using assms by (simp add: length_ones)
  then show "(ones n)[nat n := 0] ! i = ones n ! i"
    using assms by (cases "i = nat n") (simp_all add: length_ones nth_ones)
qed simp

lemma ones_remove:
  assumes "0 < n" "n \<le> 10"
  shows "(ones n)[nat (n - 1) := 0] = ones (n - 1)"
proof (rule nth_equalityI)
  fix i
  assume "i < length ((ones n)[nat (n - 1) := 0])"
  then have "i < 10" using assms by (simp add: length_ones)
  then show "(ones n)[nat (n - 1) := 0] ! i = ones (n - 1) ! i"
    using assms by (cases "i = nat (n - 1)") (auto simp add: length_ones nth_ones)
qed (use assms in \<open>simp add: length_ones\<close>)

lemma free_index_ones: "0 \<le> n \<Longrightarrow> n < 10 \<Longrightarrow> free_index (ones n) = n"
proof -
  have "free_index (replicate m 1 @ replicate (Suc j) 0) = int m" for m j
    by (induction m) simp_all
  moreover assume "0 \<le> n" "n < 10"
  moreover then obtain j where "nat (10 - n) = Suc j" by (metis diff_gt_0_iff_gt gr0_implies_Suc zero_less_nat_eq)
  ultimately show ?thesis by (simp add: ones_def)
qed

text \<open>Of the thread being closed, \<open>working\<close> is already 0 while the counter still includes it.\<close>

fun closing :: "mpc \<Rightarrow> (kind \<times> int) option" where
  "closing (M_Join k ind ret) = Some (k, ind)"
| "closing (M_Count k ind ret) = Some (k, ind)"
| "closing c = None"

fun phase :: "mpc \<Rightarrow> kind option" where
  "phase (M_CloseAll k) = Some k"
| "phase (M_Join k ind ret) = phase ret"
| "phase (M_Count k ind ret) = phase ret"
| "phase c = None"

fun ret_ok :: "mpc \<Rightarrow> bool" where
  "ret_ok (M_Join k ind ret) = (ret = M_Ready \<or> ret = M_CloseAll k)"
| "ret_ok (M_Count k ind ret) = (ret = M_Ready \<or> ret = M_CloseAll k)"
| "ret_ok c = True"

definition live :: "'r state \<Rightarrow> kind \<Rightarrow> int" where
  "live s k = count s k - of_bool (map_option fst (closing (m_pc s)) = Some k)"

definition handles_ok :: "'r state \<Rightarrow> kind \<Rightarrow> bool" where
  "handles_ok s k \<longleftrightarrow> (\<forall>i. int i < count s k \<longrightarrow> tids s k ! i < length (threads s)
     \<and> t_kind (threads s ! (tids s k ! i)) = k \<and> t_ind (threads s ! (tids s k ! i)) = int i)"

definition running_listed :: "'r state \<Rightarrow> bool" where
  "running_listed s \<longleftrightarrow> (\<forall>j < length (threads s). t_pc (threads s ! j) \<noteq> T_Done \<longrightarrow>
     (\<exists>i. int i < count s (t_kind (threads s ! j)) \<and> tids s (t_kind (threads s ! j)) ! i = j))"

definition pool_inv :: "'r state \<Rightarrow> bool" where
  "pool_inv s \<longleftrightarrow>
     (\<forall>k. 0 \<le> count s k \<and> count s k \<le> 10 \<and> length (tids s k) = 10
        \<and> working (shared s) k = ones (live s k) \<and> handles_ok s k)
     \<and> running_listed s \<and> ret_ok (m_pc s)
     \<and> (\<forall>k ind. closing (m_pc s) = Some (k, ind) \<longrightarrow> 0 < count s k \<and> ind = count s k - 1)
     \<and> (\<forall>k ind ret. m_pc s = M_Count k ind ret \<longrightarrow> t_pc (threads s ! (tids s k ! nat ind)) = T_Done)
     \<and> (phase (m_pc s) = Some Consumer \<longrightarrow> count s Producer = 0)
     \<and> (m_pc s = M_Free \<longrightarrow> (\<forall>k. count s k = 0))"

lemma pool_invD:
  assumes "pool_inv s"
  shows "0 \<le> count s k" "count s k \<le> 10" "length (tids s k) = 10"
    and "working (shared s) k = ones (live s k)" "handles_ok s k" "running_listed s"
    and "closing (m_pc s) = Some (k, ind) \<Longrightarrow> 0 < count s k \<and> ind = count s k - 1"
    and "m_pc s = M_Count k ind ret \<Longrightarrow> t_pc (threads s ! (tids s k ! nat ind)) = T_Done"
    and "phase (m_pc s) = Some Consumer \<Longrightarrow> count s Producer = 0"
    and "m_pc s = M_Free \<Longrightarrow> count s k = 0" and "ret_ok (m_pc s)"
  using assms unfolding pool_inv_def by blast+

lemma pool_invI:
  assumes "\<And>k. 0 \<le> count s k" "\<And>k. count s k \<le> 10" "\<And>k. length (tids s k) = 10"
    and "\<And>k. working (shared s) k = ones (live s k)" "\<And>k. handles_ok s k" "running_listed s"
    and "\<And>k ind. closing (m_pc s) = Some (k, ind) \<Longrightarrow> 0 < count s k \<and> ind = count s k - 1"
    and "\<And>k ind ret. m_pc s = M_Count k ind ret \<Longrightarrow> t_pc (threads s ! (tids s k ! nat ind)) = T_Done"
    and "phase (m_pc s) = Some Consumer \<Longrightarrow> count s Producer = 0"
    and "\<And>k. m_pc s = M_Free \<Longrightarrow> count s k = 0" "ret_ok (m_pc s)"
  shows "pool_inv s"
  using assms unfolding pool_inv_def by blast

subsection \<open>Steps of the threads\<close>

lemma thread_step_frame:
  assumes "thread_step rand a junk t sh = Some (Done (t', sh'))"
  shows "t_kind t' = t_kind t \<and> t_ind t' = t_ind t \<and> working sh' = working sh \<and> t_pc t \<noteq> T_Done"
proof (cases "t_kind t")
  case Producer
  with assms show ?thesis
    by (auto simp: thread_step_def producer_step_def jump_def and_then_Done split_beta Let_def
        simp del: queue_push.simps split: tpc.splits)
next
  case Consumer
  with assms show ?thesis
    by (auto simp: thread_step_def consumer_step_def jump_def and_then_Done split_beta Let_def
        simp del: queue_pop.simps split: tpc.splits option.splits)
qed

text \<open>A change of one thread that keeps its kind and index, and \<open>T_Done\<close> once reached.\<close>

lemma pool_thread_update:
  assumes inv: "pool_inv s" and i: "i < length (threads s)"
    and t: "t_kind t = t_kind (threads s ! i)" "t_ind t = t_ind (threads s ! i)"
      "t_pc (threads s ! i) = T_Done \<Longrightarrow> t_pc t = T_Done"
    and w: "working sh = working (shared s)"
  shows "pool_inv (s\<lparr>threads := (threads s)[i := t], shared := sh\<rparr>)"
proof -
  let ?s = "s\<lparr>threads := (threads s)[i := t], shared := sh\<rparr>"
  have nth: "t_kind (threads ?s ! j) = t_kind (threads s ! j)" "t_ind (threads ?s ! j) = t_ind (threads s ! j)"
    "t_pc (threads s ! j) = T_Done \<Longrightarrow> t_pc (threads ?s ! j) = T_Done" for j
    using t i by (cases "j = i"; simp)+
  have "handles_ok ?s k" for k
    using pool_invD(5) [OF inv, of k] nth by (simp add: handles_ok_def)
  moreover have "running_listed ?s"
    using pool_invD(6) [OF inv] nth unfolding running_listed_def by (metis length_list_update state.select_convs(1) state.surjective state.update_convs(1,2) state.select_convs(4,5))
  moreover have "live ?s k = live s k" for k by (simp add: live_def)
  ultimately show ?thesis
    using inv w nth(3) unfolding pool_inv_def by simp
qed

subsection \<open>Steps of the main thread\<close>

text \<open>A step that only moves the main thread, or changes the semaphores or the queue.\<close>

lemma pool_frame:
  assumes inv: "pool_inv s"
    and same: "threads s' = threads s" "count s' = count s" "tids s' = tids s"
      "working (shared s') = working (shared s)" "closing (m_pc s') = closing (m_pc s)"
    and dn: "\<And>k ind ret. m_pc s' = M_Count k ind ret \<Longrightarrow> t_pc (threads s ! (tids s k ! nat ind)) = T_Done"
    and phase: "phase (m_pc s') = Some Consumer \<Longrightarrow> count s Producer = 0" "ret_ok (m_pc s')"
      "m_pc s' = M_Free \<Longrightarrow> \<forall>k. count s k = 0"
  shows "pool_inv s'"
proof -
  have "live s' k = live s k" "handles_ok s' k = handles_ok s k" "running_listed s' = running_listed s" for k
    by (simp_all add: live_def handles_ok_def running_listed_def same)
  then show ?thesis
    using inv dn phase unfolding pool_inv_def same by simp
qed

lemma kind_of_Some: "kind_of opt = Some k \<longleftrightarrow> opt = opt_of k"
  by (cases k) (auto simp: kind_of_def opt_of_def)

lemma kind_of_opt_of [simp]: "kind_of (opt_of k) = Some k"
  by (simp add: kind_of_Some)

lemma pool_create:
  assumes inv: "pool_inv s" and pc: "m_pc s = M_Ready" and st: "create_thread opt created s = Done s'"
  shows "pool_inv s'"
proof (cases "kind_of opt")
  case None
  with st inv show ?thesis by (simp add: create_thread_def)
next
  case (Some k)
  show ?thesis
  proof (cases "count s k < 10")
    case False
    with st inv Some show ?thesis by (simp add: create_thread_def)
  next
    case True
    have live: "live s k' = count s k'" for k' by (simp add: live_def pc)
    have w: "working (shared s) k' = ones (count s k')" for k'
      using pool_invD(4) [OF inv, of k'] live by simp
    have i: "free_index (working (shared s) k) = count s k" "in_range (count s k) (working (shared s) k)"
      using True pool_invD(1,2) [OF inv, of k]
      by (simp_all add: w free_index_ones in_range_def length_ones)
    show ?thesis
    proof (cases created)
      case False
      with st True Some i have "s' = set_working k (count s k) 0 (set_working k (count s k) 1 s)"
        by (simp add: create_thread_def Let_def)
      moreover have "(ones (count s k))[nat (count s k) := 0] = working (shared s) k"
        using ones_same True pool_invD(1) [OF inv, of k] by (simp add: w)
      ultimately show ?thesis
        by (intro pool_frame [OF inv]) (simp_all add: set_working_def pc w fun_eq_iff)
    next
      case True
      let ?n = "length (threads s)" and ?c = "count s k"
      have s': "s' = (set_working k ?c 1 s)\<lparr>threads := threads s @ [new_thread k ?c],
          tids := (tids s)(k := (tids s k)[nat ?c := ?n]), count := (count s)(k := ?c + 1)\<rparr>"
        using st True Some i \<open>count s k < 10\<close> by (simp add: create_thread_def Let_def set_working_def)
      have c: "0 \<le> ?c" "?c < 10" "length (tids s k) = 10"
        using \<open>count s k < 10\<close> pool_invD(1,3) [OF inv, of k] by simp_all
      have hs: "handles_ok s' k'" for k'
        unfolding handles_ok_def
      proof (intro allI impI)
        fix i
        assume i: "int i < count s' k'"
        show "tids s' k' ! i < length (threads s') \<and> t_kind (threads s' ! (tids s' k' ! i)) = k'
          \<and> t_ind (threads s' ! (tids s' k' ! i)) = int i"
        proof (cases "k' = k \<and> i = nat ?c")
          case True
          then show ?thesis using c by (simp add: s' new_thread_def)
        next
          case False
          with i c have old: "int i < count s k'" by (auto simp: s' split: if_splits)
          with False have "tids s' k' ! i = tids s k' ! i" by (auto simp: s')
          with old pool_invD(5) [OF inv, of k'] show ?thesis
            by (auto simp: handles_ok_def s' nth_append)
        qed
      qed
      have "running_listed s'"
      proof -
        have "\<exists>i. int i < count s' (t_kind (threads s' ! j)) \<and> tids s' (t_kind (threads s' ! j)) ! i = j"
          if j: "j < length (threads s')" "t_pc (threads s' ! j) \<noteq> T_Done" for j
        proof (cases "j = ?n")
          case True
          then show ?thesis using c by (intro exI [of _ "nat ?c"]) (simp add: s' new_thread_def)
        next
          case False
          with j have j': "j < ?n" "threads s' ! j = threads s ! j" by (auto simp: s' nth_append)
          with j pool_invD(6) [OF inv] obtain i where
            "int i < count s (t_kind (threads s ! j))" "tids s (t_kind (threads s ! j)) ! i = j"
            by (auto simp: running_listed_def)
          then show ?thesis unfolding j'(2) by (intro exI [of _ i]) (auto simp: s')
        qed
        then show ?thesis by (simp add: running_listed_def)
      qed
      moreover have "working (shared s') k' = ones (count s' k')" for k'
        using ones_add [of ?c] c by (simp add: s' set_working_def w)
      moreover have "live s' k' = count s' k'" for k' by (simp add: live_def s' set_working_def pc)
      ultimately show ?thesis
        using inv hs c unfolding pool_inv_def by (auto simp: s' set_working_def pc)
    qed
  qed
qed

lemma pool_cancel: "pool_inv s \<Longrightarrow> pool_inv (pthread_cancel j s)"
proof (cases "j < length (threads s)")
  case True
  assume "pool_inv s"
  from pool_thread_update [OF this True, of "(threads s ! j)\<lparr>t_cancel := True\<rparr>" "shared s"]
  show ?thesis by (simp add: pthread_cancel_def)
next
  case False
  assume "pool_inv s"
  with False show ?thesis by (simp add: pthread_cancel_def list_update_beyond)
qed

lemma pool_goto:
  assumes inv: "pool_inv s" and pc: "closing (m_pc s) = None" "closing c = None" "ret_ok c"
    and phase: "phase c = Some Consumer \<Longrightarrow> count s Producer = 0"
      "c = M_Free \<Longrightarrow> \<forall>k. count s k = 0"
  shows "pool_inv (s\<lparr>m_pc := c\<rparr>)"
  by (rule pool_frame [OF inv]) (use pc phase in auto)

text \<open>Closing the last thread of a kind always finds it.\<close>

lemma close_last:
  assumes inv: "pool_inv s" and pc: "closing (m_pc s) = None" and c: "0 < count s k"
  shows "close_thread_by_ind (count s k - 1) (opt_of k) ret s
    = (set_working k (count s k - 1) 0
         (if must_cancel k s then pthread_cancel (tids s k ! nat (count s k - 1)) s else s))
      \<lparr>m_pc := M_Join k (count s k - 1) ret\<rparr>"
proof -
  have "live s k = count s k" by (simp add: live_def pc)
  then have "working (shared s) k ! nat (count s k - 1) = 1"
    using pool_invD(2,4) [OF inv, of k] c by (simp add: nth_ones)
  then show ?thesis
    using c pool_invD(2) [OF inv, of k] by (simp add: close_thread_by_ind_def Let_def)
qed

lemma pool_close:
  assumes inv: "pool_inv s" and pc: "closing (m_pc s) = None"
    and ret: "ret = M_Ready \<or> ret = M_CloseAll k"
    and phase: "phase ret = Some Consumer \<Longrightarrow> count s Producer = 0"
  shows "pool_inv (close_thread_by_ind (count s k - 1) (opt_of k) ret s)"
proof (cases "0 < count s k")
  case False
  then have "close_thread_by_ind (count s k - 1) (opt_of k) ret s = s\<lparr>m_pc := ret\<rparr>"
    by (simp add: close_thread_by_ind_def)
  with pool_goto [OF inv pc, of ret] ret phase show ?thesis by auto
next
  case True
  define s1 where "s1 = (if must_cancel k s then pthread_cancel (tids s k ! nat (count s k - 1)) s else s)"
  have inv1: "pool_inv s1" using inv pool_cancel [OF inv] by (simp add: s1_def)
  have same: "count s1 = count s" "m_pc s1 = m_pc s" "tids s1 = tids s" by (simp_all add: s1_def pthread_cancel_def)
  let ?s = "(set_working k (count s k - 1) 0 s1)\<lparr>m_pc := M_Join k (count s k - 1) ret\<rparr>"
  have live1: "live s1 k' = count s k'" for k' by (simp add: live_def same pc)
  have live: "live ?s k' = count s k' - of_bool (k' = k)" for k'
    by (auto simp: live_def set_working_def same)
  have "working (shared ?s) k' = ones (live ?s k')" for k'
  proof -
    have "working (shared ?s) k' = (if k' = k then (working (shared s1) k)[nat (count s k - 1) := 0]
      else working (shared s1) k')"
      by (simp add: set_working_def)
    then show ?thesis
      unfolding live using pool_invD(4) [OF inv1] ones_remove [OF True] pool_invD(2) [OF inv, of k] live1 by simp
  qed
  then have w: "\<And>k'. working (shared ?s) k' = ones (live ?s k')" .
  have hs: "handles_ok ?s k'" for k'
    using pool_invD(5) [OF inv1, of k'] by (simp add: handles_ok_def set_working_def)
  have rl: "running_listed ?s"
    using pool_invD(6) [OF inv1] by (simp add: running_listed_def set_working_def)
  have sel: "count ?s = count s" "tids ?s = tids s1" "m_pc ?s = M_Join k (count s k - 1) ret"
    by (simp_all add: set_working_def same)
  have "pool_inv ?s"
    by (rule pool_invI [OF _ _ _ w hs rl], unfold sel)
      (use pool_invD(1-3) [OF inv1] True ret phase same in auto)
  then show ?thesis by (simp add: close_last [OF inv pc True] s1_def)
qed

lemma pool_count:
  assumes inv: "pool_inv s" and pc: "m_pc s = M_Count k ind ret"
  shows "pool_inv (s\<lparr>m_pc := ret, count := (count s)(k := count s k - 1)\<rparr>)"
proof -
  let ?s = "s\<lparr>m_pc := ret, count := (count s)(k := count s k - 1)\<rparr>"
  have ret: "ret = M_Ready \<or> ret = M_CloseAll k" using pool_invD(11) [OF inv] pc by simp
  have k: "0 < count s k" "ind = count s k - 1" using pool_invD(7) [OF inv, of k ind] pc by simp_all
  have dn: "t_pc (threads s ! (tids s k ! nat ind)) = T_Done" using pool_invD(8) [OF inv pc] .
  have closing: "closing ret = None" using ret by auto
  have "live ?s k' = live s k'" for k' by (simp add: live_def pc closing)
  moreover have "handles_ok ?s k'" for k'
    using pool_invD(5) [OF inv, of k'] by (auto simp: handles_ok_def)
  moreover have "running_listed ?s"
    unfolding running_listed_def
  proof (intro allI impI)
    fix j
    assume "j < length (threads ?s)" "t_pc (threads ?s ! j) \<noteq> T_Done"
    with pool_invD(6) [OF inv] obtain i where
      i: "int i < count s (t_kind (threads s ! j))" "tids s (t_kind (threads s ! j)) ! i = j"
      by (auto simp: running_listed_def)
    have "i \<noteq> nat ind" if "t_kind (threads s ! j) = k"
      using dn i that \<open>t_pc (threads ?s ! j) \<noteq> T_Done\<close> by auto
    then have "int i < count ?s (t_kind (threads ?s ! j))"
      using i(1) k by (cases "t_kind (threads s ! j) = k") auto
    moreover have "tids ?s (t_kind (threads ?s ! j)) ! i = j" using i(2) by simp
    ultimately show "\<exists>i. int i < count ?s (t_kind (threads ?s ! j)) \<and> tids ?s (t_kind (threads ?s ! j)) ! i = j"
      by blast
  qed
  moreover have "0 \<le> count ?s k'" "count ?s k' \<le> 10" for k'
    using pool_invD(1,2) [OF inv, of k'] k(1) by auto
  moreover have "count ?s Producer = 0" if "phase ret = Some Consumer"
    using that ret pool_invD(9) [OF inv] pc k by auto
  ultimately show ?thesis
    using pool_invD(3,4) [OF inv] ret by (intro pool_invI) auto
qed

lemma pool_dispatch:
  assumes inv: "pool_inv s" and pc: "m_pc s = M_Ready" and st: "dispatch option created s = Done s'"
  shows "pool_inv s'"
proof -
  have closing: "closing (m_pc s) = None" by (simp add: pc)
  note go = pool_goto [OF inv closing, of M_ReduceWait] pool_goto [OF inv closing, of M_ExpandLock]
    pool_goto [OF inv closing, of "M_CloseAll Producer"]
  note close = pool_close [OF inv closing, of M_Ready]
  have out: "pool_inv (s\<lparr>said := out\<rparr>)" for out
    by (rule pool_frame [OF inv]) (simp_all add: pc)
  have "\<forall>s'. dispatch option created s = Done s' \<longrightarrow> pool_inv s'"
    by (rule dispatch_cases) (use inv pool_create [OF inv pc] go close out in simp_all)
  with st show ?thesis by blast
qed

lemma pool_main:
  assumes inv: "pool_inv s" and st: "main_step option created p s = Some (Done s')"
  shows "pool_inv s'"
proof (cases "m_pc s")
  case M_Ready
  with st pool_dispatch [OF inv] show ?thesis by (simp add: main_step_def)
next
  case (M_Join k ind ret)
  with st have "s' = s\<lparr>m_pc := M_Count k ind ret\<rparr>" "t_pc (threads s ! (tids s k ! nat ind)) = T_Done"
    by (auto simp: main_step_def split: if_splits)
  with M_Join pool_invD(9,11) [OF inv] show ?thesis by (intro pool_frame [OF inv]) auto
next
  case (M_Count k ind ret)
  with st pool_count [OF inv] show ?thesis by (simp add: main_step_def)
next
  case (M_CloseAll k)
  have closing: "closing (m_pc s) = None" by (simp add: M_CloseAll)
  from M_CloseAll st have s': "s' = close_all_threads k s" by (simp add: main_step_def)
  show ?thesis
  proof (cases "count s k > 0")
    case True
    with pool_close [OF inv closing, of "M_CloseAll k" k] pool_invD(9) [OF inv] M_CloseAll show ?thesis
      by (simp add: s' close_all_threads_def)
  next
    case False
    then have "count s k = 0" using pool_invD(1) [OF inv, of k] by simp
    moreover have "\<forall>k'. count s k' = 0" if "k = Consumer"
      using calculation that pool_invD(9) [OF inv] M_CloseAll by (metis kind.exhaust phase.simps(1))
    ultimately show ?thesis
      using False pool_goto [OF inv closing, of "M_CloseAll Consumer"] pool_goto [OF inv closing, of M_Free]
      by (cases k) (simp_all add: s' close_all_threads_def)
  qed
next
  case M_Free
  with st have s': "s' = (free_queue s)\<lparr>m_pc := M_Exited\<rparr>" by (simp add: main_step_def)
  show ?thesis
    by (rule pool_frame [OF inv]) (simp_all add: s' M_Free free_queue_def split: option.splits)
qed (use st in \<open>auto intro!: pool_frame [OF inv] simp: main_step_def Let_def and_then_Done\<close>)

subsection \<open>Theorems\<close>

lemma start_pool: "at_main_loop s \<Longrightarrow> pool_inv s"
  by (rule pool_invI) (auto simp: at_main_loop_def live_def ones_def handles_ok_def running_listed_def)

lemma sys_step_pool:
  assumes inv: "pool_inv s" and step: "sys_step rand s s'"
  shows "pool_inv s'"
  using step
proof cases
  case (thread i a junk t sh)
  with thread_step_frame [OF thread(5)] show ?thesis
    unfolding thread(1) by (intro pool_thread_update [OF inv thread(3)]) auto
next
  case (cancelled i)
  from pool_thread_update [OF inv cancelled(3), of "jump T_Done (threads s ! i)" "shared s"]
  show ?thesis unfolding cancelled(1) by (simp add: jump_def)
next
  case (main option created p)
  then show ?thesis by (rule pool_main [OF inv])
qed

interpretation pool: invariant_system at_main_loop "sys_step rand" pool_inv for rand
  by unfold_locales (erule start_pool, erule (1) sys_step_pool)

lemmas reachable_pool = pool.inv_reachable



end
