(* ===== verification/Lab5_Runs.thy ===== *)
theory Lab5_Runs
  imports Lab5_Pool
begin

section \<open>lab5 (semaphores): runs of the program\<close>

text \<open>
  Schedules as executable functions, the concrete states they reach, and the theorems that
  rest on such a run.
\<close>

datatype act = Thread nat addr | Cancel nat | Main string

definition blank :: message_queue_element_t where
  "blank = \<lparr>e_type = 0, e_hash = 0, e_size = 0, e_data = replicate 20 0\<rparr>"

fun act_step :: "'r rng \<Rightarrow> act \<Rightarrow> 'r state \<Rightarrow> 'r state option" where
  "act_step rand (Thread i a) s =
     (if m_pc s \<noteq> M_Exited \<and> i < length (threads s) \<and> mem (shared s) a = None
      then (case thread_step rand a blank (threads s ! i) (shared s) of
              Some (Done (t, sh)) \<Rightarrow> Some (s\<lparr>threads := (threads s)[i := t], shared := sh\<rparr>)
            | _ \<Rightarrow> None)
      else None)"
| "act_step rand (Cancel i) s =
     (if m_pc s \<noteq> M_Exited \<and> i < length (threads s) \<and> t_cancel (threads s ! i)
         \<and> (t_pc (threads s ! i) = T_Sleep \<or> t_pc (threads s ! i) = T_Wait)
      then Some (s\<lparr>threads := (threads s)[i := jump T_Done (threads s ! i)]\<rparr>)
      else None)"
| "act_step rand (Main opt) s =
     (case main_step opt True None s of Some (Done s') \<Rightarrow> Some s' | _ \<Rightarrow> None)"

lemma act_step_sound: "act_step rand a s = Some s' \<Longrightarrow> sys_step rand s s'"
  by (cases a)
    (auto split: if_splits option.splits outcome.splits prod.splits intro: sys_step.intros)

interpretation sem_runs: executable_steps "sys_step rand" "act_step rand" for rand
  by unfold_locales (rule act_step_sound)

text \<open>The state \<open>main\<close> enters its loop with, over a memory that holds nothing.\<close>

definition fresh_state :: "'r \<Rightarrow> 'r state" where
  "fresh_state r = \<lparr>threads = [],
     shared = \<lparr>free_space_sem = 10, items_sem = 0, queue_mutex = False,
       mqueue = Some (mk_queue (replicate 10 None) 0 0 0), mem = Map.empty, seed = r,
       working = (\<lambda>k. replicate 10 0), printed = []\<rparr>,
     m_pc = M_Ready, count = (\<lambda>k. 0), tids = (\<lambda>k. replicate 10 0), said = []\<rparr>"

lemma fresh_state_start: "at_main_loop (fresh_state r)"
proof -
  have "sync_init [] = Inr (10, 0, False)" by (simp add: sync_init_def)
  moreover have "message_queue_init (Some (mk_queue [] 0 0 0)) (replicate 10 None)
      = Inr (Some (mk_queue (replicate 10 None) 0 0 0))"
    by (simp add: message_queue_init_def queue_init_eq del: queue_init.simps)
  ultimately show ?thesis
    unfolding at_main_loop_def fresh_state_def
    by (intro conjI exI [of _ "[]"] exI [of _ "mk_queue [] 0 0 0"] exI [of _ "replicate 10 None"]) simp_all
qed

lemmas run_from_fresh = sem_runs.run_all_reaches [where s = "fresh_state r" for r]

subsection \<open>A join that never returns\<close>

lemma blocked_forever:
  assumes pc: "m_pc s = M_Join k ind ret" "t_pc (threads s ! (tids s k ! nat ind)) \<noteq> T_Done"
    and none: "items_sem (shared s) = 0"
    and th: "\<forall>t \<in> set (threads s). t_pc t = T_Done \<or>
      t_pc t = T_Wait \<and> t_kind t = Consumer \<and> \<not> t_cancel t"
  shows "\<not> sys_step rand s s'"
proof
  assume "sys_step rand s s'"
  then show False
  proof cases
    case (thread i a junk t sh)
    with th have "t_pc (threads s ! i) = T_Done \<or> t_pc (threads s ! i) = T_Wait \<and> t_kind (threads s ! i) = Consumer"
      by auto
    with thread(5) none show False
      by (cases "t_kind (threads s ! i)")
        (auto simp: thread_step_def producer_step_def consumer_step_def sem_wait_def)
  next
    case (cancelled i)
    then have "threads s ! i \<in> set (threads s)" by simp
    with th cancelled show False by fastforce
  next
    case (main option created p)
    with pc show False by (simp add: main_step_def)
  qed
qed

text \<open>
  One producer and two consumers wait for work; the producer pushes one message and is closed;
  then the last consumer is closed while the message is still in the queue, and the other
  consumer takes it.
\<close>

definition close_race :: "act list" where
  "close_race = map Main [''+'', ''*'', ''*''] @ [Thread 1 0, Thread 1 0, Thread 2 0, Thread 2 0]
     @ map (Thread 0) [0..<8] @ [Main ''-'', Thread 0 0, Thread 0 0, Main '''', Main '''', Main ''_'']
     @ replicate 8 (Thread 1 9)"

text \<open>
  C29. Closing a thread can hang the program. \<open>close_thread_by_ind\<close> cancels a consumer only if
  the queue is empty at that moment. If it still holds a message that another consumer then
  takes, the consumer to be closed waits for ever, \<open>pthread_join\<close> never returns, and no
  thread of the program can move.
\<close>

theorem lab5_close_deadlock:
  "\<exists>s0 s. at_main_loop s0 \<and> steps (sys_step (\<lambda>r :: nat. (0, r))) s0 s
     \<and> m_pc s = M_Join Consumer 1 M_Ready \<and> (\<forall>s'. \<not> sys_step (\<lambda>r. (0, r)) s s')"
proof -
  let ?P = "\<lambda>s. m_pc s = M_Join Consumer 1 M_Ready \<and> map t_pc (threads s) = [T_Done, T_Wait, T_Wait]
    \<and> map t_kind (threads s) = [Producer, Consumer, Consumer]
    \<and> map t_cancel (threads s) = [False, False, False]
    \<and> items_sem (shared s) = 0 \<and> tids s Consumer ! 1 = 2"
  have "case run_all (act_step (\<lambda>r. (0, r))) close_race (fresh_state (0 :: nat)) of None \<Rightarrow> False | Some s \<Rightarrow> ?P s"
    by code_simp
  then obtain s where s: "steps (sys_step (\<lambda>r. (0, r))) (fresh_state (0 :: nat)) s" "?P s"
    by (rule run_from_fresh)
  then obtain a b c where "threads s = [a, b, c]" "t_pc a = T_Done" "t_pc b = T_Wait" "t_pc c = T_Wait"
    "t_kind b = Consumer" "t_kind c = Consumer" "\<not> t_cancel b" "\<not> t_cancel c"
    by (auto simp: map_eq_Cons_conv)
  with s(2) have "\<not> sys_step (\<lambda>r. (0, r)) s s'" for s'
    by (intro blocked_forever [of s Consumer 1 M_Ready]) (auto simp: numeral_2_eq_2)
  with s fresh_state_start [of 0] show ?thesis by blast
qed

subsection \<open>A reduction that only takes a token\<close>

text \<open>
  Reducing a queue of capacity 1 loses its last free-space token: \<open>main\<close> has taken one with
  \<open>sem_wait\<close>, \<open>queue_reduce\<close> refuses, and nothing posts it back. The queue has a free slot, the
  semaphore is 0, and no thread holds or owes a token, so every producer blocks until the user
  expands the queue.
\<close>

theorem reduce_at_capacity_one_leaks_token:
  assumes "at_main_loop s0" "steps (sys_step rand) s0 s" "m_pc s = M_Reduce"
    and "mqueue (shared s) = Some q" "dq_max_len q = 1"
  shows "\<exists>s'. main_step option created p s = Some (Done s') \<and> mqueue (shared s') = Some q
    \<and> dq_len q = 0 \<and> free_space_sem (shared s') = 0 \<and> main_free (m_pc s') = 0
    \<and> (\<forall>t \<in> set (threads s'). free_use t = 0)"
proof -
  obtain q' where q': "token_inv q' s"
    using reachable_tokens [OF assms(1,2)] assms(3) by (auto simp: tok_inv_def)
  with assms(4) have q: "token_inv q s" by (simp add: token_inv_def)
  then have zero: "dq_len q = 0" "free_space_sem (shared s) = 0" "tally free_use (threads s) = 0"
    using assms(3,5) by (simp_all add: token_inv_def)
  have "main_step option created p s
      = Some (Done (s\<lparr>m_pc := M_ReduceUnlock, shared := (shared s)\<lparr>mqueue := Some q\<rparr>\<rparr>))"
    using assms(3-5) zero by (simp add: main_step_def)
  moreover have "\<forall>t \<in> set (threads s). free_use t = 0"
    using zero(3) by (simp add: tally_def)
  ultimately show ?thesis using zero by auto
qed

subsection \<open>An interrupted shutdown\<close>

text \<open>
  The handler of SIGINT calls \<open>cleanup_and_exit\<close> on top of whatever the main thread was doing
  (a signal delivered to another thread is not modelled).
\<close>

definition termination_handler :: "'r state \<Rightarrow> 'r state" where
  "termination_handler s = cleanup_and_exit s"

text \<open>
  SIGINT while the main thread joins a producer makes the program loop for ever. The
  producer's \<open>working\<close> entry is already 0 but the counter still includes it, so each round of
  \<open>close_all_threads\<close> finds nothing to close and changes nothing.
\<close>

theorem sigint_during_join_loops:
  assumes "at_main_loop s0" "steps (sys_step rand) s0 s" "m_pc s = M_Join Producer ind ret"
  shows "main_step option created p (termination_handler s) = Some (Done (termination_handler s))"
proof -
  note inv = reachable_pool [OF assms(1,2)]
  have c: "0 < count s Producer" "count s Producer \<le> 10"
    using pool_invD(7) [OF inv, of Producer ind] pool_invD(2) [OF inv, of Producer] assms(3) by auto
  have "live s Producer = count s Producer - 1" by (simp add: live_def assms(3))
  then have "working (shared s) Producer ! nat (count s Producer - 1) = 0"
    using pool_invD(4) [OF inv, of Producer] c by (simp add: nth_ones)
  with c show ?thesis
    by (simp add: main_step_def termination_handler_def cleanup_and_exit_def close_all_threads_def close_thread_by_ind_def)
qed

subsection \<open>Witnesses\<close>

theorem lab5_mutual_exclusion_witness:
  "\<exists>s. steps (sys_step (\<lambda>r :: nat. (0, r))) (fresh_state 0) s \<and> crit (threads s ! 0) = 1
     \<and> main_crit (m_pc s) = 0"
proof -
  let ?P = "\<lambda>s. m_pc s = M_ExpandLock \<and> length (threads s) = 1 \<and> crit (threads s ! 0) = 1"
  have "case run_all (act_step (\<lambda>r. (0, r))) ([Main ''+'', Thread 0 0, Thread 0 0, Thread 0 0, Thread 0 0, Main ''e''])
      (fresh_state (0 :: nat)) of None \<Rightarrow> False | Some s \<Rightarrow> ?P s"
    by code_simp
  then obtain s where s: "steps (sys_step (\<lambda>r. (0, r))) (fresh_state (0 :: nat)) s" "?P s"
    by (rule run_from_fresh)
  with lab5_mutual_exclusion [OF fresh_state_start s(1), of 0] show ?thesis by auto
qed




theorem reduce_at_capacity_one_leaks_token_witness:
  "\<exists>s s'. steps (sys_step (\<lambda>r :: nat. (0, r))) (fresh_state 0) s
     \<and> main_step '''' True None s = Some (Done s') \<and> free_space_sem (shared s') = 0"
proof -
  let ?P = "\<lambda>s. m_pc s = M_Reduce \<and> map_option dq_max_len (mqueue (shared s)) = Some 1"
  have "case run_all (act_step (\<lambda>r. (0, r))) (Main ''*'' # concat (replicate 9 (Main ''r'' # replicate 4 (Main '''')))
        @ map Main [''r'', '''', ''''])
      (fresh_state (0 :: nat)) of None \<Rightarrow> False | Some s \<Rightarrow> ?P s"
    by code_simp
  then obtain s where s: "steps (sys_step (\<lambda>r. (0, r))) (fresh_state (0 :: nat)) s" "?P s"
    by (rule run_from_fresh)
  then obtain q where "mqueue (shared s) = Some q" "dq_max_len q = 1" by auto
  from reduce_at_capacity_one_leaks_token [OF fresh_state_start s(1) _ this, of "''''" True None] s
  show ?thesis by blast
qed

theorem sigint_during_join_loops_witness:
  "\<exists>s. steps (sys_step (\<lambda>r :: nat. (0, r))) (fresh_state 0) s
     \<and> main_step '''' True None (termination_handler s) = Some (Done (termination_handler s))"
proof -
  let ?P = "\<lambda>s. m_pc s = M_Join Producer 0 M_Ready"
  have "case run_all (act_step (\<lambda>r. (0, r))) (map Main [''+'', ''-''])
      (fresh_state (0 :: nat)) of None \<Rightarrow> False | Some s \<Rightarrow> ?P s"
    by code_simp
  then obtain s where s: "steps (sys_step (\<lambda>r. (0, r))) (fresh_state (0 :: nat)) s" "?P s"
    by (rule run_from_fresh)
  with sigint_during_join_loops [OF fresh_state_start s(1)] show ?thesis by blast
qed

end
