(* ===== verification/Lab5_Liveness.thy ===== *)
theory Lab5_Liveness
  imports Lab5_Runs
begin

section \<open>lab5 (semaphores): nobody waits in vain\<close>

text \<open>
  The sums of Lab5_Tokens are an inequality only because of one command: a reduction of a queue of
  one slot takes a token and gives nothing back. Without it the sum is exact, the capacity stays
  positive, and a producer and a consumer are never both blocked. With it they are.
\<close>

subsection \<open>The exact sum\<close>

text \<open>A step that is not the reduction of a queue of one slot.\<close>

definition last_slot :: "'r state \<Rightarrow> bool" where
  "last_slot s \<longleftrightarrow> m_pc s = M_Reduce \<and> map_option dq_max_len (mqueue (shared s)) = Some 1"

definition careful_step :: "'r rng \<Rightarrow> 'r state \<Rightarrow> 'r state \<Rightarrow> bool" where
  "careful_step rand s s' \<longleftrightarrow> sys_step rand s s' \<and> \<not> last_slot s"

text \<open>Free tokens, tokens in use, messages; and the capacity that should be their sum.\<close>

definition slots :: "'r state \<Rightarrow> message_queue_t \<Rightarrow> int" where
  "slots s q = int (free_space_sem (shared s)) + int (tally free_use (threads s)) + int (main_free (m_pc s)) + dq_len q"

definition exact :: "'r state \<Rightarrow> bool" where
  "exact s \<longleftrightarrow> m_pc s \<noteq> M_Exited \<longrightarrow>
     (\<exists>q. mqueue (shared s) = Some q \<and> slots s q = dq_max_len q \<and> 0 < dq_max_len q)"

lemma exactE:
  assumes "exact s" "mqueue (shared s) = Some q" "m_pc s \<noteq> M_Exited"
  shows "slots s q = dq_max_len q" "0 < dq_max_len q"
  using assms by (auto simp: exact_def)

lemma exactI:
  assumes "mqueue (shared s) = Some q" "slots s q = dq_max_len q" "0 < dq_max_len q"
  shows "exact s"
  using assms by (auto simp: exact_def)

lemma reduce_counts_exact:
  assumes "queue_reduce (Some q) = Done q'" "dq_len q < dq_max_len q" "dq_max_len q \<noteq> 1"
  shows "\<exists>q''. q' = Some q'' \<and> dq_len q'' = dq_len q \<and> dq_max_len q'' = dq_max_len q - 1"
  using assms by (auto simp: and_then_Done reduce_body_def Let_def split: if_splits)

lemma exact_balanced:
  assumes "exact s" "mqueue (shared s) = Some q" "i < length (threads s)" "m_pc s \<noteq> M_Exited"
    and b: "balanced (threads s ! i) (shared s) q t sh q'"
  shows "exact (s\<lparr>threads := (threads s)[i := t], shared := sh\<rparr>)"
proof (rule exactI [where q = q'])
  note bal = b [unfolded balanced_def]
  show "mqueue (shared (s\<lparr>threads := (threads s)[i := t], shared := sh\<rparr>)) = Some q'"
    and "0 < dq_max_len q'"
    using bal exactE(2) [OF assms(1,2,4)] by simp_all
  show "slots (s\<lparr>threads := (threads s)[i := t], shared := sh\<rparr>) q' = dq_max_len q'"
    using bal exactE(1) [OF assms(1,2,4)] tally_update [OF assms(3), of free_use t]
    by (simp add: slots_def)
qed

lemma exact_same:
  assumes "exact s" "same_tokens s s'" "quiet (m_pc s)" "quiet (m_pc s')"
  shows "exact s'"
proof -
  have "m_pc s \<noteq> M_Exited" using assms(3) by auto
  with assms quiet_tokens [OF assms(3)] quiet_tokens [OF assms(4)] show ?thesis
    by (auto simp: exact_def slots_def same_tokens_def)
qed

lemma exact_move:
  assumes "exact s" "mqueue (shared s) = Some q" "m_pc s \<noteq> M_Exited"
    and "mqueue sh = Some q'" "dq_len q' = dq_len q" "0 < dq_max_len q'"
    and "int (free_space_sem sh) + int (main_free c) - dq_max_len q'
      = int (free_space_sem (shared s)) + int (main_free (m_pc s)) - dq_max_len q"
  shows "exact (s\<lparr>m_pc := c, shared := sh\<rparr>)"
  using assms(4-7) exactE(1) [OF assms(1-3)]
  by (intro exactI [where q = q']) (simp_all add: slots_def)

text \<open>The main thread: every step but the excluded one keeps the sum.\<close>

lemma main_exact:
  assumes step: "main_step option created p s = Some (Done s')"
    and pc: "pc_ok (m_pc s)" and inv: "token_inv q s" "exact s" and careful: "\<not> last_slot s"
  shows "exact s'"
proof -
  have q: "mqueue (shared s) = Some q" using inv by (simp add: token_inv_def)
  have run: "m_pc s \<noteq> M_Exited" using step by (auto simp: main_step_def)
  note move = exact_move [OF inv(2) q run] and cap = exactE(2) [OF inv(2) q run]
  note step = step [unfolded main_step_def Let_def]
  show ?thesis
  proof (cases "m_pc s")
    case M_Ready
    with step dispatch_tokens [of option created s s'] exact_same [OF inv(2)] show ?thesis by simp
  next
    case (M_CloseAll k)
    with step close_all_tokens [of s k] exact_same [OF inv(2)] show ?thesis by simp
  next
    case (M_Join k ind ret)
    with step have "s' = s\<lparr>m_pc := M_Count k ind ret\<rparr>" by (simp split: if_splits)
    with exact_same [OF inv(2), of s'] pc M_Join show ?thesis
      by (simp add: pc_tokens same_tokens_refl pc_ok_def)
  next
    case (M_Count k ind ret)
    with step have "s' = s\<lparr>m_pc := ret, count := (count s)(k := count s k - 1)\<rparr>" by simp
    with exact_same [OF inv(2), of s'] pc M_Count show ?thesis by (simp add: same_tokens_def pc_ok_def)
  next
    case M_Reduce
    with step q obtain q1 where red: "queue_reduce (Some q) = Done q1"
      and s': "s' = s\<lparr>m_pc := M_ReduceUnlock, shared := (shared s)\<lparr>mqueue := q1\<rparr>\<rparr>"
      by (auto simp: and_then_Done simp del: queue_reduce.simps)
    have "dq_max_len q \<noteq> 1" using careful M_Reduce q by (simp add: last_slot_def)
    with reduce_counts_exact [OF red reduce_has_room [OF inv(1) M_Reduce]] obtain q2 where
      q2: "q1 = Some q2" "dq_len q2 = dq_len q" "dq_max_len q2 = dq_max_len q - 1" by blast
    show ?thesis unfolding s'
      by (rule move [where q' = q2]) (use q2 M_Reduce cap \<open>dq_max_len q \<noteq> 1\<close> in simp_all)
  next
    case M_Expand
    with step q obtain q1 where ex: "queue_expand p (Some q) = Done q1"
      and s': "s' = s\<lparr>m_pc := M_ExpandUnlock, shared := (shared s)\<lparr>mqueue := q1\<rparr>\<rparr>"
      by (auto simp: and_then_Done simp del: queue_expand.simps)
    from expand_counts [OF ex] obtain q2 where q2: "q1 = Some q2" "dq_len q2 = dq_len q"
      "dq_max_len q2 = dq_max_len q + 1" by blast
    show ?thesis unfolding s' by (rule move [where q' = q2]) (use q2 M_Expand cap in simp_all)
  next
    case M_Free
    with step show ?thesis by (auto simp: exact_def)
  qed (use step run q cap in \<open>auto simp: sem_wait_def mutex_lock_def split: if_splits intro!: move [where q' = q]\<close>)
qed

lemma start_exact: "at_main_loop s \<Longrightarrow> exact s"
  by (auto simp: at_main_loop_def exact_def slots_def sync_init_def message_queue_init_def main_free_def
      eq_commute [of _ "mqueue (shared s)"] split: if_splits)

definition exact_inv :: "'r state \<Rightarrow> bool" where
  "exact_inv s \<longleftrightarrow> (tok_inv s \<and> pc_ok (m_pc s)) \<and> exact s"

lemma careful_exact:
  assumes inv: "exact_inv s" and step: "careful_step rand s s'"
  shows "exact s'"
proof -
  from step have step: "sys_step rand s s'" and careful: "\<not> last_slot s" by (simp_all add: careful_step_def)
  from inv have tok: "tok_inv s" "pc_ok (m_pc s)" "exact s" by (simp_all add: exact_inv_def)
  from step show ?thesis
  proof cases
    case (thread i a junk t sh)
    with tok obtain q where q: "mutex_inv s" "token_inv q s" by (auto simp: tok_inv_def)
    from thread_balanced [OF q thread(3,5)] obtain q' where "balanced (threads s ! i) (shared s) q t sh q'"
      by blast
    with exact_balanced [OF tok(3) _ thread(3,2)] q(2) thread(1) show ?thesis by (simp add: token_inv_def)
  next
    case (cancelled i)
    with tok obtain q where q: "token_inv q s" by (auto simp: tok_inv_def)
    have "free_use (jump T_Done (threads s ! i)) = free_use (threads s ! i)"
      using idle_tokens [of "threads s ! i"] idle_tokens [of "jump T_Done (threads s ! i)"] cancelled(5)
      by (auto simp: jump_def)
    then have "slots s' q = slots s q"
      using cancelled(1) tally_same [of free_use _ "threads s" i] by (simp add: slots_def)
    with tok(3) q cancelled(1,2) show ?thesis by (auto simp: exact_def token_inv_def)
  next
    case (main option created p)
    then have "m_pc s \<noteq> M_Exited" by (auto simp: main_step_def)
    with tok obtain q where "token_inv q s" by (auto simp: tok_inv_def)
    from main_exact [OF main tok(2) this tok(3) careful] show ?thesis .
  qed
qed

interpretation careful: invariant_system at_main_loop "careful_step rand" exact_inv for rand
proof
  show "exact_inv s" if "at_main_loop s" for s :: "'a state"
    using start_tokens [OF that] start_exact [OF that] by (simp add: exact_inv_def)
  show "exact_inv t" if "exact_inv s" "careful_step rand s t" for s t :: "'a state"
    using that careful_exact [OF that] sys_step_tokens [of s rand t] by (simp add: exact_inv_def careful_step_def)
qed

subsection \<open>Nobody waits in vain\<close>

text \<open>A thread that has not ended is blocked in \<open>sem_wait\<close> or in \<open>pthread_mutex_lock\<close> only.\<close>

lemma blocked_where:
  assumes "thread_step rand a junk t sh = None" "t_pc t \<noteq> T_Done"
  shows "(t_pc t = T_Wait \<and> (case t_kind t of Producer \<Rightarrow> free_space_sem sh = 0 | Consumer \<Rightarrow> items_sem sh = 0))
    \<or> (t_pc t = T_Lock \<and> queue_mutex sh)"
  using assms
  by (cases "t_pc t"; cases "t_kind t")
    (auto simp: thread_step_def producer_step_def consumer_step_def sem_wait_def mutex_lock_def
      split: if_splits prod.splits)

lemma holder_moves: "crit t = 1 \<Longrightarrow> thread_step rand a junk t sh \<noteq> None"
  by (cases "t_pc t"; cases "t_kind t")
    (auto simp: crit_def thread_step_def producer_step_def consumer_step_def split: prod.splits)

lemma main_holder_moves:
  "main_crit (m_pc s) = 1 \<or> main_free (m_pc s) = 1 \<and> \<not> queue_mutex (shared s)
    \<Longrightarrow> main_step option created p s \<noteq> None"
  by (cases "m_pc s") (auto simp: main_step_def main_crit_def main_free_def mutex_lock_def Let_def)

text \<open>If nobody can move, the mutex is free, and every thread has ended or waits for a token.\<close>

lemma stuck_free:
  assumes "mutex_inv s" "\<forall>t \<in> set (threads s). thread_step rand a junk t (shared s) = None"
    and "m_pc s \<noteq> M_Ready \<Longrightarrow> main_step option created p s = None"
  shows "\<not> queue_mutex (shared s)" "main_free (m_pc s) = 0"
proof -
  have "main_crit (m_pc s) = 0"
  proof (cases "m_pc s = M_Ready")
    case False
    with assms(3) main_holder_moves [of s option created p] show ?thesis by (auto simp: main_crit_def)
  qed simp
  moreover have "crit t = 0" if "t \<in> set (threads s)" for t
    using that assms(2) holder_moves [of t rand a junk "shared s"] by (auto simp: crit_def)
  then have "tally crit (threads s) = 0" by (simp add: tally_def)
  ultimately show free: "\<not> queue_mutex (shared s)" using assms(1) by (simp add: mutex_inv_def)
  show "main_free (m_pc s) = 0"
  proof (cases "m_pc s = M_Ready")
    case False
    with assms(3) free main_holder_moves [of s option created p] show ?thesis by (auto simp: main_free_def)
  qed simp
qed


text \<open>Executable runs that never reduce a queue of one slot.\<close>

definition careful_act :: "'r rng \<Rightarrow> act \<Rightarrow> 'r state \<Rightarrow> 'r state option" where
  "careful_act rand a s = (if last_slot s then None else act_step rand a s)"

interpretation careful_runs: executable_steps "careful_step rand" "careful_act rand" for rand
  by unfold_locales (auto simp: careful_act_def careful_step_def act_step_sound split: if_splits)


subsection \<open>Reducing the last slot\<close>

lemma all_wait:
  assumes "free_space_sem (shared s) = 0" "items_sem (shared s) = 0" "\<forall>t \<in> set (threads s). t_pc t = T_Wait"
    and "t \<in> set (threads s)"
  shows "thread_step rand a junk t (shared s) = None"
  using assms by (cases "t_kind t") (auto simp: thread_step_def producer_step_def consumer_step_def sem_wait_def)

text \<open>
  The exception matters. \<open>r\<close> on a queue of one slot takes its token and changes nothing: the
  producer and the consumer then wait for each other on an empty queue with a free slot, no
  thread can move whatever \<open>malloc\<close> and \<open>rand\<close> return, and only the command \<open>e\<close> would help.
\<close>

theorem lab5_reduce_last_slot_stalls:
  "\<exists>s0 s. at_main_loop s0 \<and> steps (sys_step (\<lambda>r :: nat. (0, r))) s0 s \<and> m_pc s = M_Ready
     \<and> map t_kind (threads s) = [Producer, Consumer] \<and> map t_pc (threads s) = [T_Wait, T_Wait]
     \<and> map_option (\<lambda>q. (dq_len q, dq_max_len q)) (mqueue (shared s)) = Some (0, 1)
     \<and> (\<Union>t \<in> set (threads s). {r. \<exists>rand a junk. thread_step rand a junk t (shared s) = Some r}) = {}"
proof -
  let ?P = "\<lambda>s. m_pc s = M_Ready \<and> map t_kind (threads s) = [Producer, Consumer]
    \<and> map t_pc (threads s) = [T_Wait, T_Wait] \<and> free_space_sem (shared s) = 0 \<and> items_sem (shared s) = 0
    \<and> map_option (\<lambda>q. (dq_len q, dq_max_len q)) (mqueue (shared s)) = Some (0, 1)"
  have "case run_all (act_step (\<lambda>r. (0, r)))
      (map Main [''+'', ''*''] @ concat (replicate 10 (Main ''r'' # replicate 4 (Main '''')))
        @ replicate 2 (Thread 0 0) @ replicate 2 (Thread 1 0)) (fresh_state (0 :: nat)) of
      None \<Rightarrow> False | Some s \<Rightarrow> ?P s"
    by code_simp
  then obtain s where s: "steps (sys_step (\<lambda>r. (0, r))) (fresh_state (0 :: nat)) s" "?P s"
    by (rule run_from_fresh)
  then have "\<forall>t \<in> set (threads s). t_pc t = T_Wait" by (auto simp: map_eq_Cons_conv)
  with s all_wait [of s] fresh_state_start [of 0]
  show ?thesis by (intro exI [of _ "fresh_state 0"] exI [of _ s]) auto
qed

end
