(* ===== verification/Lab5_Conds.thy ===== *)
theory Lab5_Conds
  imports Dyn_Queue_52 Lab5_Threads
begin

section \<open>lab5: producer and consumer threads over condition variables (lab5/5.2/src/main.c)\<close>

text \<open>
  The second version guards the queue by a mutex and two condition variables. A thread that calls
  \<open>pthread_cond_wait\<close> releases the mutex and sleeps until it is signalled, then takes the mutex
  again. \<open>pthread_mutex_unlock\<close> by a thread that does not hold the mutex is undefined in POSIX; it is
  modelled as what glibc does with a default mutex, which is to unlock it. A cancelled thread ends at
  \<open>sleep\<close>, or in \<open>pthread_cond_wait\<close>, which takes the mutex before the thread ends. The kinds of
  threads and the search for a free index are those of \<open>Lab5_Threads\<close>.
\<close>

datatype bpc = B_Check | B_Sleep | B_Lock | B_Test | B_Recheck | B_CondWait | B_Asleep | B_Relock
  | B_Queue | B_Print | B_Signal | B_Unlock | B_Done | B_Died

record bthread =
  b_kind :: kind
  b_ind :: int
  b_pc :: bpc
  b_data :: ptr
  b_cancel :: bool

datatype npc = N_Ready
  | N_ReduceLock | N_ReduceTest | N_ReduceAsleep | N_ReduceRelock | N_Reduce | N_ReduceUnlock
  | N_ExpandLock | N_Expand | N_ExpandUnlock | N_ExpandSignal
  | N_Broadcast kind int npc | N_Join kind int npc | N_Count kind int npc
  | N_CloseAll kind | N_Free | N_Exited

record 'r bstate =
  bthreads :: "bthread list"
  bmutex :: bool
  bqueue :: "message_queue_t option"
  bmem :: heap
  bseed :: 'r
  bworking :: "kind \<Rightarrow> int list"
  bprinted :: "u32 list list"
  n_pc :: npc
  bcount :: "kind \<Rightarrow> int"
  btids :: "kind \<Rightarrow> nat list"
  bsaid :: "said list"

definition sync_init_52 :: "int list \<Rightarrow> exit_code + bool" where
  "sync_init_52 results = (if \<exists>r \<in> set results. r \<noteq> 0 then Inl EXIT_FAILURE else Inr False)"

definition message_queue_init_52 ::
  "message_queue_t option \<Rightarrow> ptr list \<Rightarrow> exit_code + message_queue_t option" where
  "message_queue_init_52 allocated fresh =
     (if allocated = None then Inl EXIT_FAILURE else Inr (queue_init_52 fresh allocated))"

definition at_main_loop_52 :: "'r bstate \<Rightarrow> bool" where
  "at_main_loop_52 s \<longleftrightarrow> bthreads s = [] \<and> n_pc s = N_Ready \<and> bcount s = (\<lambda>k. 0)
     \<and> (\<forall>k. length (btids s k) = 10) \<and> bworking s = (\<lambda>k. replicate 10 0) \<and> bprinted s = [] \<and> bsaid s = []
     \<and> (\<exists>results. sync_init_52 results = Inr (bmutex s))
     \<and> (\<exists>q fresh. length fresh = 10 \<and> message_queue_init_52 (Some q) fresh = Inr (bqueue s))"

subsection \<open>The threads\<close>

definition put :: "nat \<Rightarrow> bthread \<Rightarrow> 'r bstate \<Rightarrow> 'r bstate" where
  "put i t s = s\<lparr>bthreads := (bthreads s)[i := t]\<rparr>"

definition go_to :: "bpc \<Rightarrow> nat \<Rightarrow> 'r bstate \<Rightarrow> 'r bstate" where
  "go_to c i s = put i ((bthreads s ! i)\<lparr>b_pc := c\<rparr>) s"

text \<open>
  \<open>checkTermProducer\<close> and \<open>checkTermConsumer\<close>: whether the thread is to end, which unlocks the mutex
  if \<open>unlock\<close> is set.
\<close>

definition check_term :: "kind \<Rightarrow> int \<Rightarrow> bool \<Rightarrow> 'r bstate \<Rightarrow> bool \<times> 'r bstate" where
  "check_term k ind unlock s =
     (if bworking s k ! nat ind = 0 then (True, if unlock then s\<lparr>bmutex := False\<rparr> else s) else (False, s))"

definition asleep_on :: "kind \<Rightarrow> bthread \<Rightarrow> bool" where
  "asleep_on k t \<longleftrightarrow> b_kind t = k \<and> b_pc t = B_Asleep"

text \<open>
  \<open>pthread_cond_signal\<close> on \<open>free_space_cond\<close> (on which producers and the main thread wait) or
  \<open>items_cond\<close>; \<open>w\<close> is the thread it wakes, \<open>None\<close> the main thread or nobody.
\<close>

definition cond_signal :: "kind \<Rightarrow> nat option \<Rightarrow> 'r bstate \<Rightarrow> 'r bstate option" where
  "cond_signal k w s =
     (case w of
        Some j \<Rightarrow>
          if j < length (bthreads s) \<and> asleep_on k (bthreads s ! j) then Some (go_to B_Relock j s) else None
      | None \<Rightarrow>
          if k = Producer \<and> n_pc s = N_ReduceAsleep then Some (s\<lparr>n_pc := N_ReduceRelock\<rparr>)
          else if list_ex (asleep_on k) (bthreads s) then None
          else Some s)"

definition cond_broadcast :: "kind \<Rightarrow> 'r bstate \<Rightarrow> 'r bstate" where
  "cond_broadcast k s =
     s\<lparr>bthreads := map (\<lambda>t. if asleep_on k t then t\<lparr>b_pc := B_Relock\<rparr> else t) (bthreads s),
       n_pc := (if k = Producer \<and> n_pc s = N_ReduceAsleep then N_ReduceRelock else n_pc s)\<rparr>"

definition lock :: "'r bstate \<Rightarrow> 'r bstate option" where
  "lock s = (if bmutex s then None else Some (s\<lparr>bmutex := True\<rparr>))"

text \<open>A step of thread \<open>i\<close>. The condition its kind waits for is \<open>must_wait\<close>.\<close>

definition must_wait :: "kind \<Rightarrow> message_queue_t \<Rightarrow> bool" where
  "must_wait k q = (case k of Producer \<Rightarrow> queue_is_full q | Consumer \<Rightarrow> queue_is_empty q)"

definition producer_queue ::
  "'r rng \<Rightarrow> addr \<Rightarrow> message_queue_element_t \<Rightarrow> nat \<Rightarrow> 'r bstate \<Rightarrow> 'r bstate outcome" where
  "producer_queue rand a junk i s =
     (let (msg, h, r) = queue_generate_message_52 rand a junk (bmem s) (bseed s)
      in and_then (queue_push_52 msg (bqueue s))
           (\<lambda>q. Done (go_to B_Print i (s\<lparr>bqueue := q, bmem := h, bseed := r\<rparr>))))"

definition consumer_queue :: "nat \<Rightarrow> 'r bstate \<Rightarrow> 'r bstate outcome" where
  "consumer_queue i s =
     and_then (queue_pop_52 (bqueue s))
       (\<lambda>(data, q). Done (put i ((bthreads s ! i)\<lparr>b_data := data, b_pc := B_Print\<rparr>) (s\<lparr>bqueue := Some q\<rparr>)))"

definition consumer_print :: "nat \<Rightarrow> 'r bstate \<Rightarrow> 'r bstate outcome" where
  "consumer_print i s =
     (case b_data (bthreads s ! i) of
        None \<Rightarrow> Done (go_to B_Signal i s)
      | Some a \<Rightarrow>
          (case bmem s a of
             None \<Rightarrow> Out_of_bounds
           | Some e \<Rightarrow>
               Done (put i ((bthreads s ! i)\<lparr>b_data := None, b_pc := B_Signal\<rparr>)
                 (s\<lparr>bprinted := bprinted s @ [take (unat (e_size e)) (e_data e)], bmem := (bmem s)(a := None)\<rparr>))))"

definition bthread_step ::
  "'r rng \<Rightarrow> addr \<Rightarrow> message_queue_element_t \<Rightarrow> nat option \<Rightarrow> nat \<Rightarrow> 'r bstate \<Rightarrow> 'r bstate outcome option" where
  "bthread_step rand a junk w i s =
     (let t = bthreads s ! i; k = b_kind t in
      case b_pc t of
        B_Check \<Rightarrow>
          Some (Done (let (term, s) = check_term k (b_ind t) True s
                      in go_to (if term then B_Done else B_Sleep) i s))
      | B_Sleep \<Rightarrow> Some (Done (go_to B_Lock i s))
      | B_Lock \<Rightarrow> map_option (\<lambda>s. Done (go_to B_Test i s)) (lock s)
      | B_Test \<Rightarrow>
          Some (case bqueue s of
                  None \<Rightarrow> Out_of_bounds
                | Some q \<Rightarrow> Done (go_to (if must_wait k q then B_Recheck else B_Queue) i s))
      | B_Recheck \<Rightarrow>
          Some (Done (let (term, s) = check_term k (b_ind t) True s
                      in go_to (if term then B_Done else B_CondWait) i s))
      | B_CondWait \<Rightarrow> Some (Done (go_to B_Asleep i (s\<lparr>bmutex := False\<rparr>)))
      | B_Asleep \<Rightarrow> None
      | B_Relock \<Rightarrow> map_option (\<lambda>s. Done (go_to B_Test i s)) (lock s)
      | B_Queue \<Rightarrow> Some (case k of Producer \<Rightarrow> producer_queue rand a junk i s | Consumer \<Rightarrow> consumer_queue i s)
      | B_Print \<Rightarrow> Some (case k of Producer \<Rightarrow> Done (go_to B_Signal i s) | Consumer \<Rightarrow> consumer_print i s)
      | B_Signal \<Rightarrow> map_option (\<lambda>s. Done (go_to B_Unlock i s)) (cond_signal (other k) w s)
      | B_Unlock \<Rightarrow> Some (Done (go_to B_Check i (s\<lparr>bmutex := False\<rparr>)))
      | B_Done \<Rightarrow> None
      | B_Died \<Rightarrow> None)"

subsection \<open>Creating and closing threads\<close>

definition set_bworking :: "kind \<Rightarrow> int \<Rightarrow> int \<Rightarrow> 'r bstate \<Rightarrow> 'r bstate" where
  "set_bworking k i v s = s\<lparr>bworking := (bworking s)(k := (bworking s k)[nat i := v])\<rparr>"

definition create_thread_52 :: "int \<Rightarrow> bool \<Rightarrow> 'r bstate \<Rightarrow> 'r bstate outcome" where
  "create_thread_52 opt created s =
     (case kind_of opt of
        None \<Rightarrow> Done s
      | Some k \<Rightarrow>
          (if bcount s k < MAX_THREADS then
             (let i = free_index (bworking s k) in
              if \<not> in_range i (bworking s k) then Out_of_bounds
              else
                (let s = set_bworking k i 1 s in
                 if \<not> created then Done (set_bworking k i 0 s)
                 else Done (s\<lparr>bthreads := bthreads s @
                                [\<lparr>b_kind = k, b_ind = i, b_pc = B_Check, b_data = None, b_cancel = False\<rparr>],
                              btids := (btids s)(k := (btids s k)[nat i := length (bthreads s)]),
                              bcount := (bcount s)(k := bcount s k + 1)\<rparr>)))
           else Done s))"

definition must_cancel_52 :: "kind \<Rightarrow> 'r bstate \<Rightarrow> bool" where
  "must_cancel_52 k s \<longleftrightarrow> bcount s (other k) = 0
     \<and> (case bqueue s of None \<Rightarrow> False | Some q \<Rightarrow> must_wait k q)"

text \<open>A cancelled thread is not waited for; otherwise broadcast and join follow.\<close>

definition close_thread_by_ind_52 :: "int \<Rightarrow> int \<Rightarrow> npc \<Rightarrow> 'r bstate \<Rightarrow> 'r bstate" where
  "close_thread_by_ind_52 ind type ret s =
     (case kind_of type of
        None \<Rightarrow> s\<lparr>n_pc := ret\<rparr>
      | Some k \<Rightarrow>
          (if bcount s k > 0 \<and> ind \<ge> 0 \<and> ind < MAX_THREADS \<and> bworking s k ! nat ind = 1 then
             (if must_cancel_52 k s then
                (let j = btids s k ! nat ind; s = put j ((bthreads s ! j)\<lparr>b_cancel := True\<rparr>) s
                 in (set_bworking k ind 0 s)\<lparr>n_pc := N_Count k ind ret\<rparr>)
              else (set_bworking k ind 0 s)\<lparr>n_pc := N_Broadcast k ind ret\<rparr>)
           else s\<lparr>n_pc := ret\<rparr>))"

definition close_all_threads_52 :: "kind \<Rightarrow> 'r bstate \<Rightarrow> 'r bstate" where
  "close_all_threads_52 k s =
     (if bcount s k > 0 then close_thread_by_ind_52 (bcount s k - 1) (opt_of k) (N_CloseAll k) s
      else s\<lparr>n_pc := (case k of Producer \<Rightarrow> N_CloseAll Consumer | Consumer \<Rightarrow> N_Free)\<rparr>)"

text \<open>\<open>cleanup_and_exit\<close>: the closing of both kinds of threads, then the freeing of the queue.\<close>

definition cleanup_and_exit_52 :: "'r bstate \<Rightarrow> 'r bstate" where
  "cleanup_and_exit_52 s = s\<lparr>n_pc := N_CloseAll Producer\<rparr>"

text \<open>The handler of SIGINT: the process goes on with the same clean-up from wherever it was.\<close>

definition termination_handler_52 :: "'r bstate \<Rightarrow> 'r bstate" where
  "termination_handler_52 s = cleanup_and_exit_52 s"

definition free_queue_52 :: "'r bstate \<Rightarrow> 'r bstate" where
  "free_queue_52 s =
     (case bqueue s of
        None \<Rightarrow> s
      | Some q \<Rightarrow> s\<lparr>bqueue := None, bmem := snd (queue_free_52 (Some q) (bmem s))\<rparr>)"

subsection \<open>The main thread\<close>

definition print_message_queue_52 :: "'r bstate \<Rightarrow> 'r bstate" where
  "print_message_queue_52 s =
     (case bqueue s of
        None \<Rightarrow> s
      | Some q \<Rightarrow> s\<lparr>bsaid := bsaid s @ [Queue_printed (queue_print_52 (bmem s) q)]\<rparr>)"

definition print_counts_52 :: "'r bstate \<Rightarrow> 'r bstate" where
  "print_counts_52 s = s\<lparr>bsaid := bsaid s @ [Thread_counts (bcount s Producer) (bcount s Consumer)]\<rparr>"

definition dispatch_52 :: "string \<Rightarrow> bool \<Rightarrow> 'r bstate \<Rightarrow> 'r bstate outcome" where
  "dispatch_52 option created s =
     (if option = ''+'' then create_thread_52 1 created s
      else if option = ''*'' then create_thread_52 (-1) created s
      else if option = ''-'' then Done (close_thread_by_ind_52 (bcount s Producer - 1) 1 N_Ready s)
      else if option = ''_'' then Done (close_thread_by_ind_52 (bcount s Consumer - 1) (-1) N_Ready s)
      else if option = ''l'' then Done (print_message_queue_52 s)
      else if option = ''s'' then Done (print_counts_52 s)
      else if option = ''r'' then
        (if bcount s Consumer = 0 then Done s else Done (s\<lparr>n_pc := N_ReduceLock\<rparr>))
      else if option = ''e'' then Done (s\<lparr>n_pc := N_ExpandLock\<rparr>)
      else if option = ''q'' then Done (cleanup_and_exit_52 s)
      else Done s)"

definition finished :: "bthread \<Rightarrow> bool" where
  "finished t \<longleftrightarrow> b_pc t = B_Done \<or> b_pc t = B_Died"

definition main_step_52 :: "string \<Rightarrow> bool \<Rightarrow> ptr \<Rightarrow> nat option \<Rightarrow> 'r bstate \<Rightarrow> 'r bstate outcome option" where
  "main_step_52 option created junk w s =
     (case n_pc s of
        N_Ready \<Rightarrow> Some (dispatch_52 option created s)
      | N_ReduceLock \<Rightarrow> map_option (\<lambda>s. Done (s\<lparr>n_pc := N_ReduceTest\<rparr>)) (lock s)
      | N_ReduceTest \<Rightarrow>
          Some (case bqueue s of
                  None \<Rightarrow> Out_of_bounds
                | Some q \<Rightarrow>
                    if queue_is_full q then Done (s\<lparr>n_pc := N_ReduceAsleep, bmutex := False\<rparr>)
                    else Done (s\<lparr>n_pc := N_Reduce\<rparr>))
      | N_ReduceAsleep \<Rightarrow> None
      | N_ReduceRelock \<Rightarrow> map_option (\<lambda>s. Done (s\<lparr>n_pc := N_ReduceTest\<rparr>)) (lock s)
      | N_Reduce \<Rightarrow> Some (and_then (queue_reduce_52 (bqueue s)) (\<lambda>q. Done (s\<lparr>n_pc := N_ReduceUnlock, bqueue := q\<rparr>)))
      | N_ReduceUnlock \<Rightarrow> Some (Done (s\<lparr>n_pc := N_Ready, bmutex := False\<rparr>))
      | N_ExpandLock \<Rightarrow> map_option (\<lambda>s. Done (s\<lparr>n_pc := N_Expand\<rparr>)) (lock s)
      | N_Expand \<Rightarrow>
          Some (and_then (queue_expand_52 junk (bqueue s)) (\<lambda>q. Done (s\<lparr>n_pc := N_ExpandUnlock, bqueue := q\<rparr>)))
      | N_ExpandUnlock \<Rightarrow> Some (Done (s\<lparr>n_pc := N_ExpandSignal, bmutex := False\<rparr>))
      | N_ExpandSignal \<Rightarrow> map_option (\<lambda>s. Done (s\<lparr>n_pc := N_Ready\<rparr>)) (cond_signal Producer w s)
      | N_Broadcast k ind ret \<Rightarrow> Some (Done ((cond_broadcast k s)\<lparr>n_pc := N_Join k ind ret\<rparr>))
      | N_Join k ind ret \<Rightarrow>
          (if finished (bthreads s ! (btids s k ! nat ind)) then Some (Done (s\<lparr>n_pc := N_Count k ind ret\<rparr>)) else None)
      | N_Count k ind ret \<Rightarrow> Some (Done (s\<lparr>n_pc := ret, bcount := (bcount s)(k := bcount s k - 1)\<rparr>))
      | N_CloseAll k \<Rightarrow> Some (Done (close_all_threads_52 k s))
      | N_Free \<Rightarrow> Some (Done ((free_queue_52 s)\<lparr>n_pc := N_Exited\<rparr>))
      | N_Exited \<Rightarrow> None)"

text \<open>
  A step of the program. \<open>closing\<close> says whether options that close threads may be typed; a thread
  that sleeps on a condition may also wake without a signal.
\<close>

definition closes :: "string \<Rightarrow> bool" where
  "closes option \<longleftrightarrow> option = ''-'' \<or> option = ''_'' \<or> option = ''q''"

inductive bstep :: "bool \<Rightarrow> 'r rng \<Rightarrow> 'r bstate \<Rightarrow> 'r bstate \<Rightarrow> bool" for closing rand where
  thread: "n_pc s \<noteq> N_Exited \<Longrightarrow> i < length (bthreads s) \<Longrightarrow> bmem s a = None \<Longrightarrow>
     bthread_step rand a junk w i s = Some (Done s') \<Longrightarrow> bstep closing rand s s'"
| spurious: "n_pc s \<noteq> N_Exited \<Longrightarrow> i < length (bthreads s) \<Longrightarrow> b_pc (bthreads s ! i) = B_Asleep \<Longrightarrow>
     bstep closing rand s (go_to B_Relock i s)"
| spurious_main: "n_pc s = N_ReduceAsleep \<Longrightarrow> bstep closing rand s (s\<lparr>n_pc := N_ReduceRelock\<rparr>)"
| cancel_sleep: "n_pc s \<noteq> N_Exited \<Longrightarrow> i < length (bthreads s) \<Longrightarrow> b_cancel (bthreads s ! i) \<Longrightarrow>
     b_pc (bthreads s ! i) = B_Sleep \<Longrightarrow> bstep closing rand s (go_to B_Done i s)"
| cancel_wait: "n_pc s \<noteq> N_Exited \<Longrightarrow> i < length (bthreads s) \<Longrightarrow> b_cancel (bthreads s ! i) \<Longrightarrow>
     b_pc (bthreads s ! i) = B_Asleep \<Longrightarrow> lock s = Some s' \<Longrightarrow> bstep closing rand s (go_to B_Died i s')"
| main: "closing \<or> \<not> closes option \<Longrightarrow> main_step_52 option created p w s = Some (Done s') \<Longrightarrow>
     bstep closing rand s s'"

end
