(* ===== verification/Lab5_Monitor.thy ===== *)
theory Lab5_Monitor
  imports Lab5_Conds Lab5_Tokens
begin

section \<open>lab5 (condition variables): the mutex guards the queue as long as no thread is closed\<close>

subsection \<open>The invariant\<close>

definition holds :: "bthread \<Rightarrow> nat" where
  "holds t = of_bool (b_pc t \<in> {B_Test, B_Recheck, B_CondWait, B_Queue, B_Print, B_Signal, B_Unlock})"

definition n_holds :: "npc \<Rightarrow> nat" where
  "n_holds c = of_bool (c \<in> {N_ReduceTest, N_Reduce, N_ReduceUnlock, N_Expand, N_ExpandUnlock})"

definition open_pc :: "npc \<Rightarrow> bool" where
  "open_pc c \<longleftrightarrow> c \<in> {N_Ready, N_ReduceLock, N_ReduceTest, N_ReduceAsleep, N_ReduceRelock, N_Reduce,
     N_ReduceUnlock, N_ExpandLock, N_Expand, N_ExpandUnlock, N_ExpandSignal}"

text \<open>A thread that is not being closed, and that touches the queue only if its condition holds.\<close>

definition thread_ok :: "(kind \<Rightarrow> int list) \<Rightarrow> message_queue_t \<Rightarrow> bthread \<Rightarrow> bool" where
  "thread_ok ws q t \<longleftrightarrow>
     \<not> b_cancel t \<and> nat (b_ind t) < 10 \<and> ws (b_kind t) ! nat (b_ind t) = 1 \<and> \<not> finished t
     \<and> (b_pc t = B_Queue \<longrightarrow> \<not> must_wait (b_kind t) q)"

definition monitor_inv :: "'r bstate \<Rightarrow> message_queue_t \<Rightarrow> bool" where
  "monitor_inv s q \<longleftrightarrow>
     bqueue s = Some q
     \<and> tally holds (bthreads s) + n_holds (n_pc s) = of_bool (bmutex s)
     \<and> open_pc (n_pc s) \<and> (\<forall>k. length (bworking s k) = 10)
     \<and> (\<forall>t \<in> set (bthreads s). thread_ok (bworking s) q t)
     \<and> (n_pc s = N_Reduce \<longrightarrow> \<not> queue_is_full q)"

lemma holder_alone:
  assumes "monitor_inv s q" "i < length (bthreads s)" "holds (bthreads s ! i) = 1"
  shows "n_holds (n_pc s) = 0" "j < length (bthreads s) \<Longrightarrow> j \<noteq> i \<Longrightarrow> holds (bthreads s ! j) = 0"
proof -
  have t: "tally holds (bthreads s) + n_holds (n_pc s) \<le> 1" using assms(1) by (simp add: monitor_inv_def)
  have "1 \<le> tally holds (bthreads s)" using tally_ge [OF assms(2), of holds] assms(3) by simp
  with t show "n_holds (n_pc s) = 0" by simp
  assume "j < length (bthreads s)" "j \<noteq> i"
  from tally_ge_two [OF assms(2) this(1) this(2) [symmetric], of holds] assms(3) t
  show "holds (bthreads s ! j) = 0" by simp
qed

lemma holder_mutex:
  assumes "monitor_inv s q" "i < length (bthreads s)" "holds (bthreads s ! i) = 1"
  shows "bmutex s"
proof -
  have "tally holds (bthreads s) + n_holds (n_pc s) = of_bool (bmutex s)" using assms(1) by (simp add: monitor_inv_def)
  with tally_ge [OF assms(2), of holds] assms(3) show ?thesis by (cases "bmutex s") simp_all
qed

lemma main_alone:
  assumes "monitor_inv s q" "n_holds (n_pc s) = 1" "t \<in> set (bthreads s)"
  shows "holds t = 0"
proof -
  obtain i where i: "i < length (bthreads s)" "t = bthreads s ! i" using assms(3) by (auto simp: in_set_conv_nth)
  have "tally holds (bthreads s) + n_holds (n_pc s) \<le> 1" using assms(1) by (simp add: monitor_inv_def)
  with tally_ge [OF i(1), of holds] assms(2) have "holds (bthreads s ! i) = 0" by linarith
  then show ?thesis by (simp only: i(2))
qed

lemma not_holding: "holds t = 0 \<Longrightarrow> b_pc t \<noteq> B_Queue"
  by (rule notI) (simp add: holds_def)

lemma ok_other_queue: "thread_ok ws q t \<Longrightarrow> holds t = 0 \<Longrightarrow> thread_ok ws q' t"
  using not_holding [of t] by (simp add: thread_ok_def)

text \<open>One thread moves.\<close>

lemma monitor_thread:
  assumes inv: "monitor_inv s q" and i: "i < length (bthreads s)"
    and s': "bthreads s' = (bthreads s)[i := t']" "n_pc s' = n_pc s" "bworking s' = bworking s" "bqueue s' = Some q'"
    and t': "b_kind t' = b_kind (bthreads s ! i)" "b_ind t' = b_ind (bthreads s ! i)"
      "b_cancel t' = b_cancel (bthreads s ! i)" "\<not> finished t'"
    and balance: "of_bool (bmutex s') + holds (bthreads s ! i) = of_bool (bmutex s) + holds t'"
    and queue: "q' = q \<or> holds (bthreads s ! i) = 1"
    and guard: "b_pc t' = B_Queue \<longrightarrow> \<not> must_wait (b_kind t') q'"
  shows "monitor_inv s' q'"
proof -
  have "tally holds (bthreads s') + holds (bthreads s ! i) = tally holds (bthreads s) + holds t'"
    unfolding s'(1) by (rule tally_update [OF i])
  with inv balance s'(2) have "tally holds (bthreads s') + n_holds (n_pc s') = of_bool (bmutex s')"
    by (simp add: monitor_inv_def)
  moreover have "thread_ok (bworking s') q' t'"
  proof -
    have "thread_ok (bworking s) q (bthreads s ! i)" using inv i by (simp add: monitor_inv_def)
    with t' guard s'(3) show ?thesis by (simp add: thread_ok_def)
  qed
  moreover have "thread_ok (bworking s') q' (bthreads s ! j)" if "j < length (bthreads s)" "j \<noteq> i" for j
  proof -
    have ok: "thread_ok (bworking s) q (bthreads s ! j)" using inv that by (simp add: monitor_inv_def)
    from queue show ?thesis
    proof
      assume "q' = q"
      with ok s'(3) show ?thesis by simp
    next
      assume "holds (bthreads s ! i) = 1"
      from ok_other_queue [OF ok holder_alone(2) [OF inv i this that]] s'(3) show ?thesis by simp
    qed
  qed
  ultimately have "\<forall>t \<in> set (bthreads s'). thread_ok (bworking s') q' t"
    "tally holds (bthreads s') + n_holds (n_pc s') = of_bool (bmutex s')"
    using s'(1) i by (auto simp: in_set_conv_nth nth_list_update)
  moreover have "n_pc s' = N_Reduce \<longrightarrow> \<not> queue_is_full q'"
    using queue
  proof
    assume "q' = q"
    with inv s'(2) show ?thesis by (simp add: monitor_inv_def)
  next
    assume "holds (bthreads s ! i) = 1"
    from holder_alone(1) [OF inv i this] s'(2) show ?thesis by (auto simp: n_holds_def)
  qed
  ultimately show ?thesis using inv s' by (simp add: monitor_inv_def)
qed

text \<open>The main thread moves.\<close>

lemma monitor_main:
  assumes inv: "monitor_inv s q"
    and s': "bthreads s' = bthreads s" "bworking s' = bworking s" "bqueue s' = Some q'"
    and pc: "open_pc (n_pc s')"
    and balance: "of_bool (bmutex s') + n_holds (n_pc s) = of_bool (bmutex s) + n_holds (n_pc s')"
    and queue: "q' = q \<or> n_holds (n_pc s) = 1"
    and guard: "n_pc s' = N_Reduce \<longrightarrow> \<not> queue_is_full q'"
  shows "monitor_inv s' q'"
proof -
  have "\<forall>t \<in> set (bthreads s). thread_ok (bworking s) q' t"
    using queue inv main_alone [OF inv] by (auto simp: monitor_inv_def intro: ok_other_queue)
  with inv s' pc balance guard show ?thesis by (simp add: monitor_inv_def)
qed

lemma put_sel [simp]:
  "bthreads (put i t s) = (bthreads s)[i := t]" "n_pc (put i t s) = n_pc s" "bworking (put i t s) = bworking s"
  "bqueue (put i t s) = bqueue s" "bmutex (put i t s) = bmutex s" "bmem (put i t s) = bmem s"
  "bcount (put i t s) = bcount s" "btids (put i t s) = btids s"
  by (simp_all add: put_def)

lemma go_to_put: "go_to c i s = put i ((bthreads s ! i)\<lparr>b_pc := c\<rparr>) s"
  by (simp add: go_to_def)

lemma monitor_signal:
  assumes "monitor_inv s q" "cond_signal k w s = Some s'"
  shows "monitor_inv s' q \<and> length (bthreads s') = length (bthreads s) \<and> n_holds (n_pc s') = n_holds (n_pc s)
    \<and> bmutex s' = bmutex s \<and> bqueue s' = bqueue s \<and> bworking s' = bworking s
    \<and> (\<forall>i < length (bthreads s). b_pc (bthreads s ! i) \<noteq> B_Asleep \<longrightarrow> bthreads s' ! i = bthreads s ! i)
    \<and> (n_pc s' = n_pc s \<or> n_pc s = N_ReduceAsleep)"
proof (cases w)
  case None
  show ?thesis
  proof (cases "k = Producer \<and> n_pc s = N_ReduceAsleep")
    case True
    with assms(2) None have s': "s' = s\<lparr>n_pc := N_ReduceRelock\<rparr>" by (simp add: cond_signal_def)
    have q: "bqueue s = Some q" using assms(1) by (simp add: monitor_inv_def)
    have "monitor_inv s' q"
      by (rule monitor_main [OF assms(1)]) (use True q in \<open>simp_all add: s' open_pc_def n_holds_def\<close>)
    with True s' show ?thesis by (simp add: n_holds_def)
  next
    case False
    with assms None have "s' = s" by (auto simp: cond_signal_def split: if_splits)
    with assms(1) show ?thesis by simp
  qed
next
  case (Some j)
  with assms(2) have j: "j < length (bthreads s)" "b_pc (bthreads s ! j) = B_Asleep" "s' = go_to B_Relock j s"
    by (auto simp: cond_signal_def asleep_on_def split: if_splits)
  have q: "bqueue s = Some q" using assms(1) by (simp add: monitor_inv_def)
  have "monitor_inv s' q"
    by (rule monitor_thread [OF assms(1) j(1), where t' = "(bthreads s ! j)\<lparr>b_pc := B_Relock\<rparr>"])
      (use j q in \<open>simp_all add: go_to_put holds_def finished_def\<close>)
  with j show ?thesis by (auto simp: go_to_put nth_list_update)
qed


subsection \<open>Steps of the threads\<close>

lemma thread_at:
  assumes "monitor_inv s q" "i < length (bthreads s)"
  shows "bqueue s = Some q" "thread_ok (bworking s) q (bthreads s ! i)"
  using assms by (simp_all add: monitor_inv_def)

lemma ok_check: "thread_ok (bworking s) q t \<Longrightarrow> check_term (b_kind t) (b_ind t) u s = (False, s)"
  by (simp add: thread_ok_def check_term_def)

lemma lock_Some: "lock s = Some s' \<longleftrightarrow> \<not> bmutex s \<and> s' = s\<lparr>bmutex := True\<rparr>"
  by (auto simp: lock_def)

text \<open>The steps that only change the thread's location and the mutex.\<close>

lemma monitor_go_to:
  assumes inv: "monitor_inv s q" and i: "i < length (bthreads s)"
    and c: "c \<noteq> B_Done" "c \<noteq> B_Died" "c = B_Queue \<longrightarrow> \<not> must_wait (b_kind (bthreads s ! i)) q"
    and balance: "of_bool m + holds (bthreads s ! i) = of_bool (bmutex s) + holds ((bthreads s ! i)\<lparr>b_pc := c\<rparr>)"
  shows "monitor_inv (go_to c i (s\<lparr>bmutex := m\<rparr>)) q"
  by (rule monitor_thread [OF inv i, where t' = "(bthreads s ! i)\<lparr>b_pc := c\<rparr>"])
    (use c balance thread_at(1) [OF inv i] in \<open>simp_all add: go_to_put finished_def\<close>)

lemma same_mutex: "s\<lparr>bmutex := bmutex s\<rparr> = s"
  by simp

lemma monitor_queue_step:
  assumes inv: "monitor_inv s q" and i: "i < length (bthreads s)" and pc: "b_pc (bthreads s ! i) = B_Queue"
    and s': "bthreads s' = (bthreads s)[i := (bthreads s ! i)\<lparr>b_data := d, b_pc := B_Print\<rparr>]" "n_pc s' = n_pc s"
      "bworking s' = bworking s" "bmutex s' = bmutex s" "bqueue s' = Some q'"
  shows "monitor_inv s' q'"
  by (rule monitor_thread [OF inv i s'(1,2,3,5)])
    (use pc s'(4) in \<open>simp_all add: finished_def holds_def\<close>)

lemma monitor_thread_step:
  assumes inv: "monitor_inv s q" and i: "i < length (bthreads s)"
    and step: "bthread_step rand a junk w i s = Some (Done s')"
  shows "\<exists>q'. monitor_inv s' q'"
proof -
  let ?t = "bthreads s ! i"
  note q = thread_at [OF inv i]
  note go = monitor_go_to [OF inv i]
  note go_same = go [where m = "bmutex s", unfolded same_mutex]
  show ?thesis
  proof (cases "b_pc ?t")
    case B_Check
    with step q ok_check [OF q(2), of True] have "s' = go_to B_Sleep i s" by (simp add: bthread_step_def Let_def)
    with go_same [of B_Sleep] B_Check show ?thesis by (auto simp: holds_def)
  next
    case B_Sleep
    with step have "s' = go_to B_Lock i s" by (simp add: bthread_step_def)
    with go_same [of B_Lock] B_Sleep show ?thesis by (auto simp: holds_def)
  next
    case B_Lock
    with step have "\<not> bmutex s" "s' = go_to B_Test i (s\<lparr>bmutex := True\<rparr>)" by (auto simp: bthread_step_def lock_Some)
    with go [of B_Test True] B_Lock show ?thesis by (auto simp: holds_def)
  next
    case B_Test
    with step q have "s' = go_to (if must_wait (b_kind ?t) q then B_Recheck else B_Queue) i s"
      by (simp add: bthread_step_def Let_def)
    with go_same [of B_Recheck] go_same [of B_Queue] B_Test show ?thesis by (auto simp: holds_def)
  next
    case B_Recheck
    with step q ok_check [OF q(2), of True] have "s' = go_to B_CondWait i s" by (simp add: bthread_step_def Let_def)
    with go_same [of B_CondWait] B_Recheck show ?thesis by (auto simp: holds_def)
  next
    case B_CondWait
    have "bmutex s" by (rule holder_mutex [OF inv i]) (simp add: holds_def B_CondWait)
    with B_CondWait step have "s' = go_to B_Asleep i (s\<lparr>bmutex := False\<rparr>)" by (simp add: bthread_step_def)
    with go [of B_Asleep False] B_CondWait \<open>bmutex s\<close> show ?thesis by (auto simp: holds_def)
  next
    case B_Asleep
    with step show ?thesis by (simp add: bthread_step_def)
  next
    case B_Relock
    with step have "\<not> bmutex s" "s' = go_to B_Test i (s\<lparr>bmutex := True\<rparr>)" by (auto simp: bthread_step_def lock_Some)
    with go [of B_Test True] B_Relock show ?thesis by (auto simp: holds_def)
  next
    case B_Queue
    show ?thesis
    proof (cases "b_kind ?t")
      case Producer
      obtain msg h r where g: "queue_generate_message_52 rand a junk (bmem s) (bseed s) = (msg, h, r)"
        by (metis surj_pair)
      from step B_Queue Producer q(1) g obtain p where p: "queue_push msg (Some q) = Done p"
        "s' = go_to B_Print i (s\<lparr>bqueue := p, bmem := h, bseed := r\<rparr>)"
        by (auto simp: bthread_step_def producer_queue_def queue_push_52_def and_then_Done)
      from push_some [OF p(1)] obtain q' where "p = Some q'" by blast
      with p(2) have "monitor_inv s' q'"
        by (intro monitor_queue_step [OF inv i B_Queue, where d = "b_data ?t"]) (simp_all add: go_to_put)
      then show ?thesis by blast
    next
      case Consumer
      from step B_Queue Consumer q(1) obtain d q' where
        "s' = put i (?t\<lparr>b_data := d, b_pc := B_Print\<rparr>) (s\<lparr>bqueue := Some q'\<rparr>)"
        by (auto simp: bthread_step_def consumer_queue_def and_then_Done split: prod.splits)
      then have "monitor_inv s' q'"
        by (intro monitor_queue_step [OF inv i B_Queue, where d = d]) simp_all
      then show ?thesis by blast
    qed
  next
    case B_Print
    have "\<exists>d. bthreads s' = (bthreads s)[i := ?t\<lparr>b_data := d, b_pc := B_Signal\<rparr>] \<and> n_pc s' = n_pc s
        \<and> bworking s' = bworking s \<and> bqueue s' = Some q \<and> bmutex s' = bmutex s"
    proof (cases "b_kind ?t")
      case Producer
      with step B_Print q(1) show ?thesis
        by (intro exI [of _ "b_data ?t"]) (auto simp: bthread_step_def go_to_put)
    next
      case Consumer
      have "?t\<lparr>b_pc := B_Signal\<rparr> = ?t\<lparr>b_data := None, b_pc := B_Signal\<rparr>" if "b_data ?t = None"
        using that by (cases ?t) simp
      with Consumer step B_Print q(1) show ?thesis
        by (cases "b_data ?t") (auto simp: bthread_step_def consumer_print_def go_to_put split: option.splits
          intro!: exI [of _ "b_data ?t"] exI [of _ None])
    qed
    then obtain d where d: "bthreads s' = (bthreads s)[i := ?t\<lparr>b_data := d, b_pc := B_Signal\<rparr>]" "n_pc s' = n_pc s"
      "bworking s' = bworking s" "bqueue s' = Some q" "bmutex s' = bmutex s" by blast
    have "monitor_inv s' q"
      by (rule monitor_thread [OF inv i d(1-4)]) (use B_Print d(5) in \<open>simp_all add: holds_def finished_def\<close>)
    then show ?thesis by blast
  next
    case B_Signal
    with step obtain s1 where s1: "cond_signal (other (b_kind ?t)) w s = Some s1" "s' = go_to B_Unlock i s1"
      by (auto simp: bthread_step_def)
    note sg = monitor_signal [OF inv s1(1)]
    from sg i B_Signal have t: "bthreads s1 ! i = ?t" "i < length (bthreads s1)" by auto
    have "monitor_inv (go_to B_Unlock i (s1\<lparr>bmutex := bmutex s1\<rparr>)) q"
      by (rule monitor_go_to) (use sg t B_Signal in \<open>simp_all add: holds_def\<close>)
    with s1(2) show ?thesis by auto
  next
    case B_Unlock
    have "bmutex s" by (rule holder_mutex [OF inv i]) (simp add: holds_def B_Unlock)
    with B_Unlock step have "s' = go_to B_Check i (s\<lparr>bmutex := False\<rparr>)" by (simp add: bthread_step_def)
    with go [of B_Check False] B_Unlock \<open>bmutex s\<close> show ?thesis by (auto simp: holds_def)
  next
    case B_Done
    with step show ?thesis by (simp add: bthread_step_def)
  next
    case B_Died
    with step show ?thesis by (simp add: bthread_step_def)
  qed
qed


subsection \<open>Steps of the main thread\<close>

lemma free_index_zero: "free_index ws = i \<Longrightarrow> in_range i ws \<Longrightarrow> 0 \<le> i \<and> ws ! nat i = 0"
proof (induction ws arbitrary: i)
  case Nil
  then show ?case by (simp add: in_range_def)
next
  case (Cons w ws)
  show ?case
  proof (cases "w = 0")
    case True
    with Cons.prems show ?thesis by auto
  next
    case False
    with Cons.prems have f: "i = free_index ws + 1" by simp
    have "free_index ws \<ge> 0" by (induction ws) simp_all
    with f Cons.prems Cons.IH [of "free_index ws"] show ?thesis by (auto simp: in_range_def nat_add_distrib)
  qed
qed

lemma monitor_create:
  assumes inv: "monitor_inv s q" and create: "create_thread_52 opt created s = Done s'"
  shows "monitor_inv s' q"
proof (cases "kind_of opt")
  case None
  with assms show ?thesis by (simp add: create_thread_52_def)
next
  case (Some k)
  define i where "i = free_index (bworking s k)"
  show ?thesis
  proof (cases "bcount s k < MAX_THREADS")
    case False
    with assms Some show ?thesis by (simp add: create_thread_52_def)
  next
    case True
    with create Some have r: "in_range i (bworking s k)"
      by (auto simp: create_thread_52_def i_def [symmetric] Let_def split: if_splits)
    from free_index_zero [OF i_def [symmetric] r] have z: "0 \<le> i" "bworking s k ! nat i = 0" by auto
    have len: "length (bworking s k) = 10" using inv by (simp add: monitor_inv_def)
    with r z(1) have i10: "nat i < 10" by (simp add: in_range_def)
    text \<open>No thread has this index.\<close>
    have ok: "thread_ok ((bworking s)(k := (bworking s k)[nat i := v])) q t" if "t \<in> set (bthreads s)" for t v
    proof -
      have t: "thread_ok (bworking s) q t" using inv that by (simp add: monitor_inv_def)
      then have "\<not> (b_kind t = k \<and> nat (b_ind t) = nat i)" using z(2) by (auto simp: thread_ok_def)
      with t show ?thesis by (auto simp: thread_ok_def nth_list_update)
    qed
    show ?thesis
    proof (cases created)
      case False
      with create Some True r have s': "s' = set_bworking k i 0 (set_bworking k i 1 s)"
        by (simp add: create_thread_52_def i_def [symmetric] Let_def)
      show ?thesis
        using inv ok [of _ 0] by (simp add: s' set_bworking_def monitor_inv_def)
    next
      case c: True
      define t where "t = \<lparr>b_kind = k, b_ind = i, b_pc = B_Check, b_data = None, b_cancel = False\<rparr>"
      from c create Some True r have s':
        "bthreads s' = bthreads s @ [t]" "n_pc s' = n_pc s" "bqueue s' = bqueue s" "bmutex s' = bmutex s"
        "bworking s' = (bworking s)(k := (bworking s k)[nat i := 1])"
        by (auto simp: create_thread_52_def i_def [symmetric] t_def set_bworking_def Let_def)
      have "thread_ok (bworking s') q t"
        using i10 len by (simp add: thread_ok_def t_def s'(5) finished_def)
      moreover have "holds t = 0" by (simp add: holds_def t_def)
      ultimately show ?thesis
        using inv ok [of _ 1] s' by (auto simp: monitor_inv_def)
    qed
  qed
qed

lemma monitor_dispatch:
  assumes inv: "monitor_inv s q" "n_pc s = N_Ready" and "\<not> closes option" "dispatch_52 option created s = Done s'"
  shows "monitor_inv s' q"
proof -
  have q: "bqueue s = Some q" using inv by (simp add: monitor_inv_def)
  have pc: "monitor_inv (s\<lparr>n_pc := c\<rparr>) q" if "c = N_ReduceLock \<or> c = N_ExpandLock" for c
    by (rule monitor_main [OF inv(1)]) (use inv(2) that q in \<open>auto simp: open_pc_def n_holds_def\<close>)
  have out: "monitor_inv (print_message_queue_52 s) q" "monitor_inv (print_counts_52 s) q"
    by (rule monitor_main [OF inv(1)],
      use inv in \<open>auto simp: print_message_queue_52_def print_counts_52_def monitor_inv_def\<close>)+
  from assms(3,4) show ?thesis
    unfolding dispatch_52_def closes_def
    using inv out pc [of N_ReduceLock] pc [of N_ExpandLock]
    by (auto simp only: outcome.inject simp_thms split: if_split_asm intro: monitor_create)
qed

lemma main_mutex: "monitor_inv s q \<Longrightarrow> n_holds (n_pc s) = 1 \<Longrightarrow> bmutex s"
  by (cases "bmutex s") (simp_all add: monitor_inv_def)

lemma monitor_main_step:
  assumes inv: "monitor_inv s q" and opt: "\<not> closes option"
    and step: "main_step_52 option created p w s = Some (Done s')"
  shows "\<exists>q'. monitor_inv s' q'"
proof -
  have q: "bqueue s = Some q" and op: "open_pc (n_pc s)" using inv by (simp_all add: monitor_inv_def)
  note mm = monitor_main [OF inv]
  show ?thesis
  proof (cases "n_pc s")
    case N_Ready
    with step have "dispatch_52 option created s = Done s'" by (simp add: main_step_52_def)
    from monitor_dispatch [OF inv N_Ready opt this] show ?thesis by blast
  next
    case N_ReduceLock
    with step have s': "\<not> bmutex s" "s' = s\<lparr>bmutex := True, n_pc := N_ReduceTest\<rparr>"
      by (auto simp: main_step_52_def lock_Some)
    have "monitor_inv s' q"
      by (rule mm) (use s' q N_ReduceLock in \<open>simp_all add: open_pc_def n_holds_def\<close>)
    then show ?thesis by blast
  next
    case N_ReduceTest
    have m: "bmutex s" by (rule main_mutex [OF inv]) (simp add: N_ReduceTest n_holds_def)
    from N_ReduceTest step q have s': "s' = (if queue_is_full q then s\<lparr>n_pc := N_ReduceAsleep, bmutex := False\<rparr>
        else s\<lparr>n_pc := N_Reduce\<rparr>)" by (auto simp: main_step_52_def split: if_splits)
    have "monitor_inv s' q"
      by (rule mm) (use s' q N_ReduceTest m in \<open>simp_all add: open_pc_def n_holds_def\<close>)
    then show ?thesis by blast
  next
    case N_ReduceRelock
    with step have s': "\<not> bmutex s" "s' = s\<lparr>bmutex := True, n_pc := N_ReduceTest\<rparr>"
      by (auto simp: main_step_52_def lock_Some)
    have "monitor_inv s' q"
      by (rule mm) (use s' q N_ReduceRelock in \<open>simp_all add: open_pc_def n_holds_def\<close>)
    then show ?thesis by blast
  next
    case N_Reduce
    from N_Reduce step q obtain x where x: "queue_reduce_52 (Some q) = Done x" "s' = s\<lparr>n_pc := N_ReduceUnlock, bqueue := x\<rparr>"
      by (auto simp: main_step_52_def and_then_Done simp del: queue_reduce_52.simps)
    then obtain q' where q': "x = Some q'" by (auto simp: and_then_Done split: if_splits)
    have "monitor_inv s' q'"
      by (rule mm) (use x(2) q' N_Reduce in \<open>simp_all add: open_pc_def n_holds_def\<close>)
    then show ?thesis by blast
  next
    case N_ReduceUnlock
    have m: "bmutex s" by (rule main_mutex [OF inv]) (simp add: N_ReduceUnlock n_holds_def)
    from N_ReduceUnlock step have s': "s' = s\<lparr>n_pc := N_Ready, bmutex := False\<rparr>" by (simp add: main_step_52_def)
    have "monitor_inv s' q"
      by (rule mm) (use s' q N_ReduceUnlock m in \<open>simp_all add: open_pc_def n_holds_def\<close>)
    then show ?thesis by blast
  next
    case N_ExpandLock
    with step have s': "\<not> bmutex s" "s' = s\<lparr>bmutex := True, n_pc := N_Expand\<rparr>"
      by (auto simp: main_step_52_def lock_Some)
    have "monitor_inv s' q"
      by (rule mm) (use s' q N_ExpandLock in \<open>simp_all add: open_pc_def n_holds_def\<close>)
    then show ?thesis by blast
  next
    case N_Expand
    from N_Expand step q obtain x where x: "queue_expand p (Some q) = Done x" "s' = s\<lparr>n_pc := N_ExpandUnlock, bqueue := x\<rparr>"
      by (auto simp: main_step_52_def and_then_Done queue_expand_52_def simp del: queue_expand.simps)
    from expand_counts [OF x(1)] obtain q' where q': "x = Some q'" by blast
    have "monitor_inv s' q'"
      by (rule mm) (use x(2) q' N_Expand in \<open>simp_all add: open_pc_def n_holds_def\<close>)
    then show ?thesis by blast
  next
    case N_ExpandUnlock
    have m: "bmutex s" by (rule main_mutex [OF inv]) (simp add: N_ExpandUnlock n_holds_def)
    from N_ExpandUnlock step have s': "s' = s\<lparr>n_pc := N_ExpandSignal, bmutex := False\<rparr>" by (simp add: main_step_52_def)
    have "monitor_inv s' q"
      by (rule mm) (use s' q N_ExpandUnlock m in \<open>simp_all add: open_pc_def n_holds_def\<close>)
    then show ?thesis by blast
  next
    case N_ExpandSignal
    with step obtain s1 where s1: "cond_signal Producer w s = Some s1" "s' = s1\<lparr>n_pc := N_Ready\<rparr>"
      by (auto simp: main_step_52_def)
    note sg = monitor_signal [OF inv s1(1)]
    then have i1: "monitor_inv s1 q" and pc1: "n_pc s1 = N_ExpandSignal" using N_ExpandSignal by auto
    have "monitor_inv s' q"
      by (rule monitor_main [OF i1]) (use s1(2) sg q pc1 in \<open>simp_all add: open_pc_def n_holds_def\<close>)
    then show ?thesis by blast
  qed (use step op in \<open>simp_all add: main_step_52_def open_pc_def\<close>)
qed

subsection \<open>The theorem\<close>

lemma monitor_step:
  assumes "bstep False rand s s'" "\<exists>q. monitor_inv s q"
  shows "\<exists>q. monitor_inv s' q"
proof -
  from assms(2) obtain q where inv: "monitor_inv s q" by blast
  from assms(1) show ?thesis
  proof cases
    case (thread i a junk w)
    with monitor_thread_step [OF inv] show ?thesis by blast
  next
    case (spurious i)
    have "monitor_inv (go_to B_Relock i (s\<lparr>bmutex := bmutex s\<rparr>)) q"
      by (rule monitor_go_to [OF inv spurious(3)]) (use spurious(4) in \<open>simp_all add: holds_def\<close>)
    with spurious(1) show ?thesis by auto
  next
    case spurious_main
    have "monitor_inv s' q"
      by (rule monitor_main [OF inv])
        (use spurious_main inv in \<open>simp_all add: open_pc_def n_holds_def monitor_inv_def\<close>)
    then show ?thesis by blast
  next
    case (cancel_sleep i)
    with thread_at(2) [OF inv, of i] show ?thesis by (simp add: thread_ok_def)
  next
    case (cancel_wait i s1)
    with thread_at(2) [OF inv, of i] show ?thesis by (simp add: thread_ok_def)
  next
    case (main option created p w)
    with monitor_main_step [OF inv, of option created p w s'] show ?thesis by blast
  qed
qed

lemma monitor_start:
  assumes "at_main_loop_52 s"
  shows "\<exists>q. monitor_inv s q"
proof -
  from assms obtain q fresh where q: "message_queue_init_52 (Some q) fresh = Inr (bqueue s)"
    unfolding at_main_loop_52_def by blast
  then have "bqueue s \<noteq> None" by (cases "bqueue s") (auto simp: message_queue_init_52_def queue_init_52_def)
  then obtain q' where "bqueue s = Some q'" by blast
  with assms have "monitor_inv s q'"
    by (auto simp: at_main_loop_52_def monitor_inv_def open_pc_def n_holds_def sync_init_52_def split: if_splits)
  then show ?thesis by blast
qed

interpretation monitor: invariant_system at_main_loop_52 "bstep False rand" "\<lambda>s. \<exists>q. monitor_inv s q" for rand
  by unfold_locales (erule monitor_start, erule (1) monitor_step [rotated])

text \<open>
  C11. As long as no thread is told to end, the mutex and the conditions guard the queue under every
  schedule, spurious wake-ups included: of all threads and the main thread at most one is between
  locking and unlocking, a producer pushes only into a free slot, a consumer pops only from a queue
  that is not empty, and the queue is reduced only when it is not full.
\<close>

theorem lab5_52_monitor:
  assumes "at_main_loop_52 s0" "steps (bstep False rand) s0 s"
  shows "\<exists>q. bqueue s = Some q
    \<and> tally holds (bthreads s) + n_holds (n_pc s) \<le> 1
    \<and> (\<forall>t \<in> set (bthreads s). b_pc t = B_Queue \<longrightarrow>
         (if b_kind t = Producer then dq_len q \<noteq> dq_max_len q else dq_len q \<noteq> 0))
    \<and> (n_pc s = N_Reduce \<longrightarrow> dq_len q \<noteq> dq_max_len q)"
proof -
  from monitor.inv_reachable [OF assms] obtain q where inv: "monitor_inv s q" by blast
  then have "tally holds (bthreads s) + n_holds (n_pc s) = of_bool (bmutex s)" by (simp add: monitor_inv_def)
  then have "tally holds (bthreads s) + n_holds (n_pc s) \<le> 1" by simp
  moreover have "if b_kind t = Producer then dq_len q \<noteq> dq_max_len q else dq_len q \<noteq> 0"
    if "t \<in> set (bthreads s)" "b_pc t = B_Queue" for t
  proof -
    have "thread_ok (bworking s) q t" using inv that(1) by (simp add: monitor_inv_def)
    with that(2) have "\<not> must_wait (b_kind t) q" by (simp add: thread_ok_def)
    then show ?thesis by (cases "b_kind t") (simp_all add: must_wait_def queue_is_full_def queue_is_empty_def)
  qed
  ultimately show ?thesis using inv by (intro exI [of _ q]) (auto simp: monitor_inv_def queue_is_full_def)
qed

end
