(* ===== verification/Lab5_Conds_Runs.thy ===== *)
theory Lab5_Conds_Runs
  imports Lab5_Monitor
begin

section \<open>lab5 (condition variables): runs of the program\<close>

text \<open>Schedules as executable functions and the theorems that rest on a concrete run.\<close>

datatype bact = Move nat addr "nat option" | Cancel_sleep nat | Cancel_wait nat | Main_move string "nat option"

definition empty_element :: message_queue_element_t where
  "empty_element = \<lparr>e_type = 0, e_hash = 0, e_size = 0, e_data = replicate 20 0\<rparr>"

definition done_state :: "'a outcome option \<Rightarrow> 'a option" where
  "done_state x = (case x of Some (Done s) \<Rightarrow> Some s | _ \<Rightarrow> None)"

fun bact_step :: "bool \<Rightarrow> 'r rng \<Rightarrow> bact \<Rightarrow> 'r bstate \<Rightarrow> 'r bstate option" where
  "bact_step closing rand (Move i a w) s =
     (if n_pc s \<noteq> N_Exited \<and> i < length (bthreads s) \<and> bmem s a = None
      then done_state (bthread_step rand a empty_element w i s) else None)"
| "bact_step closing rand (Cancel_sleep i) s =
     (if n_pc s \<noteq> N_Exited \<and> i < length (bthreads s) \<and> b_cancel (bthreads s ! i) \<and> b_pc (bthreads s ! i) = B_Sleep
      then Some (go_to B_Done i s) else None)"
| "bact_step closing rand (Cancel_wait i) s =
     (if n_pc s \<noteq> N_Exited \<and> i < length (bthreads s) \<and> b_cancel (bthreads s ! i) \<and> b_pc (bthreads s ! i) = B_Asleep
      then map_option (go_to B_Died i) (lock s) else None)"
| "bact_step closing rand (Main_move opt w) s =
     (if closing \<or> \<not> closes opt then done_state (main_step_52 opt True None w s) else None)"

lemma done_state_Some: "done_state x = Some s \<longleftrightarrow> x = Some (Done s)"
  by (auto simp: done_state_def split: option.splits outcome.splits)

lemma bact_step_sound: "bact_step closing rand a s = Some s' \<Longrightarrow> bstep closing rand s s'"
  by (cases a) (auto simp: done_state_Some split: if_splits intro: bstep.intros)

interpretation cond_runs: executable_steps "bstep closing rand" "bact_step closing rand" for closing rand
  by unfold_locales (rule bact_step_sound)

definition fresh_bstate :: "'r \<Rightarrow> 'r bstate" where
  "fresh_bstate r = \<lparr>bthreads = [], bmutex = False, bqueue = Some (mk_queue (replicate 10 None) 0 0 0),
     bmem = Map.empty, bseed = r, bworking = (\<lambda>k. replicate 10 0), bprinted = [],
     n_pc = N_Ready, bcount = (\<lambda>k. 0), btids = (\<lambda>k. replicate 10 0), bsaid = []\<rparr>"

lemma fresh_bstate_start: "at_main_loop_52 (fresh_bstate r)"
proof -
  have "sync_init_52 [] = Inr False" by (simp add: sync_init_52_def)
  moreover have "message_queue_init_52 (Some (mk_queue [] 0 0 0)) (replicate 10 None)
      = Inr (Some (mk_queue (replicate 10 None) 0 0 0))"
    by (simp add: message_queue_init_52_def queue_init_52_def queue_init_eq del: queue_init.simps)
  ultimately show ?thesis
    unfolding at_main_loop_52_def fresh_bstate_def
    by (intro conjI exI [of _ "[]"] exI [of _ "mk_queue [] 0 0 0"] exI [of _ "replicate 10 None"]) simp_all
qed

lemmas brun_from_fresh = cond_runs.run_all_reaches [where s = "fresh_bstate r" for r]

subsection \<open>A thread that unlocks another one's mutex\<close>

text \<open>
  C32. Closing breaks the mutual exclusion. A thread that is told to end finds out at the head of its
  loop, where \<open>checkTermProducer\<close> unlocks \<open>queue_mutex\<close> although the thread does not hold it. If
  another producer is just using the queue, a consumer can then enter its critical section too.
\<close>

theorem lab5_52_closing_unlocks:
  "\<exists>s0 s. at_main_loop_52 s0 \<and> steps (bstep True (\<lambda>r :: nat. (0, r))) s0 s
     \<and> map b_pc (bthreads s) = [B_Queue, B_Done, B_Test] \<and> tally holds (bthreads s) = 2"
proof -
  let ?P = "\<lambda>s. map b_pc (bthreads s) = [B_Queue, B_Done, B_Test] \<and> tally holds (bthreads s) = 2"
  have "case run_all (bact_step True (\<lambda>r. (0, r)))
      ([Main_move ''+'' None, Main_move ''+'' None, Main_move ''*'' None]
       @ replicate 4 (Move 0 0 None) @ [Main_move ''-'' None, Move 1 0 None] @ replicate 3 (Move 2 0 None))
      (fresh_bstate (0 :: nat)) of None \<Rightarrow> False | Some s \<Rightarrow> ?P s"
    by code_simp
  then obtain s where s: "steps (bstep True (\<lambda>r. (0, r))) (fresh_bstate (0 :: nat)) s" "?P s"
    by (rule brun_from_fresh)
  show ?thesis
    by (rule exI [of _ "fresh_bstate 0"], rule exI [of _ s]) (use s fresh_bstate_start in simp)
qed

subsection \<open>A mutex that nobody unlocks\<close>

lemma dead_mutex:
  assumes "bmutex s" "n_pc s = N_ExpandLock" "\<forall>t \<in> set (bthreads s). b_pc t = B_Died"
  shows "\<not> bstep closing rand s s'"
proof
  assume "bstep closing rand s s'"
  then show False
  proof cases
    case (thread i a junk w)
    with assms(3) have "b_pc (bthreads s ! i) = B_Died" by simp
    with thread(4) show False by (simp add: bthread_step_def)
  next
    case (spurious i)
    then have "bthreads s ! i \<in> set (bthreads s)" by simp
    with spurious(4) assms(3) show False by fastforce
  next
    case (cancel_sleep i)
    then have "bthreads s ! i \<in> set (bthreads s)" by simp
    with cancel_sleep(5) assms(3) show False by fastforce
  next
    case (cancel_wait i s1)
    with assms(1) show False by (simp add: lock_def)
  next
    case (main option created p w)
    with assms show False by (simp add: main_step_52_def lock_def)
  qed (use assms in simp)
qed

text \<open>
  A consumer that waits on the empty queue is cancelled when the user removes it.
  \<open>pthread_cond_wait\<close> takes the mutex before the thread ends, and no clean-up handler unlocks it: the
  next option that needs the queue, here the expansion, blocks the main thread for ever.
\<close>

theorem lab5_52_cancel_keeps_mutex:
  "\<exists>s0 s. at_main_loop_52 s0 \<and> steps (bstep True (\<lambda>r :: nat. (0, r))) s0 s
     \<and> n_pc s = N_ExpandLock \<and> (\<forall>s'. \<not> bstep True (\<lambda>r. (0, r)) s s')"
proof -
  let ?P = "\<lambda>s. bmutex s \<and> n_pc s = N_ExpandLock \<and> list_all (\<lambda>t. b_pc t = B_Died) (bthreads s)"
  have "case run_all (bact_step True (\<lambda>r. (0, r)))
      ([Main_move ''*'' None] @ replicate 6 (Move 0 0 None)
       @ [Main_move ''_'' None, Main_move '''' None, Cancel_wait 0, Main_move ''e'' None])
      (fresh_bstate (0 :: nat)) of None \<Rightarrow> False | Some s \<Rightarrow> ?P s"
    by code_simp
  then obtain s where s: "steps (bstep True (\<lambda>r. (0, r))) (fresh_bstate (0 :: nat)) s" "?P s"
    by (rule brun_from_fresh)
  with dead_mutex [of s] have "\<not> bstep True (\<lambda>r. (0, r)) s s'" for s' by (simp add: list_all_iff)
  with s fresh_bstate_start [of 0] show ?thesis by blast
qed

subsection \<open>Witnesses\<close>

theorem lab5_52_monitor_witness:
  "\<exists>s q. steps (bstep False (\<lambda>r :: nat. (0, r))) (fresh_bstate 0) s
     \<and> map b_pc (bthreads s) = [B_Lock, B_Queue] \<and> bqueue s = Some q \<and> dq_len q \<noteq> 0"
proof -
  let ?P = "\<lambda>s. map b_pc (bthreads s) = [B_Lock, B_Queue] \<and> map b_kind (bthreads s) = [Producer, Consumer]"
  have "case run_all (bact_step False (\<lambda>r. (0, r)))
      ([Main_move ''+'' None, Main_move ''*'' None] @ replicate 6 (Move 1 0 None)
       @ replicate 5 (Move 0 0 None) @ [Move 0 1 None, Move 0 1 (Some 1), Move 0 1 None, Move 0 1 None, Move 0 1 None]
       @ replicate 2 (Move 1 1 None))
      (fresh_bstate (0 :: nat)) of None \<Rightarrow> False | Some s \<Rightarrow> ?P s"
    by code_simp
  then obtain s where s: "steps (bstep False (\<lambda>r. (0, r))) (fresh_bstate (0 :: nat)) s" "?P s"
    by (rule brun_from_fresh)
  from lab5_52_monitor [OF fresh_bstate_start s(1)] obtain q where q: "bqueue s = Some q"
    "\<forall>t \<in> set (bthreads s). b_pc t = B_Queue \<longrightarrow>
       (if b_kind t = Producer then dq_len q \<noteq> dq_max_len q else dq_len q \<noteq> 0)" by blast
  from s(2) obtain a b where "bthreads s = [a, b]" "b_pc b = B_Queue" "b_kind b = Consumer"
    by (auto simp: map_eq_Cons_conv)
  with q(2) have "dq_len q \<noteq> 0" by auto
  then show ?thesis by (intro exI [of _ s] exI [of _ q]) (use s q(1) in simp)
qed

end
