(* ===== verification/Lab5_Wakeups.thy ===== *)
theory Lab5_Wakeups
  imports Lab5_Conds_Runs
begin

section \<open>lab5 (condition variables): no wake-up is lost\<close>

text \<open>
  \<open>pthread_cond_signal\<close> wakes one waiter and is not remembered. The threads signal after every push
  and every pop, \<open>e\<close> signals after the expansion, and \<open>r\<close> takes a free slot itself. The invariant:
  while a thread of some kind sleeps, there are no more items (free slots) it could take than
  threads that have been woken for them or are about to signal.
\<close>

subsection \<open>Counting those who are coming\<close>

text \<open>What a kind of threads waits for: free slots, or items.\<close>

definition avail :: "kind \<Rightarrow> message_queue_t \<Rightarrow> int" where
  "avail k q = (case k of Producer \<Rightarrow> dq_max_len q - dq_len q | Consumer \<Rightarrow> dq_len q)"

lemma must_wait_avail: "must_wait k q \<longleftrightarrow> avail k q = 0"
  by (auto simp: must_wait_def avail_def queue_is_full_def queue_is_empty_def split: kind.split)

definition coming :: "kind \<Rightarrow> bthread \<Rightarrow> nat" where
  "coming k t = of_bool (b_kind t = k \<and> b_pc t \<in> {B_Relock, B_Test, B_Queue}
     \<or> b_kind t = other k \<and> b_pc t \<in> {B_Print, B_Signal})"

definition n_coming :: "kind \<Rightarrow> npc \<Rightarrow> nat" where
  "n_coming k c = of_bool (k = Producer
     \<and> c \<in> {N_ReduceRelock, N_ReduceTest, N_Reduce, N_ExpandUnlock, N_ExpandSignal})"

text \<open>\<open>d\<close> is how many more of them there are than needed.\<close>

definition bound :: "kind \<Rightarrow> int \<Rightarrow> bthread list \<Rightarrow> npc \<Rightarrow> message_queue_t \<Rightarrow> bool" where
  "bound k d ts c q \<longleftrightarrow> list_ex (asleep_on k) ts \<longrightarrow>
     avail k q + d \<le> int (tally (coming k) ts) + int (n_coming k c)"

lemma other_other [simp]: "other (other k) = k"
  by (cases k) (simp_all add: other_def)

lemma other_neq [simp]: "other k \<noteq> k" "k \<noteq> other k"
  by (cases k; simp add: other_def)+

lemma bound_update:
  assumes i: "i < length ts" and b: "bound k d ts c q"
    and asleep: "asleep_on k t \<longrightarrow> asleep_on k (ts ! i) \<or> avail k q' + d' \<le> 0"
    and le: "avail k q' + d' + int (coming k (ts ! i)) \<le> avail k q + d + int (coming k t)"
  shows "bound k d' (ts[i := t]) c q'"
  unfolding bound_def
proof
  assume ex: "list_ex (asleep_on k) (ts[i := t])"
  have tl: "tally (coming k) (ts[i := t]) + coming k (ts ! i) = tally (coming k) ts + coming k t"
    by (rule tally_update [OF i])
  show "avail k q' + d' \<le> int (tally (coming k) (ts[i := t])) + int (n_coming k c)"
  proof (cases "asleep_on k t \<and> \<not> asleep_on k (ts ! i)")
    case True
    with asleep show ?thesis by simp
  next
    case False
    from ex obtain j where j: "j < length ts" "asleep_on k (ts[i := t] ! j)"
      by (auto simp: list_ex_iff in_set_conv_nth)
    with False i have "asleep_on k (ts ! j)" by (cases "j = i") auto
    with j(1) have "list_ex (asleep_on k) ts" by (auto simp: list_ex_iff)
    with b have "avail k q + d \<le> int (tally (coming k) ts) + int (n_coming k c)" by (simp add: bound_def)
    with le tl show ?thesis by linarith
  qed
qed

lemma bound_main:
  assumes "bound k d ts c q" "avail k q' + d' + int (n_coming k c) \<le> avail k q + d + int (n_coming k c')"
  shows "bound k d' ts c' q'"
  using assms by (auto simp: bound_def)

lemma bound_new: "bound k d ts c q \<Longrightarrow> b_pc t = B_Check \<Longrightarrow> bound k d (ts @ [t]) c q"
  by (simp add: bound_def asleep_on_def coming_def)

subsection \<open>The invariant\<close>

definition counts_ok :: "message_queue_t \<Rightarrow> bool" where
  "counts_ok q \<longleftrightarrow> 0 \<le> dq_len q \<and> dq_len q \<le> dq_max_len q"

definition waiters_ok :: "bthread list \<Rightarrow> message_queue_t \<Rightarrow> bool" where
  "waiters_ok ts q \<longleftrightarrow> (\<forall>t \<in> set ts. b_pc t \<in> {B_Recheck, B_CondWait} \<longrightarrow> avail (b_kind t) q = 0)"

definition wake_inv :: "'r bstate \<Rightarrow> message_queue_t \<Rightarrow> bool" where
  "wake_inv s q \<longleftrightarrow> monitor_inv s q \<and> counts_ok q \<and> waiters_ok (bthreads s) q
     \<and> (\<forall>k. bound k 0 (bthreads s) (n_pc s) q)"

lemma waiters_update:
  "waiters_ok ts q \<Longrightarrow> b_pc t \<in> {B_Recheck, B_CondWait} \<longrightarrow> avail (b_kind t) q = 0 \<Longrightarrow> waiters_ok (ts[i := t]) q"
  unfolding waiters_ok_def using set_update_subset_insert [of ts i t] by (metis insertE subsetD)

text \<open>Nobody is about to wait while the queue changes.\<close>

lemma waiters_none: "(\<And>t. t \<in> set ts \<Longrightarrow> holds t = 0) \<Longrightarrow> waiters_ok ts q"
proof -
  assume a: "\<And>t. t \<in> set ts \<Longrightarrow> holds t = 0"
  have "b_pc t \<notin> {B_Recheck, B_CondWait}" if t: "t \<in> set ts" for t
  proof
    assume "b_pc t \<in> {B_Recheck, B_CondWait}"
    then have "holds t = 1" by (cases "b_pc t") (simp_all add: holds_def)
    with a [OF t] show False by simp
  qed
  then show ?thesis by (simp add: waiters_ok_def)
qed

lemma wake_invI:
  "\<exists>q. monitor_inv s q \<Longrightarrow> bqueue s = Some q' \<Longrightarrow> counts_ok q' \<Longrightarrow> waiters_ok (bthreads s) q' \<Longrightarrow>
   (\<And>k. bound k 0 (bthreads s) (n_pc s) q') \<Longrightarrow> wake_inv s q'"
  by (auto simp: wake_inv_def monitor_inv_def)

subsection \<open>Steps of the threads\<close>

text \<open>The move of a thread that does not signal: the locations it leads from and to.\<close>

definition quiet_moves :: "(bpc \<times> bpc) set" where
  "quiet_moves = {(B_Check, B_Sleep), (B_Sleep, B_Lock), (B_Lock, B_Test), (B_Relock, B_Test),
     (B_Test, B_Recheck), (B_Test, B_Queue), (B_Recheck, B_CondWait), (B_CondWait, B_Asleep),
     (B_Print, B_Signal), (B_Unlock, B_Check), (B_Asleep, B_Relock)}"

lemma wake_quiet:
  assumes inv: "wake_inv s q" and i: "i < length (bthreads s)" and m: "\<exists>q. monitor_inv s' q"
    and s': "bthreads s' = (bthreads s)[i := t']" "n_pc s' = n_pc s" "bqueue s' = Some q"
    and t': "b_kind t' = b_kind (bthreads s ! i)" "(b_pc (bthreads s ! i), b_pc t') \<in> quiet_moves"
    and wait: "b_pc t' = B_Recheck \<Longrightarrow> avail (b_kind t') q = 0"
  shows "wake_inv s' q"
proof (rule wake_invI [OF m s'(3)])
  let ?t = "bthreads s ! i"
  have w: "waiters_ok (bthreads s) q" and c: "counts_ok q" using inv by (simp_all add: wake_inv_def)
  have held: "b_pc ?t \<in> {B_Recheck, B_CondWait} \<longrightarrow> avail (b_kind ?t) q = 0"
    using w i by (simp add: waiters_ok_def)
  show "counts_ok q" by (rule c)
  have "b_pc t' \<in> {B_Recheck, B_CondWait} \<longrightarrow> avail (b_kind t') q = 0"
    using t' wait held by (auto simp: quiet_moves_def)
  with w show "waiters_ok (bthreads s') q" unfolding s'(1) by (rule waiters_update)
  fix k
  have asleep: "asleep_on k t' \<longrightarrow> asleep_on k ?t \<or> avail k q + 0 \<le> 0"
    using t' held by (auto simp: asleep_on_def quiet_moves_def)
  have zero: "avail k q = 0" if "b_kind ?t = k" "b_pc t' = B_Recheck"
    using that wait t'(1) by simp
  show "bound k 0 (bthreads s') (n_pc s') q"
  proof (cases "b_pc t' = B_Recheck \<and> b_kind ?t = k")
    case True
    then show ?thesis using zero by (simp add: bound_def)
  next
    case False
    have b: "bound k 0 (bthreads s) (n_pc s) q" using inv by (simp add: wake_inv_def)
    have "coming k ?t \<le> coming k t'"
      using t' False by (auto simp: coming_def quiet_moves_def)
    then show ?thesis unfolding s'(1,2) by (intro bound_update [OF i b asleep]) simp
  qed
qed

lemma quiet_step:
  assumes inv: "monitor_inv s q" and i: "i < length (bthreads s)"
    and step: "bthread_step rand a junk w i s = Some (Done s')"
    and pc: "b_pc (bthreads s ! i) \<noteq> B_Queue" "b_pc (bthreads s ! i) \<noteq> B_Signal"
  shows "\<exists>t'. bthreads s' = (bthreads s)[i := t'] \<and> n_pc s' = n_pc s \<and> bqueue s' = Some q
    \<and> b_kind t' = b_kind (bthreads s ! i) \<and> (b_pc (bthreads s ! i), b_pc t') \<in> quiet_moves
    \<and> (b_pc t' = B_Recheck \<longrightarrow> avail (b_kind t') q = 0)"
proof -
  let ?t = "bthreads s ! i"
  note q = thread_at [OF inv i]
  have goto: ?thesis if "s' = go_to c i s1" "bthreads s1 = bthreads s" "n_pc s1 = n_pc s" "bqueue s1 = Some q"
    "(b_pc ?t, c) \<in> quiet_moves" "c = B_Recheck \<Longrightarrow> avail (b_kind ?t) q = 0" for c s1
    using that by (intro exI [of _ "?t\<lparr>b_pc := c\<rparr>"]) (simp add: go_to_put)
  show ?thesis
  proof (cases "b_pc ?t")
    case B_Check
    with step q ok_check [OF q(2), of True] have "s' = go_to B_Sleep i s" by (simp add: bthread_step_def Let_def)
    then show ?thesis by (rule goto) (simp_all add: q B_Check quiet_moves_def)
  next
    case B_Sleep
    with step have "s' = go_to B_Lock i s" by (simp add: bthread_step_def)
    then show ?thesis by (rule goto) (simp_all add: q B_Sleep quiet_moves_def)
  next
    case B_Lock
    with step have "s' = go_to B_Test i (s\<lparr>bmutex := True\<rparr>)" by (auto simp: bthread_step_def lock_Some)
    then show ?thesis by (rule goto) (simp_all add: q B_Lock quiet_moves_def)
  next
    case B_Relock
    with step have "s' = go_to B_Test i (s\<lparr>bmutex := True\<rparr>)" by (auto simp: bthread_step_def lock_Some)
    then show ?thesis by (rule goto) (simp_all add: q B_Relock quiet_moves_def)
  next
    case B_Test
    with step q have "s' = go_to (if must_wait (b_kind ?t) q then B_Recheck else B_Queue) i s"
      by (simp add: bthread_step_def Let_def)
    then show ?thesis
      by (rule goto) (simp_all add: q B_Test quiet_moves_def must_wait_avail split: if_splits)
  next
    case B_Recheck
    with step q ok_check [OF q(2), of True] have "s' = go_to B_CondWait i s" by (simp add: bthread_step_def Let_def)
    then show ?thesis by (rule goto) (simp_all add: q B_Recheck quiet_moves_def)
  next
    case B_CondWait
    with step have "s' = go_to B_Asleep i (s\<lparr>bmutex := False\<rparr>)" by (simp add: bthread_step_def)
    then show ?thesis by (rule goto) (simp_all add: q B_CondWait quiet_moves_def)
  next
    case B_Unlock
    with step have "s' = go_to B_Check i (s\<lparr>bmutex := False\<rparr>)" by (simp add: bthread_step_def)
    then show ?thesis by (rule goto) (simp_all add: q B_Unlock quiet_moves_def)
  next
    case B_Print
    show ?thesis
    proof (cases "b_kind ?t = Consumer \<and> b_data ?t \<noteq> None")
      case True
      with step B_Print have "bthreads s' = (bthreads s)[i := ?t\<lparr>b_data := None, b_pc := B_Signal\<rparr>]
          \<and> n_pc s' = n_pc s \<and> bqueue s' = bqueue s"
        by (auto simp: bthread_step_def consumer_print_def split: option.splits)
      then show ?thesis using q B_Print
        by (intro exI [of _ "?t\<lparr>b_data := None, b_pc := B_Signal\<rparr>"]) (simp add: quiet_moves_def)
    next
      case False
      then have "s' = go_to B_Signal i s"
        using step B_Print by (cases "b_kind ?t") (auto simp: bthread_step_def consumer_print_def)
      then show ?thesis by (rule goto) (simp_all add: q B_Print quiet_moves_def)
    qed
  qed (use step pc in \<open>simp_all add: bthread_step_def\<close>)
qed

text \<open>A push or a pop: what one kind waits for is one less, what the other one waits for is one more.\<close>

lemma queue_step:
  assumes inv: "monitor_inv s q" "counts_ok q" and i: "i < length (bthreads s)" "b_pc (bthreads s ! i) = B_Queue"
    and step: "bthread_step rand a junk w i s = Some (Done s')"
  shows "\<exists>t' q'. bthreads s' = (bthreads s)[i := t'] \<and> n_pc s' = n_pc s \<and> bqueue s' = Some q'
    \<and> b_kind t' = b_kind (bthreads s ! i) \<and> b_pc t' = B_Print \<and> counts_ok q'
    \<and> avail (b_kind t') q' = avail (b_kind t') q - 1 \<and> avail (other (b_kind t')) q' = avail (other (b_kind t')) q + 1"
proof -
  let ?t = "bthreads s ! i"
  note q = thread_at [OF inv(1) i(1)]
  have go: "\<not> must_wait (b_kind ?t) q" using q(2) i(2) by (simp add: thread_ok_def)
  show ?thesis
  proof (cases "b_kind ?t")
    case Producer
    obtain msg h r where g: "queue_generate_message_52 rand a junk (bmem s) (bseed s) = (msg, h, r)"
      by (metis surj_pair)
    then have msg: "msg = Some a" unfolding queue_generate_message_52_def by (rule generate_some)
    from step i(2) Producer q(1) g obtain p where p: "queue_push msg (Some q) = Done p"
      "s' = go_to B_Print i (s\<lparr>bqueue := p, bmem := h, bseed := r\<rparr>)"
      by (auto simp: bthread_step_def producer_queue_def queue_push_52_def and_then_Done)
    from push_some [OF p(1)] obtain q' where q': "p = Some q'" by blast
    have "dq_len q < dq_max_len q"
      using go Producer inv(2) by (simp add: must_wait_def queue_is_full_def counts_ok_def)
    from push_counts [OF p(1) [unfolded msg q'] this] have "dq_len q' = dq_len q + 1 \<and> dq_max_len q' = dq_max_len q" .
    then show ?thesis
      using p(2) q' Producer inv(2) \<open>dq_len q < dq_max_len q\<close>
      by (intro exI [of _ "?t\<lparr>b_pc := B_Print\<rparr>"] exI [of _ q']) (simp add: go_to_put avail_def other_def counts_ok_def)
  next
    case Consumer
    from step i(2) Consumer q(1) obtain d q' where d: "queue_pop (Some q) = Done (d, q')"
      "s' = put i (?t\<lparr>b_data := d, b_pc := B_Print\<rparr>) (s\<lparr>bqueue := Some q'\<rparr>)"
      by (auto simp: bthread_step_def consumer_queue_def queue_pop_52_def and_then_Done simp del: queue_pop.simps split: prod.splits)
    have "0 < dq_len q"
      using go Consumer inv(2) by (simp add: must_wait_def queue_is_empty_def counts_ok_def)
    from pop_counts [OF d(1) this] have "dq_len q' = dq_len q - 1 \<and> dq_max_len q' = dq_max_len q" .
    then show ?thesis
      using d(2) Consumer inv(2) \<open>0 < dq_len q\<close>
      by (intro exI [of _ "?t\<lparr>b_data := d, b_pc := B_Print\<rparr>"] exI [of _ q']) (simp add: avail_def other_def counts_ok_def)
  qed
qed

lemma kind_cases: "k' = k \<or> k' = other k"
  by (cases k; cases k') (simp_all add: other_def)

lemma wake_queue:
  assumes inv: "wake_inv s q" and i: "i < length (bthreads s)" "b_pc (bthreads s ! i) = B_Queue"
    and m: "\<exists>q. monitor_inv s' q"
    and s': "bthreads s' = (bthreads s)[i := t']" "n_pc s' = n_pc s" "bqueue s' = Some q'"
    and t': "b_kind t' = b_kind (bthreads s ! i)" "b_pc t' = B_Print" "counts_ok q'"
      "avail (b_kind t') q' = avail (b_kind t') q - 1" "avail (other (b_kind t')) q' = avail (other (b_kind t')) q + 1"
  shows "wake_inv s' q'"
proof (rule wake_invI [OF m s'(3)])
  let ?t = "bthreads s ! i"
  have mi: "monitor_inv s q" using inv by (simp add: wake_inv_def)
  have h: "holds ?t = 1" by (simp add: holds_def i(2))
  show "counts_ok q'" by (rule t'(3))
  have "waiters_ok (bthreads s) q'" unfolding waiters_ok_def
  proof
    fix t assume "t \<in> set (bthreads s)"
    then obtain j where j: "j < length (bthreads s)" "t = bthreads s ! j" by (auto simp: in_set_conv_nth)
    have "b_pc t \<notin> {B_Recheck, B_CondWait}"
    proof (cases "j = i")
      case False
      from holder_alone(2) [OF mi i(1) h j(1) False] have "holds t = 0" by (simp only: j(2))
      then show ?thesis by (cases "b_pc t") (simp_all add: holds_def)
    qed (simp add: j i(2))
    then show "b_pc t \<in> {B_Recheck, B_CondWait} \<longrightarrow> avail (b_kind t) q' = 0" by blast
  qed
  then show "waiters_ok (bthreads s') q'" unfolding s'(1) by (rule waiters_update) (simp add: t')
  fix k
  have b: "bound k 0 (bthreads s) (n_pc s) q" using inv by (simp add: wake_inv_def)
  have "avail k q' + 0 + int (coming k ?t) \<le> avail k q + 0 + int (coming k t')"
    using kind_cases [of k "b_kind ?t"] t' i(2) by (auto simp: coming_def)
  moreover have "asleep_on k t' \<longrightarrow> asleep_on k ?t \<or> avail k q' + 0 \<le> 0" by (simp add: asleep_on_def t')
  ultimately show "bound k 0 (bthreads s') (n_pc s') q'"
    unfolding s'(1,2) by (intro bound_update [OF i(1) b])
qed

subsection \<open>Signals\<close>

lemma bound_weaken: "bound k 1 ts c q \<Longrightarrow> bound k 0 ts c q"
  by (erule bound_main) simp

lemma signal_bound:
  assumes b: "\<And>k. bound k 0 (bthreads s) (n_pc s) q" and w: "waiters_ok (bthreads s) q"
    and sg: "cond_signal k w s = Some s1"
  shows "bound k 1 (bthreads s1) (n_pc s1) q \<and> (\<forall>k. bound k 0 (bthreads s1) (n_pc s1) q) \<and> waiters_ok (bthreads s1) q"
proof (cases w)
  case None
  show ?thesis
  proof (cases "k = Producer \<and> n_pc s = N_ReduceAsleep")
    case True
    with sg None have s1: "s1 = s\<lparr>n_pc := N_ReduceRelock\<rparr>" by (simp add: cond_signal_def)
    have "bound k 1 (bthreads s) N_ReduceRelock q" "bound k' 0 (bthreads s) N_ReduceRelock q" for k'
      by (rule bound_main [OF b]; simp add: True n_coming_def)+
    with w show ?thesis by (simp add: s1)
  next
    case False
    with sg None have "s1 = s" "\<not> list_ex (asleep_on k) (bthreads s)"
      by (auto simp: cond_signal_def split: if_splits)
    with b w show ?thesis by (simp add: bound_def)
  qed
next
  case (Some j)
  let ?t = "(bthreads s ! j)\<lparr>b_pc := B_Relock\<rparr>"
  from Some sg have j: "j < length (bthreads s)" "b_kind (bthreads s ! j) = k" "b_pc (bthreads s ! j) = B_Asleep"
    "s1 = go_to B_Relock j s"
    by (auto simp: cond_signal_def asleep_on_def split: if_splits)
  have "bound k 1 ((bthreads s)[j := ?t]) (n_pc s) q"
    by (rule bound_update [OF j(1) b]) (simp_all add: asleep_on_def coming_def j)
  moreover have "bound k' 0 ((bthreads s)[j := ?t]) (n_pc s) q" for k'
    by (rule bound_update [OF j(1) b]) (simp_all add: asleep_on_def coming_def j)
  moreover have "waiters_ok ((bthreads s)[j := ?t]) q" by (rule waiters_update [OF w]) simp
  ultimately show ?thesis by (simp add: j(4) go_to_put)
qed

lemma wake_thread_signal:
  assumes inv: "wake_inv s q" and i: "i < length (bthreads s)" "b_pc (bthreads s ! i) = B_Signal"
    and m: "\<exists>q. monitor_inv s' q" and step: "bthread_step rand a junk w i s = Some (Done s')"
  shows "wake_inv s' q"
proof -
  let ?t = "bthreads s ! i" and ?k = "b_kind (bthreads s ! i)"
  have mi: "monitor_inv s q" and c: "counts_ok q" and wt: "waiters_ok (bthreads s) q"
    and b: "\<And>k. bound k 0 (bthreads s) (n_pc s) q"
    using inv by (simp_all add: wake_inv_def)
  from step i(2) obtain s1 where s1: "cond_signal (other ?k) w s = Some s1" "s' = go_to B_Unlock i s1"
    by (auto simp: bthread_step_def)
  note sb = signal_bound [OF b wt s1(1)] and ms = monitor_signal [OF mi s1(1)]
  have t: "bthreads s1 ! i = ?t" "i < length (bthreads s1)" "bqueue s1 = Some q"
    using ms i thread_at(1) [OF mi i(1)] by auto
  have th: "bthreads s' = (bthreads s1)[i := ?t\<lparr>b_pc := B_Unlock\<rparr>]" "n_pc s' = n_pc s1" "bqueue s' = Some q"
    using t by (simp_all add: s1(2) go_to_put)
  show ?thesis
  proof (rule wake_invI [OF m th(3) c])
    show "waiters_ok (bthreads s') q" unfolding th(1) by (rule waiters_update) (use sb in simp_all)
    fix k
    show "bound k 0 (bthreads s') (n_pc s') q"
    proof (cases "k = ?k")
      case True
      have "bound k 0 (bthreads s1) (n_pc s1) q" using sb by blast
      then show ?thesis unfolding th(1,2)
        by (rule bound_update [OF t(2)]) (simp_all add: t(1) i(2) True asleep_on_def coming_def)
    next
      case False
      with kind_cases [of k ?k] have k: "k = other ?k" by blast
      have "bound k 1 (bthreads s1) (n_pc s1) q" using sb k by simp
      then show ?thesis unfolding th(1,2)
        by (rule bound_update [OF t(2)]) (simp_all add: t(1) i(2) k asleep_on_def coming_def)
    qed
  qed
qed

lemma wake_thread_step:
  assumes inv: "wake_inv s q" and i: "i < length (bthreads s)"
    and step: "bthread_step rand a junk w i s = Some (Done s')"
  shows "\<exists>q'. wake_inv s' q'"
proof -
  have mi: "monitor_inv s q" and c: "counts_ok q" using inv by (simp_all add: wake_inv_def)
  note m = monitor_thread_step [OF mi i step]
  consider (queue) "b_pc (bthreads s ! i) = B_Queue" | (signal) "b_pc (bthreads s ! i) = B_Signal"
    | (quiet) "b_pc (bthreads s ! i) \<noteq> B_Queue" "b_pc (bthreads s ! i) \<noteq> B_Signal" by blast
  then show ?thesis
  proof cases
    case queue
    from queue_step [OF mi c i queue step] wake_queue [OF inv i queue m] show ?thesis by blast
  next
    case signal
    from wake_thread_signal [OF inv i signal m step] show ?thesis by blast
  next
    case quiet
    from quiet_step [OF mi i step quiet] wake_quiet [OF inv i m] show ?thesis by blast
  qed
qed

subsection \<open>Steps of the main thread\<close>

lemma reduce_52_counts:
  assumes "queue_reduce_52 (Some q) = Done x" "\<not> queue_is_full q" "counts_ok q"
  shows "\<exists>q'. x = Some q' \<and> dq_len q' = dq_len q \<and> dq_max_len q' = dq_max_len q - 1"
  using assms by (auto simp: and_then_Done reduce_body_def Let_def queue_is_full_def counts_ok_def split: if_splits)

lemma wake_main:
  assumes inv: "wake_inv s q" and m: "\<exists>q. monitor_inv s' q"
    and s': "bthreads s' = bthreads s" "bqueue s' = Some q'" "counts_ok q'"
    and queue: "q' = q \<or> n_holds (n_pc s) = 1"
    and le: "\<And>k. avail k q' + int (n_coming k (n_pc s)) \<le> avail k q + int (n_coming k (n_pc s')) \<or> avail k q' \<le> 0"
  shows "wake_inv s' q'"
proof (rule wake_invI [OF m s'(2,3)])
  have mi: "monitor_inv s q" and w: "waiters_ok (bthreads s) q" using inv by (simp_all add: wake_inv_def)
  from queue show "waiters_ok (bthreads s') q'"
  proof
    assume "q' = q"
    with w show ?thesis by (simp add: s'(1))
  next
    assume "n_holds (n_pc s) = 1"
    from main_alone [OF mi this] show ?thesis unfolding s'(1) by (rule waiters_none)
  qed
  fix k
  have b: "bound k 0 (bthreads s) (n_pc s) q" using inv by (simp add: wake_inv_def)
  from le [of k] show "bound k 0 (bthreads s') (n_pc s') q'"
  proof
    assume "avail k q' + int (n_coming k (n_pc s)) \<le> avail k q + int (n_coming k (n_pc s'))"
    then show ?thesis unfolding s'(1) by (intro bound_main [OF b]) simp
  next
    assume "avail k q' \<le> 0"
    then show ?thesis by (simp add: bound_def)
  qed
qed

lemma wake_dispatch:
  assumes inv: "wake_inv s q" and pc: "n_pc s = N_Ready" and m: "\<exists>q. monitor_inv s' q"
    and "\<not> closes option" "dispatch_52 option created s = Done s'"
  shows "wake_inv s' q"
proof -
  have mi: "monitor_inv s q" and c: "counts_ok q" using inv by (simp_all add: wake_inv_def)
  have q: "bqueue s = Some q" using mi by (simp add: monitor_inv_def)
  have create: "wake_inv s' q" if "create_thread_52 opt created s = Done s'" for opt
  proof -
    have "bqueue s' = Some q \<and> n_pc s' = N_Ready \<and> (bthreads s' = bthreads s \<or> (\<exists>t. bthreads s' = bthreads s @ [t] \<and> b_pc t = B_Check))"
      using that pc q
      by (auto simp: create_thread_52_def set_bworking_def Let_def split: option.splits if_splits)
    then have s': "bqueue s' = Some q" "n_pc s' = N_Ready"
      and th: "bthreads s' = bthreads s \<or> (\<exists>t. bthreads s' = bthreads s @ [t] \<and> b_pc t = B_Check)" by auto
    from th show ?thesis
    proof
      assume "bthreads s' = bthreads s"
      then show ?thesis by (intro wake_main [OF inv m]) (simp_all add: s' c pc)
    next
      assume "\<exists>t. bthreads s' = bthreads s @ [t] \<and> b_pc t = B_Check"
      then obtain t where t: "bthreads s' = bthreads s @ [t]" "b_pc t = B_Check" by blast
      show ?thesis
      proof (rule wake_invI [OF m s'(1) c])
        show "waiters_ok (bthreads s') q" using inv t by (simp add: wake_inv_def waiters_ok_def)
        show "bound k 0 (bthreads s') (n_pc s') q" for k
          using inv pc bound_new [OF _ t(2)] by (simp add: wake_inv_def t(1) s'(2))
      qed
    qed
  qed
  have plain: "wake_inv s' q" if "bthreads s' = bthreads s" "bqueue s' = bqueue s" "n_pc s' \<in> {N_Ready, N_ReduceLock, N_ExpandLock}"
    by (rule wake_main [OF inv m]) (use that q c pc in \<open>auto simp: n_coming_def\<close>)
  have out: "bthreads (print_message_queue_52 s) = bthreads s" "bqueue (print_message_queue_52 s) = bqueue s"
    "n_pc (print_message_queue_52 s) = n_pc s"
    by (simp_all add: print_message_queue_52_def q)
  from assms(4,5) show ?thesis
    unfolding dispatch_52_def closes_def
    using create plain out pc
    by (auto simp: print_counts_52_def split: if_split_asm)
qed

lemma wake_main_step:
  assumes inv: "wake_inv s q" and opt: "\<not> closes option"
    and step: "main_step_52 option created p w s = Some (Done s')"
  shows "\<exists>q'. wake_inv s' q'"
proof -
  have mi: "monitor_inv s q" and c: "counts_ok q" and wt: "waiters_ok (bthreads s) q"
    and b: "\<And>k. bound k 0 (bthreads s) (n_pc s) q"
    using inv by (simp_all add: wake_inv_def)
  have q: "bqueue s = Some q" and op: "open_pc (n_pc s)" using mi by (simp_all add: monitor_inv_def)
  note m = monitor_main_step [OF mi opt step]
  note wm = wake_main [OF inv m]
  show ?thesis
  proof (cases "n_pc s")
    case N_Ready
    with step have "dispatch_52 option created s = Done s'" by (simp add: main_step_52_def)
    from wake_dispatch [OF inv N_Ready m opt this] show ?thesis ..
  next
    case N_ReduceLock
    with step have "s' = s\<lparr>bmutex := True, n_pc := N_ReduceTest\<rparr>" by (auto simp: main_step_52_def lock_Some)
    then have "wake_inv s' q" by (intro wm) (simp_all add: q c N_ReduceLock n_coming_def)
    then show ?thesis ..
  next
    case N_ReduceTest
    from N_ReduceTest step q have s': "s' = (if queue_is_full q then s\<lparr>n_pc := N_ReduceAsleep, bmutex := False\<rparr>
        else s\<lparr>n_pc := N_Reduce\<rparr>)" by (auto simp: main_step_52_def split: if_splits)
    have "avail k q + int (n_coming k (n_pc s)) \<le> avail k q + int (n_coming k (n_pc s')) \<or> avail k q \<le> 0" for k
      by (cases k; cases "queue_is_full q") (simp_all add: s' N_ReduceTest n_coming_def avail_def queue_is_full_def)
    then have "wake_inv s' q" by (intro wm) (simp_all add: s' q c)
    then show ?thesis ..
  next
    case N_ReduceRelock
    with step have "s' = s\<lparr>bmutex := True, n_pc := N_ReduceTest\<rparr>" by (auto simp: main_step_52_def lock_Some)
    then have "wake_inv s' q" by (intro wm) (simp_all add: q c N_ReduceRelock n_coming_def)
    then show ?thesis ..
  next
    case N_Reduce
    then have room: "\<not> queue_is_full q" using mi by (simp add: monitor_inv_def)
    from N_Reduce step q obtain x where x: "queue_reduce_52 (Some q) = Done x" "s' = s\<lparr>n_pc := N_ReduceUnlock, bqueue := x\<rparr>"
      by (auto simp: main_step_52_def and_then_Done simp del: queue_reduce_52.simps)
    from reduce_52_counts [OF x(1) room c] obtain q' where
      q': "x = Some q'" "dq_len q' = dq_len q" "dq_max_len q' = dq_max_len q - 1" by blast
    have "counts_ok q'" using q' room c by (simp add: counts_ok_def queue_is_full_def)
    moreover have "avail k q' + int (n_coming k (n_pc s)) \<le> avail k q + int (n_coming k (n_pc s'))" for k
      by (cases k) (simp_all add: x(2) q' N_Reduce n_coming_def avail_def)
    ultimately have "wake_inv s' q'" by (intro wm) (simp_all add: x(2) q'(1) N_Reduce n_holds_def)
    then show ?thesis ..
  next
    case N_ReduceUnlock
    with step have "s' = s\<lparr>n_pc := N_Ready, bmutex := False\<rparr>" by (simp add: main_step_52_def)
    then have "wake_inv s' q" by (intro wm) (simp_all add: q c N_ReduceUnlock n_coming_def)
    then show ?thesis ..
  next
    case N_ExpandLock
    with step have "s' = s\<lparr>bmutex := True, n_pc := N_Expand\<rparr>" by (auto simp: main_step_52_def lock_Some)
    then have "wake_inv s' q" by (intro wm) (simp_all add: q c N_ExpandLock n_coming_def)
    then show ?thesis ..
  next
    case N_Expand
    from N_Expand step q obtain x where x: "queue_expand p (Some q) = Done x" "s' = s\<lparr>n_pc := N_ExpandUnlock, bqueue := x\<rparr>"
      by (auto simp: main_step_52_def and_then_Done queue_expand_52_def simp del: queue_expand.simps)
    from expand_counts [OF x(1)] obtain q' where
      q': "x = Some q'" "dq_len q' = dq_len q" "dq_max_len q' = dq_max_len q + 1" by blast
    have "counts_ok q'" using q' c by (simp add: counts_ok_def)
    moreover have "avail k q' + int (n_coming k (n_pc s)) \<le> avail k q + int (n_coming k (n_pc s'))" for k
      by (cases k) (simp_all add: x(2) q' N_Expand n_coming_def avail_def)
    ultimately have "wake_inv s' q'" by (intro wm) (simp_all add: x(2) q'(1) N_Expand n_holds_def)
    then show ?thesis ..
  next
    case N_ExpandUnlock
    with step have "s' = s\<lparr>n_pc := N_ExpandSignal, bmutex := False\<rparr>" by (simp add: main_step_52_def)
    then have "wake_inv s' q" by (intro wm) (simp_all add: q c N_ExpandUnlock n_coming_def)
    then show ?thesis ..
  next
    case N_ExpandSignal
    with step obtain s1 where s1: "cond_signal Producer w s = Some s1" "s' = s1\<lparr>n_pc := N_Ready\<rparr>"
      by (auto simp: main_step_52_def)
    note sb = signal_bound [OF b wt s1(1)] and ms = monitor_signal [OF mi s1(1)]
    have pc1: "n_pc s1 = N_ExpandSignal" using ms N_ExpandSignal by auto
    have "bound k 0 (bthreads s') (n_pc s') q" for k
    proof (cases k)
      case Producer
      have "bound Producer 1 (bthreads s1) N_ExpandSignal q" using sb pc1 by simp
      then show ?thesis unfolding Producer s1(2) by (simp, elim bound_main) (simp add: n_coming_def)
    next
      case Consumer
      have "bound Consumer 0 (bthreads s1) N_ExpandSignal q" using sb pc1 by metis
      then show ?thesis unfolding Consumer s1(2) by (simp, elim bound_main) (simp add: n_coming_def)
    qed
    then have "wake_inv s' q"
      using sb ms q by (intro wake_invI [OF m _ c]) (simp_all add: s1(2))
    then show ?thesis ..
  qed (use step op in \<open>simp_all add: main_step_52_def open_pc_def\<close>)
qed

lemma wake_step:
  assumes "bstep False rand s s'" "\<exists>q. wake_inv s q"
  shows "\<exists>q. wake_inv s' q"
proof -
  from assms(2) obtain q where inv: "wake_inv s q" by blast
  then have mi: "monitor_inv s q" by (simp add: wake_inv_def)
  have m: "\<exists>q. monitor_inv s' q" using monitor_step [OF assms(1)] mi by blast
  have q: "bqueue s = Some q" using mi by (simp add: monitor_inv_def)
  from assms(1) show ?thesis
  proof cases
    case (thread i a junk w)
    with wake_thread_step [OF inv] show ?thesis by blast
  next
    case (spurious i)
    have "wake_inv s' q"
      by (rule wake_quiet [OF inv spurious(3) m, where t' = "(bthreads s ! i)\<lparr>b_pc := B_Relock\<rparr>"])
        (simp_all add: spurious(1,4) go_to_put q quiet_moves_def)
    then show ?thesis ..
  next
    case spurious_main
    have "wake_inv s' q"
      by (rule wake_main [OF inv m]) (use spurious_main inv in \<open>simp_all add: q n_coming_def wake_inv_def\<close>)
    then show ?thesis ..
  next
    case (cancel_sleep i)
    with thread_at(2) [OF mi, of i] show ?thesis by (simp add: thread_ok_def)
  next
    case (cancel_wait i s1)
    with thread_at(2) [OF mi, of i] show ?thesis by (simp add: thread_ok_def)
  next
    case (main option created p w)
    with wake_main_step [OF inv, of option created p w s'] show ?thesis by blast
  qed
qed

lemma wake_start:
  assumes "at_main_loop_52 s"
  shows "\<exists>q. wake_inv s q"
proof -
  from monitor_start [OF assms] obtain q where m: "monitor_inv s q" by blast
  then have q: "bqueue s = Some q" by (simp add: monitor_inv_def)
  from assms obtain q0 fresh where "message_queue_init_52 (Some q0) fresh = Inr (bqueue s)"
    unfolding at_main_loop_52_def by blast
  with q have "counts_ok q" by (auto simp: message_queue_init_52_def queue_init_52_def counts_ok_def)
  with m assms show ?thesis
    by (auto simp: wake_inv_def waiters_ok_def bound_def at_main_loop_52_def)
qed

interpretation wakeups: invariant_system at_main_loop_52 "bstep False rand" "\<lambda>s. \<exists>q. wake_inv s q" for rand
  by unfold_locales (erule wake_start, erule (1) wake_step [rotated])

subsection \<open>Progress\<close>

lemma signal_possible: "\<exists>w. cond_signal k w s \<noteq> None"
proof (cases "list_ex (asleep_on k) (bthreads s)")
  case True
  then obtain j where "j < length (bthreads s)" "asleep_on k (bthreads s ! j)"
    by (auto simp: list_ex_iff in_set_conv_nth)
  then have "cond_signal k (Some j) s \<noteq> None" by (simp add: cond_signal_def)
  then show ?thesis ..
next
  case False
  then have "cond_signal k None s \<noteq> None" by (simp add: cond_signal_def)
  then show ?thesis ..
qed

lemma awake_moves:
  assumes "b_pc (bthreads s ! i) \<noteq> B_Asleep" "\<not> finished (bthreads s ! i)"
    and "b_pc (bthreads s ! i) \<in> {B_Lock, B_Relock} \<longrightarrow> \<not> bmutex s"
  shows "\<exists>w. bthread_step rand a junk w i s \<noteq> None"
proof (cases "b_pc (bthreads s ! i) = B_Signal")
  case True
  with signal_possible [of "other (b_kind (bthreads s ! i))" s] show ?thesis
    by (auto simp: bthread_step_def Let_def)
next
  case False
  with assms have "bthread_step rand a junk None i s \<noteq> None"
    by (cases "b_pc (bthreads s ! i)") (simp_all add: bthread_step_def Let_def lock_def finished_def)
  then show ?thesis ..
qed

lemma main_moves:
  assumes "open_pc (n_pc s)" "n_pc s \<noteq> N_Ready" "n_pc s \<noteq> N_ReduceAsleep"
    and "n_pc s \<in> {N_ReduceLock, N_ReduceRelock, N_ExpandLock} \<longrightarrow> \<not> bmutex s"
  shows "\<exists>w. main_step_52 option created p w s \<noteq> None"
proof (cases "n_pc s = N_ExpandSignal")
  case True
  with signal_possible [of Producer s] show ?thesis by (auto simp: main_step_52_def)
next
  case False
  with assms have "main_step_52 option created p None s \<noteq> None"
    by (cases "n_pc s") (simp_all add: main_step_52_def lock_def open_pc_def)
  then show ?thesis ..
qed

lemma tally_zero: "\<forall>t \<in> set ts. w t = 0 \<Longrightarrow> tally w ts = 0"
  by (induction ts) (simp_all add: tally_def)

text \<open>If nobody can move, all threads sleep, and nobody is on the way to wake one.\<close>

lemma stuck_asleep:
  assumes inv: "wake_inv s q"
    and th: "\<And>i w. i < length (bthreads s) \<Longrightarrow> bthread_step rand a junk w i s = None"
    and mn: "n_pc s = N_Ready \<or> (\<forall>w. main_step_52 option created p w s = None)"
  shows "(\<forall>t \<in> set (bthreads s). b_pc t = B_Asleep) \<and> (n_pc s = N_Ready \<or> n_pc s = N_ReduceAsleep)"
proof -
  have mi: "monitor_inv s q" using inv by (simp add: wake_inv_def)
  then have op: "open_pc (n_pc s)" and
    mx: "tally holds (bthreads s) + n_holds (n_pc s) = of_bool (bmutex s)" by (simp_all add: monitor_inv_def)
  have fin: "\<not> finished (bthreads s ! i)" if "i < length (bthreads s)" for i
    using thread_at(2) [OF mi that] by (simp add: thread_ok_def)
  have idle: "n_pc s = N_Ready \<or> n_pc s = N_ReduceAsleep \<or> (bmutex s \<and> n_pc s \<in> {N_ReduceLock, N_ReduceRelock, N_ExpandLock})"
    using mn main_moves [OF op, of option created p] by (elim disjE) metis+
  have free: "\<not> bmutex s"
  proof
    assume m: "bmutex s"
    have "n_holds (n_pc s) = 0" using idle by (auto simp: n_holds_def)
    with mx m have "tally holds (bthreads s) \<noteq> 0" by simp
    then have "\<not> (\<forall>t \<in> set (bthreads s). holds t = 0)" using tally_zero [of "bthreads s" holds] by argo
    then obtain i where i: "i < length (bthreads s)" "holds (bthreads s ! i) \<noteq> 0" by (auto simp: in_set_conv_nth)
    have "b_pc (bthreads s ! i) \<notin> {B_Asleep, B_Lock, B_Relock}"
      using i(2) by (cases "b_pc (bthreads s ! i)") (simp_all add: holds_def)
    with awake_moves [OF _ fin [OF i(1)], of rand a junk] th [OF i(1)] show False by auto
  qed
  have "b_pc t = B_Asleep" if t: "t \<in> set (bthreads s)" for t
  proof -
    obtain i where i: "i < length (bthreads s)" "t = bthreads s ! i" using t by (auto simp: in_set_conv_nth)
    show ?thesis using awake_moves [OF _ fin [OF i(1)], of rand a junk] th [OF i(1)] free i(2) by auto
  qed
  with idle free show ?thesis by blast
qed

text \<open>
  C12. No wake-up is lost. As long as no thread is closed and the queue has a capacity, a program with
  a producer and a consumer never gets stuck: without a spurious wake-up and without a further
  command some thread is not blocked, or the main thread is at a command and not blocked. The only
  way all threads sleep at once is a queue of capacity 0.
\<close>

theorem lab5_52_progress:
  assumes "at_main_loop_52 s0" "steps (bstep False rand) s0 s" "bqueue s = Some q" "0 < dq_max_len q"
    and "t1 \<in> set (bthreads s)" "b_kind t1 = Producer" "t2 \<in> set (bthreads s)" "b_kind t2 = Consumer"
  shows "(\<exists>i w. i < length (bthreads s) \<and> bthread_step rand a junk w i s \<noteq> None)
    \<or> (n_pc s \<noteq> N_Ready \<and> (\<exists>w. main_step_52 option created p w s \<noteq> None))"
proof (rule ccontr)
  assume stuck: "\<not> ?thesis"
  from wakeups.inv_reachable [OF assms(1,2)] obtain q' where inv: "wake_inv s q'" by blast
  with assms(3) have q: "q' = q" by (simp add: wake_inv_def monitor_inv_def)
  from stuck_asleep [OF inv, of rand a junk option created p] stuck
  have asleep: "\<forall>t \<in> set (bthreads s). b_pc t = B_Asleep" and pc: "n_pc s = N_Ready \<or> n_pc s = N_ReduceAsleep"
    by auto
  have le: "avail k q \<le> 0" if "t \<in> set (bthreads s)" "b_kind t = k" for k t
  proof -
    have "list_ex (asleep_on k) (bthreads s)"
      using that asleep by (auto simp: list_ex_iff asleep_on_def)
    moreover have "tally (coming k) (bthreads s) = 0"
      by (rule tally_zero) (use asleep in \<open>simp add: coming_def\<close>)
    moreover have "n_coming k (n_pc s) = 0" using pc by (auto simp: n_coming_def)
    moreover have "bound k 0 (bthreads s) (n_pc s) q" using inv q by (simp add: wake_inv_def)
    ultimately show ?thesis by (simp add: bound_def)
  qed
  have "dq_max_len q \<le> 0"
    using le [OF assms(5,6)] le [OF assms(7,8)] by (simp add: avail_def)
  with assms(4) show False by simp
qed

theorem lab5_52_progress_witness:
  "\<exists>s. steps (bstep False (\<lambda>r :: nat. (0, r))) (fresh_bstate 0) s \<and> length (bthreads s) = 2
     \<and> ((\<exists>i w. i < length (bthreads s) \<and> bthread_step (\<lambda>r. (0, r)) 0 empty_element w i s \<noteq> None)
        \<or> (n_pc s \<noteq> N_Ready \<and> (\<exists>w. main_step_52 ''l'' True None w s \<noteq> None)))"
proof -
  let ?P = "\<lambda>s. map b_kind (bthreads s) = [Producer, Consumer] \<and> map_option dq_max_len (bqueue s) = Some 10"
  have "case run_all (bact_step False (\<lambda>r. (0, r))) [Main_move ''+'' None, Main_move ''*'' None]
      (fresh_bstate (0 :: nat)) of None \<Rightarrow> False | Some s \<Rightarrow> ?P s"
    by code_simp
  then obtain s where s: "steps (bstep False (\<lambda>r. (0, r))) (fresh_bstate (0 :: nat)) s" "?P s"
    by (rule brun_from_fresh)
  from s(2) obtain q t1 t2 where q: "bqueue s = Some q" "0 < dq_max_len q"
    "bthreads s = [t1, t2]" "b_kind t1 = Producer" "b_kind t2 = Consumer"
    by (auto simp: map_eq_Cons_conv)
  have "t1 \<in> set (bthreads s)" "t2 \<in> set (bthreads s)" using q(3) by simp_all
  from lab5_52_progress [OF fresh_bstate_start s(1) q(1,2) this(1) q(4) this(2) q(5)] s(1) q(3)
  show ?thesis by (intro exI [of _ s]) simp
qed

subsection \<open>A capacity of 0\<close>

text \<open>
  A consumer that waits, a queue without slots and the main thread in the loop of option \<open>r\<close>. Nothing
  but spurious wake-ups happens any more, and they lead back.
\<close>

definition dead_end :: "'r bstate \<Rightarrow> bool" where
  "dead_end s \<longleftrightarrow> n_pc s \<in> {N_ReduceTest, N_ReduceAsleep, N_ReduceRelock}
     \<and> map_option (\<lambda>q. (dq_len q, dq_max_len q)) (bqueue s) = Some (0, 0)
     \<and> map (\<lambda>t. (b_kind t, b_ind t, b_cancel t)) (bthreads s) = [(Consumer, 0, False)]
     \<and> b_pc (bthreads s ! 0) \<in> {B_Asleep, B_Relock, B_Test, B_Recheck, B_CondWait}
     \<and> bworking s Consumer ! 0 = 1"

lemma dead_endE:
  assumes "dead_end s"
  obtains t q where "bthreads s = [t]" "b_kind t = Consumer" "b_ind t = 0" "\<not> b_cancel t"
    "b_pc t \<in> {B_Asleep, B_Relock, B_Test, B_Recheck, B_CondWait}" "bworking s Consumer ! 0 = 1"
    "bqueue s = Some q" "dq_len q = 0" "dq_max_len q = 0"
    "n_pc s \<in> {N_ReduceTest, N_ReduceAsleep, N_ReduceRelock}"
proof -
  from assms obtain t where "bthreads s = [t]" by (auto simp: dead_end_def map_eq_Cons_conv)
  with assms that show ?thesis by (auto simp: dead_end_def)
qed

lemma dead_end_step:
  assumes "dead_end s" "bstep closing rand s s'"
  shows "dead_end s'"
proof -
  from assms(1) obtain t q where t: "bthreads s = [t]" "b_kind t = Consumer" "b_ind t = 0" "\<not> b_cancel t"
    "b_pc t \<in> {B_Asleep, B_Relock, B_Test, B_Recheck, B_CondWait}" "bworking s Consumer ! 0 = 1"
    and q: "bqueue s = Some q" "dq_len q = 0" "dq_max_len q = 0"
    and pc: "n_pc s \<in> {N_ReduceTest, N_ReduceAsleep, N_ReduceRelock}" by (rule dead_endE)
  have goto: "dead_end (go_to c 0 (s\<lparr>bmutex := m\<rparr>))" if "c \<in> {B_Asleep, B_Relock, B_Test, B_Recheck, B_CondWait}" for c m
    using that pc t q by (simp add: dead_end_def go_to_put)
  have same: "s\<lparr>bmutex := bmutex s\<rparr> = s" by simp
  from assms(2) show ?thesis
  proof cases
    case (thread i a junk w)
    then have i: "i = 0" using t(1) by simp
    have chk: "check_term Consumer 0 True s = (False, s)" using t(6) by (simp add: check_term_def)
    from t(5) thread(4) have "\<exists>c m. s' = go_to c 0 (s\<lparr>bmutex := m\<rparr>) \<and> c \<in> {B_Asleep, B_Relock, B_Test, B_Recheck, B_CondWait}"
      unfolding i using t(1-3) q chk same
      by (cases "b_pc t") (auto simp: bthread_step_def lock_Some must_wait_def queue_is_empty_def Let_def; metis same)+
    then show ?thesis using goto by blast
  next
    case (spurious i)
    then show ?thesis using goto [of B_Relock "bmutex s"] t(1) same by simp
  next
    case spurious_main
    then show ?thesis using t q by (simp add: dead_end_def)
  next
    case (cancel_sleep i)
    then show ?thesis using t(1,4) by simp
  next
    case (cancel_wait i s1)
    then show ?thesis using t(1,4) by simp
  next
    case (main option created p w)
    with pc q have "s' = s\<lparr>n_pc := N_ReduceAsleep, bmutex := False\<rparr> \<or> s' = s\<lparr>bmutex := True, n_pc := N_ReduceTest\<rparr>"
      by (cases "n_pc s") (auto simp: main_step_52_def lock_Some queue_is_full_def)
    then show ?thesis using t q by (elim disjE) (simp_all add: dead_end_def)
  qed
qed


end
