(* ===== verification/Index_Records.thy ===== *)
theory Index_Records
  imports Prelude "HOL-Library.Multiset"
begin

section \<open>lab6: index records, their order and merging (lab6/src/index.h, sort_index.c)\<close>

text \<open>
  A record is its two 8-byte fields; \<open>time_mark\<close> is an IEEE 754 double, kept as its bit
  pattern. Two doubles that are no NaN compare like the numbers \<open>time_key\<close> gives: sign and
  magnitude read as an integer, which makes both zeros equal.
\<close>

record index_record =
  recno :: u64
  time_mark :: u64

definition is_nan :: "u64 \<Rightarrow> bool" where
  "is_nan x \<longleftrightarrow> uint x mod 2 ^ 63 > 2047 * 2 ^ 52"

definition double_key :: "u64 \<Rightarrow> int" where
  "double_key x = (if uint x < 2 ^ 63 then uint x else - (uint x - 2 ^ 63))"

definition double_less :: "u64 \<Rightarrow> u64 \<Rightarrow> bool" where
  "double_less x y \<longleftrightarrow> \<not> is_nan x \<and> \<not> is_nan y \<and> double_key x < double_key y"

definition cmp_index :: "index_record \<Rightarrow> index_record \<Rightarrow> int" where
  "cmp_index a b =
     (if double_less (time_mark a) (time_mark b) then -1
      else if double_less (time_mark b) (time_mark a) then 1
      else 0)"

definition time_key :: "index_record \<Rightarrow> int" where
  "time_key r = double_key (time_mark r)"

definition no_nan :: "index_record list \<Rightarrow> bool" where
  "no_nan rs \<longleftrightarrow> (\<forall>r \<in> set rs. \<not> is_nan (time_mark r))"

definition in_order :: "index_record list \<Rightarrow> bool" where
  "in_order rs \<longleftrightarrow> sorted (map time_key rs)"

lemma cmp_index_le:
  "\<not> is_nan (time_mark a) \<Longrightarrow> \<not> is_nan (time_mark b) \<Longrightarrow> cmp_index a b \<le> 0 \<longleftrightarrow> time_key a \<le> time_key b"
  by (auto simp: cmp_index_def double_less_def time_key_def)

lemma cmp_index_antisym: "cmp_index b a = - cmp_index a b"
  by (auto simp: cmp_index_def double_less_def)

lemma no_nan_append [simp]: "no_nan (xs @ ys) \<longleftrightarrow> no_nan xs \<and> no_nan ys"
  by (auto simp: no_nan_def)

lemma no_nan_mset: "mset xs = mset ys \<Longrightarrow> no_nan xs \<longleftrightarrow> no_nan ys"
  by (auto simp: no_nan_def dest: mset_eq_setD)

subsection \<open>Merging two adjacent runs\<close>

text \<open>
  The three loops that fill \<open>tmp\<close>: \<open>left[i..]\<close> and \<open>right[j..]\<close> are the two lists.
\<close>

fun fill_tmp :: "index_record list \<Rightarrow> index_record list \<Rightarrow> index_record list" where
  "fill_tmp [] right = right"
| "fill_tmp left [] = left"
| "fill_tmp (l # left) (r # right) =
     (if cmp_index l r \<le> 0 then l # fill_tmp left (r # right) else r # fill_tmp (l # left) right)"

text \<open>
  \<open>left\<close> and \<open>right\<close> are positions in the mapped array; the result is copied over \<open>left\<close>. The
  allocation of \<open>tmp\<close> succeeds, and the counts are below 2^31.
\<close>

definition merge_blocks :: "nat \<Rightarrow> nat \<Rightarrow> nat \<Rightarrow> nat \<Rightarrow> index_record list \<Rightarrow> index_record list" where
  "merge_blocks left right nleft nright a =
     (let tmp = fill_tmp (take nleft (drop left a)) (take nright (drop right a))
      in take left a @ tmp @ drop (left + (nleft + nright)) a)"

lemma fill_tmp_mset: "mset (fill_tmp xs ys) = mset xs + mset ys"
  by (induction xs ys rule: fill_tmp.induct) auto

lemma fill_tmp_length [simp]: "length (fill_tmp xs ys) = length xs + length ys"
  using fill_tmp_mset [of xs ys] by (metis size_mset size_union)

lemma fill_tmp_set: "set (fill_tmp xs ys) = set xs \<union> set ys"
  using fill_tmp_mset [of xs ys] by (metis set_mset_mset set_mset_union)

lemma fill_tmp_order:
  "in_order xs \<Longrightarrow> in_order ys \<Longrightarrow> no_nan xs \<Longrightarrow> no_nan ys \<Longrightarrow> in_order (fill_tmp xs ys)"
proof (induction xs ys rule: fill_tmp.induct)
  case (3 l left r right)
  have nan: "\<not> is_nan (time_mark l)" "\<not> is_nan (time_mark r)" "no_nan left" "no_nan right"
    using 3 by (auto simp: no_nan_def)
  show ?case
  proof (cases "cmp_index l r \<le> 0")
    case True
    with 3 nan have "in_order (fill_tmp left (r # right))" by (auto simp: in_order_def no_nan_def)
    moreover have "time_key l \<le> time_key r" using True nan by (simp add: cmp_index_le)
    ultimately show ?thesis
      using 3(3,4) True by (auto simp: in_order_def fill_tmp_set)
  next
    case False
    with 3 nan have "in_order (fill_tmp (l # left) right)" by (auto simp: in_order_def no_nan_def)
    moreover have "time_key r \<le> time_key l" using False nan by (simp add: cmp_index_le)
    ultimately show ?thesis
      using 3(3,4) False by (auto simp: in_order_def fill_tmp_set)
  qed
qed simp_all

subsection \<open>Arrays in chunks\<close>

text \<open>
  The threads work on disjoint chunks of \<open>w\<close> records. \<open>on_chunk w c f\<close> replaces chunk \<open>c\<close> by
  its image under \<open>f\<close>.
\<close>

definition chunk :: "nat \<Rightarrow> nat \<Rightarrow> 'a list \<Rightarrow> 'a list" where
  "chunk w c xs = take w (drop (c * w) xs)"

definition on_chunk :: "nat \<Rightarrow> nat \<Rightarrow> ('a list \<Rightarrow> 'a list) \<Rightarrow> 'a list \<Rightarrow> 'a list" where
  "on_chunk w c f xs = take (c * w) xs @ f (chunk w c xs) @ drop (c * w + w) xs"

lemma chunk_length: "length xs = n * w \<Longrightarrow> c < n \<Longrightarrow> length (chunk w c xs) = w"
proof -
  assume "length xs = n * w" "c < n"
  moreover have "Suc c * w \<le> n * w" using \<open>c < n\<close> by (intro mult_le_mono1) simp
  ultimately show ?thesis by (simp add: chunk_def)
qed

lemma on_chunk_length:
  assumes "length xs = n * w" "c < n" "\<And>ys. length ys = w \<Longrightarrow> length (f ys) = w"
  shows "length (on_chunk w c f xs) = n * w"
proof -
  have "Suc c * w \<le> n * w" using assms(2) by (intro mult_le_mono1) simp
  with assms chunk_length [OF assms(1,2)] show ?thesis by (simp add: on_chunk_def)
qed

lemma chunk_on_chunk:
  assumes "length xs = n * w" "c < n" "d < n" "\<And>ys. length ys = w \<Longrightarrow> length (f ys) = w"
  shows "chunk w d (on_chunk w c f xs) = (if d = c then f (chunk w c xs) else chunk w d xs)"
proof -
  have len: "length (f (chunk w c xs)) = w" using assms chunk_length by blast
  have cw: "c * w + w \<le> length xs" using assms(1,2) mult_le_mono1 [of "Suc c" n w] by simp
  consider "d = c" | "d < c" | "c < d" by linarith
  then show ?thesis
  proof cases
    case 1
    with len cw show ?thesis by (simp add: chunk_def on_chunk_def)
  next
    case 2
    then have "d * w + w \<le> c * w" using mult_le_mono1 [of "Suc d" c w] by simp
    then have e: "w \<le> c * w - d * w" by linarith
    then have "w \<le> length (drop (d * w) (take (c * w) xs))" using cw by simp
    moreover have "take w (drop (d * w) (take (c * w) xs)) = take w (drop (d * w) xs)"
      by (simp only: drop_take take_take min_absorb1 [OF e])
    moreover have "d * w \<le> min (length xs) (c * w)" using \<open>d * w + w \<le> c * w\<close> cw by linarith
    then have "d * w \<le> length (take (c * w) xs)" by (simp only: length_take)
    ultimately show ?thesis using 2 by (simp add: chunk_def on_chunk_def)
  next
    case 3
    then have "c * w + w \<le> d * w" using mult_le_mono1 [of "Suc c" d w] by simp
    with len cw 3 show ?thesis by (simp add: chunk_def on_chunk_def)
  qed
qed

lemma chunks_eqI:
  assumes "length xs = n * w" "length ys = n * w" "\<And>c. c < n \<Longrightarrow> chunk w c xs = chunk w c ys"
  shows "xs = ys"
proof (cases "w = 0")
  case True
  with assms show ?thesis by simp
next
  case False
  show ?thesis
  proof (rule nth_equalityI)
    fix i
    assume i: "i < length xs"
    let ?c = "i div w"
    have c: "?c < n" using i assms(1) False by (simp add: less_mult_imp_div_less)
    have "i = ?c * w + i mod w" by simp
    moreover have "i mod w < w" using False by simp
    moreover have "?c * w \<le> length xs" "?c * w \<le> length ys"
      using i assms(1,2) div_times_less_eq_dividend [of i w] by linarith+
    ultimately have "xs ! i = chunk w ?c xs ! (i mod w)" "ys ! i = chunk w ?c ys ! (i mod w)"
      by (simp_all add: chunk_def)
    with assms(3) [OF c] show "xs ! i = ys ! i" by simp
  qed (use assms in simp)
qed

lemma concat_chunks: "length xs = n * w \<Longrightarrow> concat (map (\<lambda>c. chunk w c xs) [0..<n]) = xs"
proof (induction n arbitrary: xs)
  case 0
  then show ?case by simp
next
  case (Suc n)
  have "map (\<lambda>c. chunk w c xs) [0..<n] = map (\<lambda>c. chunk w c (take (n * w) xs)) [0..<n]"
  proof (rule map_cong [OF refl])
    fix c
    assume "c \<in> set [0..<n]"
    then have "c * w + w \<le> n * w" using mult_le_mono1 [of "Suc c" n w] by simp
    then show "chunk w c xs = chunk w c (take (n * w) xs)" by (simp add: chunk_def drop_take min_def)
  qed
  moreover have "concat (map (\<lambda>c. chunk w c (take (n * w) xs)) [0..<n]) = take (n * w) xs"
    using Suc.IH [of "take (n * w) xs"] Suc.prems by simp
  ultimately have "concat (map (\<lambda>c. chunk w c xs) [0..<n]) = take (n * w) xs"
    by (simp only:)
  moreover have "chunk w n xs = drop (n * w) xs" using Suc.prems by (simp add: chunk_def)
  ultimately show ?case by simp
qed

end
