(* ===== verification/Index_Threads.thy ===== *)
theory Index_Threads
  imports Index_Records
begin

section \<open>lab6: the sorting and merging threads (lab6/src/sort_index.c)\<close>

text \<open>
  The loops of \<open>thread_sort\<close> and \<open>thread_merge\<close>. Every thread of a phase repeatedly claims the
  next block under \<open>g_block_mutex\<close> and works on it until no block is left. A step is one claim
  or the work on one block (which no other thread touches). The result of \<open>qsort\<close> on a block is
  an argument. The locale below states what the two kinds of thread share; its lemmas show
  that every interleaving ends with the array in which each chunk was processed exactly once.
  The barriers around the loops are added in \<open>Index_Barrier\<close>.
\<close>

datatype worker = Claiming | Working nat | Finished

record phase =
  next_block :: nat
  array :: "index_record list"
  workers :: "worker list"

definition worker_step ::
  "(nat \<Rightarrow> (nat \<times> nat) option) \<Rightarrow> (nat \<Rightarrow> index_record list \<Rightarrow> index_record list)
    \<Rightarrow> nat \<Rightarrow> phase \<Rightarrow> phase option" where
  "worker_step claim work i s =
     (case workers s ! i of
        Claiming \<Rightarrow>
          Some (case claim (next_block s) of
                  None \<Rightarrow> s\<lparr>workers := (workers s)[i := Finished]\<rparr>
                | Some (b, n) \<Rightarrow> s\<lparr>next_block := n, workers := (workers s)[i := Working b]\<rparr>)
      | Working b \<Rightarrow> Some (s\<lparr>array := work b (array s), workers := (workers s)[i := Claiming]\<rparr>)
      | Finished \<Rightarrow> None)"

text \<open>\<open>claim\<close> gives the block's index and the new \<open>g_next_block\<close>.\<close>

definition claim_sort :: "nat \<Rightarrow> nat \<Rightarrow> (nat \<times> nat) option" where
  "claim_sort block_count g = (if g < block_count then Some (g, g + 1) else None)"

definition sort_block ::
  "(index_record list \<Rightarrow> index_record list) \<Rightarrow> nat \<Rightarrow> nat \<Rightarrow> index_record list \<Rightarrow> index_record list" where
  "sort_block qsort block_size b a =
     take (b * block_size) a @ qsort (take block_size (drop (b * block_size) a))
       @ drop (b * block_size + block_size) a"

definition claim_merge :: "nat \<Rightarrow> nat \<Rightarrow> (nat \<times> nat) option" where
  "claim_merge block_count g = (if g + 1 < block_count then Some (g, g + 2) else None)"

definition merge_job :: "nat \<Rightarrow> nat \<Rightarrow> index_record list \<Rightarrow> index_record list" where
  "merge_job block_size b a =
     merge_blocks (b * block_size) ((b + 1) * block_size) block_size block_size a"

definition sort_loop ::
  "(index_record list \<Rightarrow> index_record list) \<Rightarrow> nat \<Rightarrow> nat \<Rightarrow> nat \<Rightarrow> phase \<Rightarrow> phase option" where
  "sort_loop qsort block_count block_size = worker_step (claim_sort block_count) (sort_block qsort block_size)"

definition merge_loop :: "nat \<Rightarrow> nat \<Rightarrow> nat \<Rightarrow> phase \<Rightarrow> phase option" where
  "merge_loop block_count block_size = worker_step (claim_merge block_count) (merge_job block_size)"

text \<open>The loops of a phase: \<open>threads\<close> threads are at the head of their loop, and any of them moves next.\<close>

definition start_loops :: "nat \<Rightarrow> index_record list \<Rightarrow> phase" where
  "start_loops threads a = \<lparr>next_block = 0, array = a, workers = replicate threads Claiming\<rparr>"

inductive loop_step :: "(nat \<Rightarrow> phase \<Rightarrow> phase option) \<Rightarrow> phase \<Rightarrow> phase \<Rightarrow> bool" for thread where
  "i < length (workers s) \<Longrightarrow> thread i s = Some s' \<Longrightarrow> loop_step thread s s'"

fun moves_left :: "worker \<Rightarrow> nat" where
  "moves_left Claiming = 1"
| "moves_left (Working b) = 2"
| "moves_left Finished = 0"

definition loops_done :: "phase \<Rightarrow> bool" where
  "loops_done s \<longleftrightarrow> (\<forall>w \<in> set (workers s). w = Finished)"

lemma mem_update:
  assumes "i < length ws" "ws ! i \<noteq> x"
  shows "x \<in> set (ws[i := v]) \<longleftrightarrow> x \<in> set ws \<or> v = x"
proof
  assume "x \<in> set (ws[i := v])"
  then show "x \<in> set ws \<or> v = x" using set_update_subset_insert [of ws i v] by auto
next
  assume "x \<in> set ws \<or> v = x"
  then show "x \<in> set (ws[i := v])"
  proof
    assume "x \<in> set ws"
    then obtain j where j: "j < length ws" "ws ! j = x" by (auto simp: in_set_conv_nth)
    with assms(2) have "j \<noteq> i" by auto
    with j have "(ws[i := v]) ! j = x" "j < length (ws[i := v])" by simp_all
    then show ?thesis by (metis nth_mem)
  next
    assume "v = x"
    with assms(1) show ?thesis by (simp add: set_update_memI)
  qed
qed

subsection \<open>Threads that share out chunks\<close>

locale chunk_jobs =
  fixes claim :: "nat \<Rightarrow> (nat \<times> nat) option"
    and work :: "nat \<Rightarrow> index_record list \<Rightarrow> index_record list"
    and k :: nat and n :: nat and w :: nat
    and f :: "index_record list \<Rightarrow> index_record list"
  assumes stride: "0 < k"
    and claim_next: "m \<le> n \<Longrightarrow> claim (k * m) = (if m < n then Some (k * m, k * (m + 1)) else None)"
    and work_chunk: "c < n \<Longrightarrow> length xs = n * w \<Longrightarrow> work (k * c) xs = on_chunk w c f xs"
    and f_length: "length ys = w \<Longrightarrow> length (f ys) = w"
begin

definition jobs_inv :: "index_record list \<Rightarrow> phase \<Rightarrow> bool" where
  "jobs_inv xs s \<longleftrightarrow> (\<exists>m \<le> n. next_block s = k * m \<and> length (array s) = n * w
     \<and> (\<forall>b. Working b \<in> set (workers s) \<longrightarrow> (\<exists>c < m. b = k * c))
     \<and> (\<forall>i < length (workers s). \<forall>j < length (workers s). \<forall>b.
          workers s ! i = Working b \<and> workers s ! j = Working b \<longrightarrow> i = j)
     \<and> (\<forall>c < n. chunk w c (array s)
          = (if c < m \<and> Working (k * c) \<notin> set (workers s) then f (chunk w c xs) else chunk w c xs))
     \<and> (Finished \<in> set (workers s) \<longrightarrow> m = n))"

lemma start_inv: "length xs = n * w \<Longrightarrow> jobs_inv xs (start_loops t xs)"
  by (auto simp: jobs_inv_def start_loops_def intro!: exI [of _ 0])

lemma step_claim:
  assumes inv: "jobs_inv xs s" and i: "i < length (workers s)" and w: "workers s ! i = Claiming"
    and st: "worker_step claim work i s = Some s'"
  shows "jobs_inv xs s'"
proof -
  let ?ws = "workers s"
  from inv obtain m where m: "m \<le> n" "next_block s = k * m" "length (array s) = n * w"
    and old: "\<And>b. Working b \<in> set ?ws \<Longrightarrow> \<exists>c < m. b = k * c"
    and one: "\<And>i j b. i < length ?ws \<Longrightarrow> j < length ?ws \<Longrightarrow> ?ws ! i = Working b \<Longrightarrow> ?ws ! j = Working b \<Longrightarrow> i = j"
    and ch: "\<And>c. c < n \<Longrightarrow> chunk w c (array s)
      = (if c < m \<and> Working (k * c) \<notin> set ?ws then f (chunk w c xs) else chunk w c xs)"
    and fin: "Finished \<in> set ?ws \<Longrightarrow> m = n"
    unfolding jobs_inv_def by blast
  have mem: "x \<in> set (?ws[i := v]) \<longleftrightarrow> x \<in> set ?ws \<or> v = x" if "x \<noteq> Claiming" for x v
    using mem_update [OF i, of x v] that w by auto
  have un: "?ws[i := v] ! a = Working b \<Longrightarrow> ?ws[i := v] ! c = Working b \<Longrightarrow> a = c"
    if "a < length ?ws" "c < length ?ws" "v \<noteq> Working b \<or> Working b \<notin> set ?ws" for a c b v
    using that one [of a c b] i nth_mem [of a ?ws] nth_mem [of c ?ws] by (cases "a = i"; cases "c = i") auto
  show ?thesis
  proof (cases "m < n")
    case True
    let ?b = "k * m"
    have fresh: "Working ?b \<notin> set ?ws" using old [of ?b] stride by auto
    from True m st w have s': "s' = s\<lparr>next_block := k * (m + 1), workers := ?ws[i := Working ?b]\<rparr>"
      using claim_next [OF m(1)] by (simp add: worker_step_def)
    show ?thesis
      unfolding jobs_inv_def
    proof (rule exI [of _ "m + 1"], intro conjI allI impI)
      show "m + 1 \<le> n" "next_block s' = k * (m + 1)" "length (array s') = n * w" using True m by (simp_all add: s')
      show "\<exists>c < m + 1. b = k * c" if "Working b \<in> set (workers s')" for b
        using that old [of b] mem [of "Working b" "Working ?b"] by (auto simp: s' less_Suc_eq)
      show "a = c" if "a < length (workers s')" "c < length (workers s')"
        "workers s' ! a = Working b \<and> workers s' ! c = Working b" for a c b
        using un [of a c "Working ?b" b] that fresh by (cases "b = ?b") (simp_all add: s')
      show "chunk w c (array s') = (if c < m + 1 \<and> Working (k * c) \<notin> set (workers s') then f (chunk w c xs) else chunk w c xs)"
        if "c < n" for c
        using ch [OF that] mem [of "Working (k * c)" "Working ?b"] stride by (auto simp: s' less_Suc_eq)
      show "m + 1 = n" if "Finished \<in> set (workers s')"
        using that mem [of Finished "Working ?b"] fin True by (auto simp: s')
    qed
  next
    case False
    with m(1) have mn: "m = n" by simp
    from False m st w have s': "s' = s\<lparr>workers := ?ws[i := Finished]\<rparr>"
      using claim_next [OF m(1)] by (simp add: worker_step_def)
    show ?thesis
      unfolding jobs_inv_def
    proof (rule exI [of _ n], intro conjI allI impI)
      show "n \<le> n" "next_block s' = k * n" "length (array s') = n * w" using mn m by (simp_all add: s')
      show "\<exists>c < n. b = k * c" if "Working b \<in> set (workers s')" for b
        using that old [of b] mem [of "Working b" Finished] mn by (auto simp: s')
      show "a = c" if "a < length (workers s')" "c < length (workers s')"
        "workers s' ! a = Working b \<and> workers s' ! c = Working b" for a c b
        using un [of a c Finished b] that by (simp add: s')
      show "chunk w c (array s') = (if c < n \<and> Working (k * c) \<notin> set (workers s') then f (chunk w c xs) else chunk w c xs)"
        if "c < n" for c
        using ch [OF that] mem [of "Working (k * c)" Finished] mn by (simp add: s')
      show "n = n" ..
    qed
  qed
qed

lemma step_work:
  assumes inv: "jobs_inv xs s" and i: "i < length (workers s)" and w: "workers s ! i = Working b0"
    and st: "worker_step claim work i s = Some s'"
  shows "jobs_inv xs s'"
proof -
  let ?ws = "workers s"
  from inv obtain m where m: "m \<le> n" "next_block s = k * m" "length (array s) = n * w"
    and old: "\<And>b. Working b \<in> set ?ws \<Longrightarrow> \<exists>c < m. b = k * c"
    and one: "\<And>i j b. i < length ?ws \<Longrightarrow> j < length ?ws \<Longrightarrow> ?ws ! i = Working b \<Longrightarrow> ?ws ! j = Working b \<Longrightarrow> i = j"
    and ch: "\<And>c. c < n \<Longrightarrow> chunk w c (array s)
      = (if c < m \<and> Working (k * c) \<notin> set ?ws then f (chunk w c xs) else chunk w c xs)"
    and fin: "Finished \<in> set ?ws \<Longrightarrow> m = n"
    unfolding jobs_inv_def by blast
  have here: "Working b0 \<in> set ?ws" using i w nth_mem [OF i] by simp
  then obtain c0 where c0: "c0 < m" "b0 = k * c0" using old by blast
  then have c0n: "c0 < n" using m(1) by simp
  from st w c0 c0n m(3) have s': "s' = s\<lparr>array := on_chunk w c0 f (array s), workers := ?ws[i := Claiming]\<rparr>"
    by (simp add: worker_step_def work_chunk)
  have mem: "x \<in> set (?ws[i := Claiming]) \<longleftrightarrow> x \<in> set ?ws" if "x \<noteq> Claiming" "x \<noteq> Working b0" for x
    using mem_update [OF i, of x Claiming] that w by auto
  have gone: "Working b0 \<notin> set (?ws[i := Claiming])"
  proof
    assume "Working b0 \<in> set (?ws[i := Claiming])"
    then obtain j where j: "j < length ?ws" "?ws[i := Claiming] ! j = Working b0" by (auto simp: in_set_conv_nth)
    then have "j \<noteq> i" using i by auto
    with j one [OF i j(1) w] show False by simp
  qed
  show ?thesis
    unfolding jobs_inv_def
  proof (rule exI [of _ m], intro conjI allI impI)
    show "m \<le> n" "next_block s' = k * m" using m by (simp_all add: s')
    show "length (array s') = n * w" using on_chunk_length [OF m(3) c0n f_length] by (simp add: s')
    show "\<exists>c < m. b = k * c" if "Working b \<in> set (workers s')" for b
      using that old [of b] mem [of "Working b"] gone by (cases "b = b0") (auto simp: s')
    show "a = c" if "a < length (workers s')" "c < length (workers s')"
      "workers s' ! a = Working b \<and> workers s' ! c = Working b" for a c b
      using one [of a c b] that i by (cases "a = i"; cases "c = i") (auto simp: s')
    show "chunk w c (array s') = (if c < m \<and> Working (k * c) \<notin> set (workers s') then f (chunk w c xs) else chunk w c xs)"
      if c: "c < n" for c
    proof (cases "c = c0")
      case True
      have "chunk w c0 (array s) = chunk w c0 xs" using ch [OF c0n] here c0(2) by simp
      with True c0 gone show ?thesis
        by (simp add: s' chunk_on_chunk [OF m(3) c0n c0n f_length])
    next
      case False
      then have "Working (k * c) \<noteq> Working b0" using c0(2) stride by simp
      with False ch [OF c] mem [of "Working (k * c)"] show ?thesis
        by (simp add: s' chunk_on_chunk [OF m(3) c0n c f_length])
    qed
    show "m = n" if "Finished \<in> set (workers s')" using that mem [of Finished] fin by (simp add: s')
  qed
qed

lemma step_inv:
  assumes "jobs_inv xs s" "loop_step (worker_step claim work) s s'"
  shows "jobs_inv xs s'"
  using assms(2)
proof cases
  case (1 i)
  then show ?thesis
  proof (cases "workers s ! i")
    case Claiming
    with step_claim [OF assms(1) 1(1)] 1(2) show ?thesis by blast
  next
    case (Working b)
    with step_work [OF assms(1) 1(1)] 1(2) show ?thesis by blast
  next
    case Finished
    with 1(2) show ?thesis by (simp add: worker_step_def)
  qed
qed

lemma length_workers:
  assumes "loop_step (worker_step claim work) s s'"
  shows "length (workers s') = length (workers s)"
  using assms
proof cases
  case (1 i)
  then show ?thesis by (cases "workers s ! i") (auto simp: worker_step_def split: option.splits)
qed

text \<open>However the threads interleave, the finished phase has processed every chunk once.\<close>

lemma phase_result:
  assumes "steps (loop_step (worker_step claim work)) (start_loops t xs) s" "loops_done s" "0 < t"
    and len: "length xs = n * w"
  shows "length (array s) = n * w \<and> (\<forall>c < n. chunk w c (array s) = f (chunk w c xs))"
proof -
  have inv: "jobs_inv xs s"
    using assms(1) start_inv [OF len] step_inv by (rule steps_invariant)
  have "length (workers s) = t"
  proof (rule steps_invariant [OF assms(1)])
    show "length (workers (start_loops t xs)) = t" by (simp add: start_loops_def)
  qed (simp add: length_workers)
  with assms(3) have "workers s ! 0 \<in> set (workers s)" by simp
  with assms(2) have "Finished \<in> set (workers s)" by (auto simp: loops_done_def)
  moreover have "Working b \<notin> set (workers s)" for b using assms(2) by (auto simp: loops_done_def)
  ultimately show ?thesis using inv by (auto simp: jobs_inv_def)
qed

text \<open>Every step decreases this measure, and a phase that is not finished can move.\<close>

definition work_left :: "phase \<Rightarrow> nat" where
  "work_left s = 2 * (n - next_block s div k)
     + tally moves_left (workers s)"

lemma step_decreases:
  assumes inv: "jobs_inv xs s" and st: "loop_step (worker_step claim work) s s'"
  shows "work_left s' < work_left s"
  using st
proof cases
  case (1 i)
  note t = tally_update [OF 1(1), of moves_left]
  obtain m where m: "m \<le> n" "next_block s = k * m" using inv by (auto simp: jobs_inv_def)
  show ?thesis
  proof (cases "workers s ! i")
    case Claiming
    show ?thesis
    proof (cases "m < n")
      case True
      with 1(2) Claiming m have "s' = s\<lparr>next_block := k * (m + 1), workers := (workers s)[i := Working (k * m)]\<rparr>"
        using claim_next [OF m(1)] by (simp add: worker_step_def)
      with t [of "Working (k * m)"] Claiming True m stride show ?thesis by (simp add: work_left_def)
    next
      case False
      with 1(2) Claiming m have "s' = s\<lparr>workers := (workers s)[i := Finished]\<rparr>"
        using claim_next [OF m(1)] by (simp add: worker_step_def)
      with t [of Finished] Claiming show ?thesis by (simp add: work_left_def)
    qed
  next
    case (Working b)
    with 1(2) have "s' = s\<lparr>array := work b (array s), workers := (workers s)[i := Claiming]\<rparr>"
      by (simp add: worker_step_def)
    with t [of Claiming] Working show ?thesis by (simp add: work_left_def)
  next
    case Finished
    with 1(2) show ?thesis by (simp add: worker_step_def)
  qed
qed

lemma not_done_moves: "\<not> loops_done s \<Longrightarrow> \<exists>s'. loop_step (worker_step claim work) s s'"
proof -
  assume "\<not> loops_done s"
  then obtain i where i: "i < length (workers s)" "workers s ! i \<noteq> Finished"
    by (auto simp: loops_done_def in_set_conv_nth)
  then have "worker_step claim work i s \<noteq> None" by (auto simp: worker_step_def split: worker.splits)
  with i(1) show ?thesis by (auto simp: loop_step.simps)
qed

text \<open>The same work done by one thread in order.\<close>

lemma fold_chunks:
  assumes "m \<le> n" "length xs = n * w"
  shows "length (fold (\<lambda>c. work (k * c)) [0..<m] xs) = n * w
    \<and> (\<forall>c < n. chunk w c (fold (\<lambda>c. work (k * c)) [0..<m] xs) = (if c < m then f (chunk w c xs) else chunk w c xs))"
  using assms(1)
proof (induction m)
  case 0
  with assms(2) show ?case by simp
next
  case (Suc m)
  let ?ys = "fold (\<lambda>c. work (k * c)) [0..<m] xs"
  have ys: "length ?ys = n * w"
    "\<And>c. c < n \<Longrightarrow> chunk w c ?ys = (if c < m then f (chunk w c xs) else chunk w c xs)" and m: "m < n"
    using Suc by auto
  have "fold (\<lambda>c. work (k * c)) [0..<Suc m] xs = on_chunk w m f ?ys"
    using work_chunk [OF m ys(1)] by simp
  with on_chunk_length [OF ys(1) m f_length] ys(2) chunk_on_chunk [OF ys(1) m _ f_length] m
  show ?case by (auto simp: less_Suc_eq)
qed

lemma phase_sequential:
  assumes "steps (loop_step (worker_step claim work)) (start_loops t xs) s" "loops_done s" "0 < t"
    and "length xs = n * w"
  shows "array s = fold (\<lambda>c. work (k * c)) [0..<n] xs"
proof (rule chunks_eqI [where w = w and n = n])
  show "length (array s) = n * w" using phase_result [OF assms] ..
  show "length (fold (\<lambda>c. work (k * c)) [0..<n] xs) = n * w"
    using fold_chunks [OF order_refl assms(4)] ..
  show "chunk w c (array s) = chunk w c (fold (\<lambda>c. work (k * c)) [0..<n] xs)" if "c < n" for c
    using phase_result [OF assms, THEN conjunct2, rule_format, OF that]
      fold_chunks [OF order_refl assms(4), THEN conjunct2, rule_format, OF that] that by simp
qed

lemma fold_concat:
  assumes "length xs = n * w"
  shows "fold (\<lambda>c. work (k * c)) [0..<n] xs = concat (map (\<lambda>c. f (chunk w c xs)) [0..<n])"
proof -
  let ?ys = "fold (\<lambda>c. work (k * c)) [0..<n] xs"
  have "concat (map (\<lambda>c. chunk w c ?ys) [0..<n]) = ?ys"
    by (rule concat_chunks) (use fold_chunks [OF order_refl assms] in simp)
  moreover have "map (\<lambda>c. chunk w c ?ys) [0..<n] = map (\<lambda>c. f (chunk w c xs)) [0..<n]"
    using fold_chunks [OF order_refl assms] by simp
  ultimately show ?thesis by simp
qed

end

subsection \<open>The two phases\<close>

definition qsort_ok :: "(index_record list \<Rightarrow> index_record list) \<Rightarrow> bool" where
  "qsort_ok qs \<longleftrightarrow> (\<forall>xs. mset (qs xs) = mset xs \<and> (no_nan xs \<longrightarrow> in_order (qs xs)))"

lemma qsort_length: "qsort_ok qs \<Longrightarrow> length (qs xs) = length xs"
  unfolding qsort_ok_def by (metis size_mset)

definition merge_halves :: "nat \<Rightarrow> index_record list \<Rightarrow> index_record list" where
  "merge_halves b ys = fill_tmp (take b ys) (drop b ys)"

lemma merge_job_chunk: "merge_job b (2 * c) xs = on_chunk (2 * b) c (merge_halves b) xs"
proof -
  have o: "c * (2 * b) = 2 * c * b" "(2 * c + 1) * b = b + 2 * c * b" by (simp_all add: algebra_simps)
  have "take b (chunk (2 * b) c xs) = take b (drop (2 * c * b) xs)"
    "drop b (chunk (2 * b) c xs) = take b (drop (b + 2 * c * b) xs)"
    unfolding chunk_def o by (simp_all add: drop_take min_def)
  then show ?thesis
    unfolding merge_job_def merge_blocks_def on_chunk_def merge_halves_def Let_def o
    by (simp add: add.commute)
qed

interpretation merge_threads: chunk_jobs "claim_merge (2 * n)" "merge_job b" 2 n "2 * b" "merge_halves b" for n b
  by unfold_locales (auto simp: claim_merge_def merge_job_chunk merge_halves_def)

text \<open>The sorting threads are another instance, whatever permutation \<open>qsort\<close> computes.\<close>

lemma sort_jobs: "qsort_ok qs \<Longrightarrow> chunk_jobs (claim_sort n) (sort_block qs b) 1 n b qs"
  by unfold_locales (auto simp: claim_sort_def sort_block_def on_chunk_def chunk_def qsort_length)

definition sort_phase ::
  "(index_record list \<Rightarrow> index_record list) \<Rightarrow> nat \<Rightarrow> nat \<Rightarrow> nat \<Rightarrow> index_record list \<Rightarrow> index_record list" where
  "sort_phase qs threads block_count block_size a =
     (if threads = 0 then a else fold (sort_block qs block_size) [0..<block_count] a)"

definition merge_phase :: "nat \<Rightarrow> nat \<Rightarrow> nat \<Rightarrow> index_record list \<Rightarrow> index_record list" where
  "merge_phase threads block_count block_size a =
     (if threads = 0 then a else fold (\<lambda>c. merge_job block_size (2 * c)) [0..<block_count div 2] a)"

end
