(* ===== verification/Index_Barrier.thy ===== *)
theory Index_Barrier
  imports Index_Threads
begin

section \<open>lab6: the barriers around the loops of the threads (lab6/src/sort_index.c)\<close>

text \<open>
  \<open>thread_sort\<close> waits at \<open>g_barrier\<close> before and behind its loop, \<open>thread_merge\<close> only behind it.
  A thread that arrives at the barrier stays there until as many threads have arrived as the
  phase has; the last one to arrive releases all. The lemmas show that a run with barriers is a
  run of the loops of \<open>Index_Threads\<close>, that no thread is left at a barrier, and that a phase
  ends after a bounded number of steps.
\<close>

datatype stage = Before | Entering | Inside | Leaving | Returned

text \<open>\<open>loops\<close>: \<open>g_next_block\<close>, the records and where the threads are in their loops.\<close>

record parallel =
  loops :: phase
  stages :: "stage list"
  arrived :: nat

text \<open>\<open>pthread_barrier_wait\<close>; the barrier was initialised with the number of threads.\<close>

definition barrier_wait :: "stage \<Rightarrow> stage \<Rightarrow> nat \<Rightarrow> parallel \<Rightarrow> parallel" where
  "barrier_wait blocked passed i s =
     (let sts = (stages s)[i := blocked]; n = arrived s + 1 in
      if n = length (stages s)
      then s\<lparr>stages := map (\<lambda>x. if x = blocked then passed else x) sts, arrived := 0\<rparr>
      else s\<lparr>stages := sts, arrived := n\<rparr>)"

text \<open>A step inside the loop, or the second barrier when the loop has ended.\<close>

definition loop_or_leave :: "(nat \<Rightarrow> phase \<Rightarrow> phase option) \<Rightarrow> nat \<Rightarrow> parallel \<Rightarrow> parallel option" where
  "loop_or_leave body i s =
     (if workers (loops s) ! i = Finished then Some (barrier_wait Leaving Returned i s)
      else map_option (\<lambda>l. s\<lparr>loops := l\<rparr>) (body i (loops s)))"

definition thread_sort ::
  "(index_record list \<Rightarrow> index_record list) \<Rightarrow> nat \<Rightarrow> nat \<Rightarrow> nat \<Rightarrow> parallel \<Rightarrow> parallel option" where
  "thread_sort qsort block_count block_size i s =
     (case stages s ! i of
        Before \<Rightarrow> Some (barrier_wait Entering Inside i s)
      | Inside \<Rightarrow> loop_or_leave (sort_loop qsort block_count block_size) i s
      | _ \<Rightarrow> None)"

definition thread_merge :: "nat \<Rightarrow> nat \<Rightarrow> nat \<Rightarrow> parallel \<Rightarrow> parallel option" where
  "thread_merge block_count block_size i s =
     (case stages s ! i of
        Inside \<Rightarrow> loop_or_leave (merge_loop block_count block_size) i s
      | _ \<Rightarrow> None)"

text \<open>
  A phase: \<open>threads\<close> threads are created (one that is not created yet is one that has not
  moved), any of them moves next, and all are joined.
\<close>

definition start_phase :: "stage \<Rightarrow> nat \<Rightarrow> index_record list \<Rightarrow> parallel" where
  "start_phase first threads a =
     \<lparr>loops = start_loops threads a, stages = replicate threads first, arrived = 0\<rparr>"

inductive phase_step :: "(nat \<Rightarrow> parallel \<Rightarrow> parallel option) \<Rightarrow> parallel \<Rightarrow> parallel \<Rightarrow> bool" for thread where
  "i < length (stages s) \<Longrightarrow> thread i s = Some s' \<Longrightarrow> phase_step thread s s'"

definition joined :: "parallel \<Rightarrow> bool" where
  "joined s \<longleftrightarrow> (\<forall>x \<in> set (stages s). x = Returned)"

subsection \<open>The barrier\<close>

text \<open>Both kinds of thread do what this function does.\<close>

definition barrier_step :: "(nat \<Rightarrow> phase \<Rightarrow> phase option) \<Rightarrow> nat \<Rightarrow> parallel \<Rightarrow> parallel option" where
  "barrier_step body i s =
     (case stages s ! i of
        Before \<Rightarrow> Some (barrier_wait Entering Inside i s)
      | Inside \<Rightarrow> loop_or_leave body i s
      | _ \<Rightarrow> None)"

lemma thread_sort_eq: "thread_sort qs n b = barrier_step (sort_loop qs n b)"
  by (simp add: thread_sort_def barrier_step_def fun_eq_iff)

lemma thread_merge_step: "phase_step (thread_merge n b) s s' \<Longrightarrow> phase_step (barrier_step (merge_loop n b)) s s'"
  by (auto simp: phase_step.simps thread_merge_def barrier_step_def split: stage.splits)

lemma thread_merge_moves:
  assumes "Before \<notin> set (stages s)" "phase_step (barrier_step (merge_loop n b)) s s'"
  shows "phase_step (thread_merge n b) s s'"
proof -
  from assms(2) obtain i where i: "i < length (stages s)" "barrier_step (merge_loop n b) i s = Some s'"
    by (auto simp: phase_step.simps)
  then have "stages s ! i \<noteq> Before" using assms(1) by (metis nth_mem)
  with i(2) have "thread_merge n b i s = Some s'"
    by (cases "stages s ! i") (simp_all add: thread_merge_def barrier_step_def)
  with i(1) show ?thesis by (rule phase_step.intros)
qed

definition at_stage :: "stage \<Rightarrow> stage \<Rightarrow> nat" where
  "at_stage x y = of_bool (y = x)"

text \<open>
  Either all threads are on their way to the first barrier, or all are between the barriers, or
  all have passed the second one; and \<open>arrived\<close> counts those that wait.
\<close>

definition between :: "stage \<Rightarrow> stage \<Rightarrow> parallel \<Rightarrow> bool" where
  "between x y s \<longleftrightarrow> set (stages s) \<subseteq> {x, y} \<and> arrived s = tally (at_stage y) (stages s)
     \<and> arrived s < length (stages s)"

definition barrier_inv :: "parallel \<Rightarrow> bool" where
  "barrier_inv s \<longleftrightarrow> length (stages s) = length (workers (loops s))
     \<and> (between Before Entering s \<or> between Inside Leaving s \<or> joined s)
     \<and> (\<forall>i < length (stages s). stages s ! i \<in> {Leaving, Returned} \<longrightarrow> workers (loops s) ! i = Finished)"

lemma tally_at_stage_replicate: "tally (at_stage x) (replicate n y) = (if x = y then n else 0)"
  by (induction n) (simp_all add: tally_def at_stage_def)

lemma start_barrier_inv: "0 < t \<Longrightarrow> x \<in> {Before, Inside} \<Longrightarrow> barrier_inv (start_phase x t a)"
  by (auto simp: barrier_inv_def between_def start_phase_def start_loops_def tally_at_stage_replicate)

text \<open>When every thread is at stage \<open>y\<close> the tally is the number of threads, and conversely.\<close>

lemma tally_at_stage_le: "tally (at_stage x) xs \<le> length xs"
  by (induction xs) (auto simp: tally_def at_stage_def)

lemma tally_at_stage_full: "tally (at_stage x) xs = length xs \<Longrightarrow> set xs \<subseteq> {x}"
proof (induction xs)
  case (Cons y xs)
  have "tally (at_stage x) (y # xs) = at_stage x y + tally (at_stage x) xs" by (simp add: tally_def)
  moreover have "at_stage x y = (if y = x then 1 else 0)" by (simp add: at_stage_def)
  ultimately show ?case using Cons tally_at_stage_le [of x xs] by (simp split: if_splits)
qed simp

lemma barrier_wait_between:
  assumes s: "between x y s" and i: "i < length (stages s)" "stages s ! i = x" and ne: "x \<noteq> y"
  shows "(arrived s + 1 < length (stages s) \<and> between x y (barrier_wait y z i s)
      \<and> stages (barrier_wait y z i s) = (stages s)[i := y])
    \<or> (arrived s + 1 = length (stages s)
      \<and> barrier_wait y z i s = s\<lparr>stages := replicate (length (stages s)) z, arrived := 0\<rparr>)"
proof (cases "arrived s + 1 = length (stages s)")
  case True
  let ?sts = "(stages s)[i := y]"
  have "tally (at_stage y) ?sts = length ?sts"
    using tally_update [OF i(1), of "at_stage y" y] s i ne True by (simp add: between_def at_stage_def)
  then have "set ?sts \<subseteq> {y}" by (rule tally_at_stage_full)
  then have "map (\<lambda>w. if w = y then z else w) ?sts = replicate (length (stages s)) z"
    by (intro replicate_eqI) auto
  with True show ?thesis by (simp add: barrier_wait_def Let_def)
next
  case False
  have sub: "set ((stages s)[i := y]) \<subseteq> {x, y}"
    using s set_update_subset_insert [of "stages s" i y] by (auto simp: between_def)
  have "arrived s + 1 = tally (at_stage y) ((stages s)[i := y])"
    using tally_update [OF i(1), of "at_stage y" y] s i ne by (simp add: between_def at_stage_def)
  moreover have "arrived s + 1 < length (stages s)" using False s by (simp add: between_def)
  ultimately show ?thesis using sub by (simp add: barrier_wait_def Let_def between_def)
qed

text \<open>What the barrier does not touch.\<close>

lemma barrier_wait_frame [simp]:
  "loops (barrier_wait y z i s) = loops s" "length (stages (barrier_wait y z i s)) = length (stages s)"
  by (simp_all add: barrier_wait_def Let_def)

text \<open>The invariant is kept when a thread arrives at a barrier, and when one moves in its loop.\<close>

lemma barrier_inv_arrive:
  assumes inv: "barrier_inv s" and i: "i < length (stages s)" "stages s ! i = x"
    and xyz: "(x, y, z) = (Before, Entering, Inside)
      \<or> (x, y, z) = (Inside, Leaving, Returned) \<and> workers (loops s) ! i = Finished"
  shows "barrier_inv (barrier_wait y z i s)"
proof -
  have mem: "x \<in> set (stages s)" using i by auto
  have b: "between x y s"
    using inv xyz mem unfolding barrier_inv_def between_def joined_def by auto
  have ne: "x \<noteq> y" using xyz by auto
  have len: "length (stages s) = length (workers (loops s))" using inv by (simp add: barrier_inv_def)
  have fin: "workers (loops s) ! j = Finished" if "j < length (stages s)" "stages s ! j \<in> {Leaving, Returned}" for j
    using inv that by (auto simp: barrier_inv_def)
  from barrier_wait_between [OF b i ne, of z] show ?thesis
  proof
    assume "arrived s + 1 < length (stages s) \<and> between x y (barrier_wait y z i s)
      \<and> stages (barrier_wait y z i s) = (stages s)[i := y]"
    with xyz fin len i(1) show ?thesis
      by (auto simp: barrier_inv_def nth_list_update)
  next
    assume r: "arrived s + 1 = length (stages s)
      \<and> barrier_wait y z i s = s\<lparr>stages := replicate (length (stages s)) z, arrived := 0\<rparr>"
    show ?thesis
    proof (cases "z = Inside")
      case True
      have "0 < length (stages s)" using i by auto
      with r True len show ?thesis
        by (auto simp: barrier_inv_def between_def tally_at_stage_replicate)
    next
      case False
      then have xyz': "x = Inside" "y = Leaving" "z = Returned" "workers (loops s) ! i = Finished" using xyz by auto
      have "workers (loops s) ! j = Finished" if j: "j < length (stages s)" for j
      proof (cases "j = i")
        case False
        have "tally (at_stage y) ((stages s)[i := y]) = length ((stages s)[i := y])"
          using tally_update [OF i(1), of "at_stage y" y] b i ne r by (simp add: between_def at_stage_def)
        then have "set ((stages s)[i := y]) \<subseteq> {y}" by (rule tally_at_stage_full)
        then have "(stages s)[i := y] ! j = y" using j by (metis length_list_update nth_mem singletonD subsetD)
        with False fin [OF j] xyz' show ?thesis by simp
      qed (simp add: xyz')
      with r xyz' len show ?thesis by (auto simp: barrier_inv_def joined_def)
    qed
  qed
qed

lemma barrier_step_inv:
  assumes inv: "barrier_inv s" and st: "phase_step (barrier_step (worker_step claim work)) s s'"
  shows "barrier_inv s'
    \<and> (loops s' = loops s \<or> loop_step (worker_step claim work) (loops s) (loops s'))"
proof -
  from st obtain i where i: "i < length (stages s)" "barrier_step (worker_step claim work) i s = Some s'"
    by (auto simp: phase_step.simps)
  have len: "length (stages s) = length (workers (loops s))" using inv by (simp add: barrier_inv_def)
  show ?thesis
  proof (cases "stages s ! i")
    case Before
    with i have "s' = barrier_wait Entering Inside i s" by (simp add: barrier_step_def)
    with barrier_inv_arrive [OF inv i(1) Before] show ?thesis by simp
  next
    case Inside
    show ?thesis
    proof (cases "workers (loops s) ! i = Finished")
      case True
      with Inside i have "s' = barrier_wait Leaving Returned i s"
        by (simp add: barrier_step_def loop_or_leave_def)
      with barrier_inv_arrive [OF inv i(1) Inside] True show ?thesis by simp
    next
      case False
      with Inside i obtain l where l: "worker_step claim work i (loops s) = Some l" "s' = s\<lparr>loops := l\<rparr>"
        by (auto simp: barrier_step_def loop_or_leave_def)
      have st: "loop_step (worker_step claim work) (loops s) l"
        using i(1) len l(1) by (intro loop_step.intros) simp_all
      have ws: "length (workers l) = length (workers (loops s))"
        "j \<noteq> i \<Longrightarrow> workers l ! j = workers (loops s) ! j" for j
        using l(1) False by (auto simp: worker_step_def split: worker.splits option.splits)
      have "barrier_inv s'" unfolding barrier_inv_def
      proof (intro conjI allI impI)
        fix j assume "j < length (stages s')" "stages s' ! j \<in> {Leaving, Returned}"
        moreover from this Inside have "j \<noteq> i" by (auto simp: l(2))
        ultimately show "workers (loops s') ! j = Finished"
          using inv [unfolded barrier_inv_def, THEN conjunct2, THEN conjunct2, rule_format, of j] ws(2) [of j]
          by (simp add: l(2))
      next
        show "between Before Entering s' \<or> between Inside Leaving s' \<or> joined s'"
          using inv [unfolded barrier_inv_def, THEN conjunct2, THEN conjunct1]
          unfolding l(2) between_def joined_def by simp
      qed (use len ws(1) in \<open>simp add: l(2)\<close>)
      with st show ?thesis by (simp add: l(2))
    qed
  qed (use i in \<open>simp_all add: barrier_step_def\<close>)
qed

lemma joined_loops_done: "barrier_inv s \<Longrightarrow> joined s \<Longrightarrow> loops_done (loops s)"
  unfolding barrier_inv_def joined_def loops_done_def
  by (metis in_set_conv_nth insertI1 insertI2)

text \<open>Nobody is left at a barrier: as long as the phase is not over some thread can move.\<close>

lemma between_moves:
  assumes "between x y s" "x \<noteq> y"
  shows "\<exists>i < length (stages s). stages s ! i = x"
proof (rule ccontr)
  assume "\<not> (\<exists>i < length (stages s). stages s ! i = x)"
  then have "set (stages s) \<subseteq> {y}"
    using assms(1) unfolding between_def by (metis in_set_conv_nth insertE singletonD singletonI subset_iff)
  then have "stages s = replicate (length (stages s)) y" by (intro replicate_eqI) auto
  then have "tally (at_stage y) (stages s) = length (stages s)" by (metis tally_at_stage_replicate)
  with assms(1) show False unfolding between_def by linarith
qed

lemma not_joined_moves:
  assumes inv: "barrier_inv s" and nj: "\<not> joined s"
  shows "\<exists>s'. phase_step (barrier_step (worker_step claim work)) s s'"
proof -
  from inv nj consider "between Before Entering s" | "between Inside Leaving s" by (auto simp: barrier_inv_def)
  then show ?thesis
  proof cases
    case 1
    from between_moves [OF 1] obtain i where i: "i < length (stages s)" "stages s ! i = Before" by auto
    then have "barrier_step (worker_step claim work) i s = Some (barrier_wait Entering Inside i s)"
      by (simp add: barrier_step_def)
    with i(1) show ?thesis by (blast intro: phase_step.intros)
  next
    case 2
    from between_moves [OF 2] obtain i where i: "i < length (stages s)" "stages s ! i = Inside" by auto
    have "barrier_step (worker_step claim work) i s \<noteq> None"
      using i(2) by (auto simp: barrier_step_def loop_or_leave_def worker_step_def split: worker.splits)
    with i(1) show ?thesis by (blast intro: phase_step.intros)
  qed
qed

text \<open>How many more barriers and moves a thread has in front of it, at most.\<close>

fun stage_weight :: "stage \<Rightarrow> nat" where
  "stage_weight Before = 4"
| "stage_weight Entering = 3"
| "stage_weight Inside = 2"
| "stage_weight Leaving = 1"
| "stage_weight Returned = 0"

lemma tally_map_le: "(\<And>x. w (f x) \<le> w x) \<Longrightarrow> tally w (map f xs) \<le> tally w xs"
  by (induction xs) (simp_all add: tally_def add_mono)

lemma barrier_wait_weight:
  assumes i: "i < length (stages s)" "stages s ! i = x"
    and w: "stage_weight y < stage_weight x" "stage_weight z < stage_weight y"
  shows "tally stage_weight (stages (barrier_wait y z i s)) < tally stage_weight (stages s)"
proof -
  let ?sts = "(stages s)[i := y]"
  have "tally stage_weight ?sts < tally stage_weight (stages s)"
    using tally_update [OF i(1), of stage_weight y] i(2) w(1) by simp
  moreover have "tally stage_weight (map (\<lambda>u. if u = y then z else u) ?sts) \<le> tally stage_weight ?sts"
    by (rule tally_map_le) (use w(2) in auto)
  ultimately show ?thesis by (auto simp: barrier_wait_def Let_def)
qed

context chunk_jobs
begin

lemma barrier_run:
  assumes "steps (phase_step (barrier_step (worker_step claim work))) (start_phase x t xs) s"
    and "0 < t" "x \<in> {Before, Inside}"
  shows "barrier_inv s \<and> steps (loop_step (worker_step claim work)) (start_loops t xs) (loops s)"
proof (rule steps_invariant [OF assms(1)])
  show "barrier_inv (start_phase x t xs)
    \<and> steps (loop_step (worker_step claim work)) (start_loops t xs) (loops (start_phase x t xs))"
    using start_barrier_inv [OF assms(2,3)] by (simp add: start_phase_def steps_refl)
next
  fix u v
  assume u: "barrier_inv u \<and> steps (loop_step (worker_step claim work)) (start_loops t xs) (loops u)"
    "phase_step (barrier_step (worker_step claim work)) u v"
  then show "barrier_inv v \<and> steps (loop_step (worker_step claim work)) (start_loops t xs) (loops v)"
    using barrier_step_inv [of u claim work v] by (metis steps_snoc)
qed

lemma barrier_result:
  assumes "steps (phase_step (barrier_step (worker_step claim work))) (start_phase x t xs) s"
    and "0 < t" "x \<in> {Before, Inside}" "joined s" "length xs = n * w"
  shows "array (loops s) = fold (\<lambda>c. work (k * c)) [0..<n] xs"
  using barrier_run [OF assms(1-3)] joined_loops_done assms(4)
  by (auto intro: phase_sequential [OF _ _ assms(2,5)])

lemma barrier_decreases:
  assumes run: "steps (phase_step (barrier_step (worker_step claim work))) (start_phase x t xs) s"
    and "0 < t" "x \<in> {Before, Inside}" "length xs = n * w"
    and st: "phase_step (barrier_step (worker_step claim work)) s s'"
  shows "work_left (loops s') + tally stage_weight (stages s')
    < work_left (loops s) + tally stage_weight (stages s)"
proof -
  note r = barrier_run [OF run assms(2,3)]
  then have "steps (loop_step (worker_step claim work)) (start_loops t xs) (loops s)" ..
  from steps_invariant [where P = "jobs_inv xs", OF this start_inv [OF assms(4)]] step_inv
  have inv: "jobs_inv xs (loops s)" by blast
  from st obtain i where i: "i < length (stages s)" "barrier_step (worker_step claim work) i s = Some s'"
    by (auto simp: phase_step.simps)
  have len: "length (stages s) = length (workers (loops s))" using r by (simp add: barrier_inv_def)
  show ?thesis
  proof (cases "stages s ! i")
    case Before
    with i have "s' = barrier_wait Entering Inside i s" by (simp add: barrier_step_def)
    with barrier_wait_weight [OF i(1) Before] show ?thesis by simp
  next
    case Inside
    show ?thesis
    proof (cases "workers (loops s) ! i = Finished")
      case True
      with Inside i have "s' = barrier_wait Leaving Returned i s"
        by (simp add: barrier_step_def loop_or_leave_def)
      with barrier_wait_weight [OF i(1) Inside] show ?thesis by simp
    next
      case False
      with Inside i obtain l where l: "worker_step claim work i (loops s) = Some l" "s' = s\<lparr>loops := l\<rparr>"
        by (auto simp: barrier_step_def loop_or_leave_def)
      have "loop_step (worker_step claim work) (loops s) l"
        using i(1) len l(1) by (intro loop_step.intros) simp_all
      from step_decreases [OF inv this] show ?thesis by (simp add: l(2))
    qed
  qed (use i in \<open>simp_all add: barrier_step_def\<close>)
qed

end

subsection \<open>The two phases\<close>

lemma sort_run:
  "phase_step (thread_sort qs n b) = phase_step (barrier_step (worker_step (claim_sort n) (sort_block qs b)))"
  by (simp add: thread_sort_eq sort_loop_def)

lemma merge_run:
  "steps (phase_step (thread_merge n b)) s t
    \<Longrightarrow> steps (phase_step (barrier_step (worker_step (claim_merge n) (merge_job b)))) s t"
  by (erule steps_mono) (rule thread_merge_step [unfolded merge_loop_def])

lemma merge_no_before:
  "steps (phase_step (thread_merge n b)) (start_phase Inside t xs) s \<Longrightarrow> Before \<notin> set (stages s)"
proof (erule steps_invariant)
  show "Before \<notin> set (stages (start_phase Inside t xs))" by (simp add: start_phase_def)
next
  fix u v
  assume u: "Before \<notin> set (stages u)" "phase_step (thread_merge n b) u v"
  have "Before \<notin> set ((stages u)[i := Leaving])" for i
    using u(1) set_update_subset_insert [of "stages u" i Leaving] by auto
  then have "Before \<notin> set (stages (barrier_wait Leaving Returned i u))" for i
    by (auto simp: barrier_wait_def Let_def split: if_splits)
  moreover obtain i where "thread_merge n b i u = Some v" using u(2) by (auto simp: phase_step.simps)
  ultimately show "Before \<notin> set (stages v)"
    using u(1) by (cases "stages u ! i") (auto simp: thread_merge_def loop_or_leave_def split: if_splits)
qed

text \<open>
  C7. The interleaving does not matter. However many threads run \<open>thread_sort\<close> or
  \<open>thread_merge\<close>, and in whatever order they claim and process blocks, when all have been
  joined the array is what one thread working through the blocks in order produces.
\<close>

theorem lab6_phases_deterministic:
  assumes "qsort_ok qs" "0 < t"
  shows "(length xs = n * b \<and> steps (phase_step (thread_sort qs n b)) (start_phase Before t xs) s \<and> joined s
      \<longrightarrow> array (loops s) = sort_phase qs t n b xs)
    \<and> (length xs = 2 * n * b \<and> steps (phase_step (thread_merge (2 * n) b)) (start_phase Inside t xs) s \<and> joined s
      \<longrightarrow> array (loops s) = merge_phase t (2 * n) b xs)"
proof (intro conjI impI; elim conjE)
  assume a: "length xs = n * b" "steps (phase_step (thread_sort qs n b)) (start_phase Before t xs) s" "joined s"
  from chunk_jobs.barrier_result [OF sort_jobs [OF assms(1)] a(2) [unfolded sort_run] assms(2) _ a(3,1)] assms(2)
  show "array (loops s) = sort_phase qs t n b xs" by (simp add: sort_phase_def)
next
  assume a: "length xs = 2 * n * b" "steps (phase_step (thread_merge (2 * n) b)) (start_phase Inside t xs) s" "joined s"
  have "length xs = n * (2 * b)" using a(1) by simp
  from merge_threads.barrier_result [OF merge_run [OF a(2)] assms(2) _ a(3) this] assms(2)
  show "array (loops s) = merge_phase t (2 * n) b xs" by (simp add: merge_phase_def)
qed

text \<open>
  C22. The phases terminate. As long as a thread has not returned, some thread can move: neither the
  mutex nor a barrier nor the claiming loop blocks the program. And every move brings the phase
  closer to its end: the number of moves left, two for each unclaimed block (pair of blocks),
  one or two for each thread in its loop and those for the barriers in front of it, decreases.
\<close>

theorem lab6_phases_terminate:
  assumes "qsort_ok qs" "0 < t"
  shows "(length xs = n * b \<and> steps (phase_step (thread_sort qs n b)) (start_phase Before t xs) s \<longrightarrow>
      (\<not> joined s \<longrightarrow> (\<exists>s'. phase_step (thread_sort qs n b) s s'))
      \<and> (\<forall>s'. phase_step (thread_sort qs n b) s s' \<longrightarrow>
           2 * (n - next_block (loops s')) + tally moves_left (workers (loops s')) + tally stage_weight (stages s')
           < 2 * (n - next_block (loops s)) + tally moves_left (workers (loops s)) + tally stage_weight (stages s)))
    \<and> (length xs = 2 * n * b \<and> steps (phase_step (thread_merge (2 * n) b)) (start_phase Inside t xs) s \<longrightarrow>
      (\<not> joined s \<longrightarrow> (\<exists>s'. phase_step (thread_merge (2 * n) b) s s'))
      \<and> (\<forall>s'. phase_step (thread_merge (2 * n) b) s s' \<longrightarrow>
           2 * (n - next_block (loops s') div 2) + tally moves_left (workers (loops s')) + tally stage_weight (stages s')
           < 2 * (n - next_block (loops s) div 2) + tally moves_left (workers (loops s)) + tally stage_weight (stages s)))"
    (is "(?sort \<longrightarrow> ?S1 \<and> ?S2) \<and> (?merge \<longrightarrow> ?M1 \<and> ?M2)")
proof (rule conjI; rule impI; elim conjE)
  note jobs = sort_jobs [OF assms(1), of n b]
  assume a: "length xs = n * b" "steps (phase_step (thread_sort qs n b)) (start_phase Before t xs) s"
  note run = a(2) [unfolded sort_run]
  have "barrier_inv s" using chunk_jobs.barrier_run [OF jobs run assms(2)] by simp
  then have "?S1" using not_joined_moves by (auto simp: sort_run)
  moreover have "?S2" unfolding sort_run
    using chunk_jobs.barrier_decreases [OF jobs run assms(2) _ a(1)]
    unfolding chunk_jobs.work_left_def [OF jobs] by simp
  ultimately show "?S1 \<and> ?S2" ..
next
  assume a: "length xs = 2 * n * b" "steps (phase_step (thread_merge (2 * n) b)) (start_phase Inside t xs) s"
  have len: "length xs = n * (2 * b)" using a(1) by simp
  note run = merge_run [OF a(2)]
  have "barrier_inv s" using merge_threads.barrier_run [OF run assms(2)] by simp
  then have "?M1"
    using not_joined_moves thread_merge_moves [OF merge_no_before [OF a(2)]] unfolding merge_loop_def by blast
  moreover have "?M2"
    using merge_threads.barrier_decreases [OF run assms(2) _ len] thread_merge_step [of "2 * n" b s]
    unfolding merge_threads.work_left_def merge_loop_def by simp
  ultimately show "?M1 \<and> ?M2" ..
qed

end
