(* ===== verification/Index_Sort.thy ===== *)
theory Index_Sort
  imports Index_Barrier C_String
begin

section \<open>lab6: sorting the index file (lab6/src/sort_index.c)\<close>

text \<open>
  \<open>process_portion\<close> sorts one portion of the file, \<open>external_merge\<close> merges the sorted runs and
  \<open>main\<close> checks the arguments and calls both. The file is its size in bytes and the list of
  the whole records behind its 8-byte header; offsets of runs are counted in records from
  there. Which system calls succeed is an argument: \<open>portion_calls\<close> for a portion, \<open>merge_calls\<close>
  for the merging of two runs. The phases are the functions of \<open>Index_Threads\<close> that every
  interleaving computes. Products of counts stay below 2^31.
\<close>

function merge_rounds :: "nat \<Rightarrow> nat \<Rightarrow> nat \<Rightarrow> index_record list \<Rightarrow> index_record list" where
  "merge_rounds threads block_count block_size a =
     (if block_count > 1
      then merge_rounds threads (block_count div 2) (block_size * 2)
             (merge_phase threads block_count block_size a)
      else a)"
  by pat_completeness auto
termination
  by (relation "measure (\<lambda>(t, n, b, a). n)") auto

declare merge_rounds.simps [simp del]

text \<open>
  The calls of \<open>process_portion\<close> that may fail, in their order: \<open>open\<close>, \<open>mmap\<close>, the allocations
  and \<open>pthread_create\<close> for the sorting and for the merging threads, \<open>msync\<close> and \<open>munmap\<close>.
\<close>

record portion_calls =
  pc_open :: bool
  pc_mmap :: bool
  pc_malloc :: bool
  pc_create :: bool
  pc_merge_malloc :: bool
  pc_merge_create :: bool
  pc_msync :: bool
  pc_munmap :: bool

text \<open>
  \<open>None\<close> is the result -1. Otherwise the result is the sorted portion, its number of records,
  and the new \<open>g_block_count\<close>, which the merge rounds have halved down to 1. A negative number of
  threads makes \<open>malloc\<close> fail.
\<close>

definition process_portion ::
  "(index_record list \<Rightarrow> index_record list) \<Rightarrow> portion_calls \<Rightarrow> int \<Rightarrow> nat \<Rightarrow> nat \<Rightarrow> nat \<Rightarrow> index_record list
    \<Rightarrow> (index_record list \<times> nat \<times> nat) option" where
  "process_portion qs os threads block_count current_offset portion_bytes a =
     (if \<not> pc_open os then None
      else if \<not> pc_mmap os then None
      else if current_offset = 0 \<and> portion_bytes < 8 then None
      else (let recs = (if current_offset = 0 then (portion_bytes - 8) div 16 else portion_bytes div 16) in
        if portion_bytes mod 16 \<noteq> 0 \<and> current_offset \<noteq> 0 then None
        else if recs mod block_count \<noteq> 0 then None
        else (let block_size = recs div block_count in
          if threads < 0 \<or> \<not> pc_malloc os then None
          else if threads > 0 \<and> \<not> pc_create os then None
          else (let a = sort_phase qs (nat threads) block_count block_size (take recs a) in
            if block_count > 1 \<and> \<not> pc_merge_malloc os then None
            else if block_count > 1 \<and> threads > 0 \<and> \<not> pc_merge_create os then None
            else (let a = merge_rounds (nat threads) block_count block_size a in
              if \<not> pc_msync os then None
              else if \<not> pc_munmap os then None
              else Some (a, recs, min 1 block_count))))))"

subsection \<open>Merging the runs\<close>

text \<open>
  One round over the runs, and the loop of \<open>external_merge\<close> while there are several. The calls
  of one merge are told apart by the offset and the number of the records it merges.
\<close>

record merge_calls =
  mc_open :: bool
  mc_mmap :: bool
  mc_msync :: bool

fun merge_pass ::
  "(nat \<Rightarrow> nat \<Rightarrow> merge_calls) \<Rightarrow> (nat \<times> nat) list \<Rightarrow> index_record list
    \<Rightarrow> ((nat \<times> nat) list \<times> index_record list) option" where
  "merge_pass os [] d = Some ([], d)"
| "merge_pass os [r] d = Some ([r], d)"
| "merge_pass os ((o1, n1) # (o2, n2) # rs) d =
     (let total_recs = n1 + n2; calls = os o1 total_recs in
      if \<not> mc_open calls then None
      else if \<not> mc_mmap calls then None
      else (let d = merge_blocks o1 (o1 + n1) n1 n2 d in
        if \<not> mc_msync calls then None
        else map_option (\<lambda>(rs', d'). ((o1, total_recs) # rs', d')) (merge_pass os rs d)))"

lemma merge_pass_length: "merge_pass os rs d = Some (rs', d') \<Longrightarrow> length rs' = (length rs + 1) div 2"
  by (induction os rs d arbitrary: rs' d' rule: merge_pass.induct) (auto simp: Let_def split: if_splits)

function external_merge ::
  "(nat \<Rightarrow> nat \<Rightarrow> merge_calls) \<Rightarrow> (nat \<times> nat) list \<Rightarrow> index_record list \<Rightarrow> index_record list option" where
  "external_merge os rs d =
     (if length rs > 1
      then (case merge_pass os rs d of
              None \<Rightarrow> None
            | Some (rs', d') \<Rightarrow> external_merge os rs' d')
      else Some d)"
  by pat_completeness auto
termination
  by (relation "measure (\<lambda>(os, rs, d). length rs)") (auto dest!: merge_pass_length)

declare external_merge.simps [simp del]

subsection \<open>The main function\<close>

text \<open>
  The loop over the portions. \<open>current_offset\<close> and \<open>remaining\<close> are in bytes, \<open>rest\<close> holds the
  records from \<open>current_offset\<close> on; the sorted portions come out in their order, with the runs
  they make. \<open>os\<close> gives the results of the calls for the portion at an offset.
\<close>

function portions ::
  "(index_record list \<Rightarrow> index_record list) \<Rightarrow> (nat \<Rightarrow> portion_calls) \<Rightarrow> int \<Rightarrow> nat \<Rightarrow> nat \<Rightarrow> nat \<Rightarrow> nat \<Rightarrow> nat \<Rightarrow> index_record list
    \<Rightarrow> ((nat \<times> nat) list \<times> index_record list) option" where
  "portions qs os threads memsize block_count current_offset start remaining rest =
     (if remaining = 0 \<or> memsize = 0 then Some ([], [])
      else (let portion_bytes = (if remaining \<ge> memsize then memsize else remaining) in
        if current_offset \<noteq> 8 \<and> portion_bytes mod 16 \<noteq> 0 then None
        else (case process_portion qs (os current_offset) threads block_count current_offset portion_bytes rest of
                None \<Rightarrow> None
              | Some (a, n, block_count') \<Rightarrow>
                  (case portions qs os threads memsize block_count' (current_offset + portion_bytes)
                          (start + n) (remaining - portion_bytes) (drop n rest) of
                     None \<Rightarrow> None
                   | Some (runs, d) \<Rightarrow> Some ((start, n) # runs, a @ d)))))"
  by pat_completeness auto
termination
  by (relation "measure (\<lambda>(qs, m, t, ms, bc, off, st, rem, rest). rem)") (auto split: if_splits)

declare portions.simps [simp del]

text \<open>
  The end of the program: success with the file's records, a failure, or the division by zero
  in the computation of \<open>max_runs\<close>.
\<close>

datatype run_end = Success "index_record list" | Failure | Division_by_zero

text \<open>
  \<open>opened\<close> covers \<open>open\<close>, \<open>fstat\<close> and the read of the header, which is not used afterwards;
  \<open>allocated\<close> is the allocation of the runs.
\<close>

definition sort_index ::
  "(index_record list \<Rightarrow> index_record list) \<Rightarrow> nat \<Rightarrow> int \<Rightarrow> string \<Rightarrow> string \<Rightarrow> string \<Rightarrow> bool
    \<Rightarrow> (nat \<Rightarrow> portion_calls) \<Rightarrow> bool \<Rightarrow> (nat \<Rightarrow> nat \<Rightarrow> merge_calls) \<Rightarrow> nat \<Rightarrow> index_record list \<Rightarrow> run_end" where
  "sort_index qs pagesize argc arg_mem arg_blocks arg_threads opened os allocated ms st_size recs =
     (if argc \<noteq> 5 then Failure
      else (let memsize = nat (fst (strtol arg_mem) mod 2 ^ 64);
                blocks = int_of_long (fst (strtol arg_blocks));
                threads = int_of_long (fst (strtol arg_threads)) in
        if memsize mod pagesize \<noteq> 0 then Failure
        else if blocks \<le> 0 \<or> and blocks (blocks - 1) \<noteq> 0 \<or> blocks < threads * 4 then Failure
        else if \<not> opened then Failure
        else if st_size < 8 then Failure
        else if memsize = 0 then Division_by_zero
        else if \<not> allocated then Failure
        else (case portions qs os threads memsize (nat blocks) 8 0 (st_size - 8) recs of
                None \<Rightarrow> Failure
              | Some (runs, d) \<Rightarrow>
                  if length runs > 1
                  then (case external_merge ms runs d of None \<Rightarrow> Failure | Some d' \<Rightarrow> Success d')
                  else Success d)))"

subsection \<open>The phases sort\<close>

lemma mset_concat_map_chunks:
  assumes "length xs = n * w" "\<And>c. c < n \<Longrightarrow> mset (g (chunk w c xs)) = mset (chunk w c xs)"
  shows "mset (concat (map (\<lambda>c. g (chunk w c xs)) [0..<n])) = mset xs"
proof -
  have "mset (concat (map (\<lambda>c. g (chunk w c xs)) [0..<m])) = mset (concat (map (\<lambda>c. chunk w c xs) [0..<m]))"
    if "m \<le> n" for m
    using that by (induction m) (simp_all add: assms(2))
  from this [OF order_refl] show ?thesis by (simp add: concat_chunks [OF assms(1)])
qed

definition blocks_in_order :: "nat \<Rightarrow> nat \<Rightarrow> index_record list \<Rightarrow> bool" where
  "blocks_in_order n b a \<longleftrightarrow> length a = n * b \<and> (\<forall>c < n. in_order (chunk b c a))"

lemma no_nan_chunk: "no_nan a \<Longrightarrow> no_nan (chunk w c a)"
  by (auto simp: no_nan_def chunk_def dest: in_set_takeD in_set_dropD)

lemma sort_phase_blocks:
  assumes "qsort_ok qs" "0 < t" "length a = n * b" "no_nan a"
  shows "blocks_in_order n b (sort_phase qs t n b a) \<and> mset (sort_phase qs t n b a) = mset a"
proof -
  note jobs = sort_jobs [OF assms(1), of n b]
  have eq: "sort_phase qs t n b a = fold (\<lambda>c. sort_block qs b (1 * c)) [0..<n] a"
    using assms(2) by (simp add: sort_phase_def)
  note ch = chunk_jobs.fold_chunks [OF jobs order_refl assms(3)]
  have "in_order (qs (chunk b c a))" for c
    using assms(1) no_nan_chunk [OF assms(4)] by (simp add: qsort_ok_def)
  with ch have "blocks_in_order n b (sort_phase qs t n b a)"
    unfolding eq blocks_in_order_def by simp
  moreover have "mset (sort_phase qs t n b a) = mset a"
    unfolding eq chunk_jobs.fold_concat [OF jobs assms(3)]
    by (rule mset_concat_map_chunks [OF assms(3)]) (use assms(1) in \<open>simp add: qsort_ok_def\<close>)
  ultimately show ?thesis ..
qed

lemma merge_phase_blocks:
  assumes "0 < t" "blocks_in_order (2 * n) b a" "no_nan a"
  shows "blocks_in_order n (2 * b) (merge_phase t (2 * n) b a) \<and> mset (merge_phase t (2 * n) b a) = mset a"
proof -
  have len: "length a = n * (2 * b)" using assms(2) by (simp add: blocks_in_order_def)
  have eq: "merge_phase t (2 * n) b a = fold (\<lambda>c. merge_job b (2 * c)) [0..<n] a"
    using assms(1) by (simp add: merge_phase_def)
  note ch = merge_threads.fold_chunks [OF order_refl len]
  have "in_order (merge_halves b (chunk (2 * b) c a))" if c: "c < n" for c
  proof -
    have "take b (chunk (2 * b) c a) = chunk b (2 * c) a" "drop b (chunk (2 * b) c a) = chunk b (2 * c + 1) a"
      by (simp_all add: chunk_def drop_take min_def algebra_simps)
    moreover have "in_order (chunk b (2 * c) a)" "in_order (chunk b (2 * c + 1) a)"
      using assms(2) c by (auto simp: blocks_in_order_def)
    ultimately show ?thesis
      unfolding merge_halves_def using fill_tmp_order no_nan_chunk [OF assms(3)] by simp
  qed
  with ch have "blocks_in_order n (2 * b) (merge_phase t (2 * n) b a)"
    unfolding eq blocks_in_order_def by simp
  moreover have "mset (merge_phase t (2 * n) b a) = mset a"
    unfolding eq merge_threads.fold_concat [OF len]
    by (rule mset_concat_map_chunks [OF len]) (simp add: merge_halves_def fill_tmp_mset flip: mset_append)
  ultimately show ?thesis ..
qed

lemma merge_rounds_sort:
  assumes "0 < t" "blocks_in_order (2 ^ k) b a" "no_nan a"
  shows "in_order (merge_rounds t (2 ^ k) b a) \<and> mset (merge_rounds t (2 ^ k) b a) = mset a"
  using assms(2,3)
proof (induction k arbitrary: b a)
  case 0
  then show ?case by (subst (1 2) merge_rounds.simps) (auto simp: blocks_in_order_def chunk_def)
next
  case (Suc k)
  let ?a = "merge_phase t (2 ^ Suc k) b a"
  have m: "blocks_in_order (2 ^ k) (2 * b) ?a" "mset ?a = mset a"
    using merge_phase_blocks [OF assms(1), of "2 ^ k" b a] Suc.prems by simp_all
  have "merge_rounds t (2 ^ Suc k) b a = merge_rounds t (2 ^ k) (2 * b) ?a"
  proof -
    have "1 < (2 :: nat) ^ Suc k" by (rule one_less_power) simp_all
    then show ?thesis by (subst merge_rounds.simps) (simp add: mult.commute)
  qed
  with Suc.IH [OF m(1)] m(2) Suc.prems(2) no_nan_mset show ?case by metis
qed

lemma no_nan_take: "no_nan a \<Longrightarrow> no_nan (take n a)" "no_nan a \<Longrightarrow> no_nan (drop n a)"
  by (auto simp: no_nan_def dest: in_set_takeD in_set_dropD)

text \<open>A power of two, as the check of \<open>main\<close> tests it.\<close>

lemma power_of_two_test:
  assumes "0 < (n :: int)" "and n (n - 1) = 0"
  shows "\<exists>k. n = 2 ^ k"
  using assms
proof (induction "nat n" arbitrary: n rule: less_induct)
  case less
  show ?case
  proof (cases "n = 1")
    case True
    then show ?thesis by (intro exI [of _ 0]) simp
  next
    case False
    with less.prems(1) have n: "1 < n" by simp
    have "even n"
    proof (rule ccontr)
      assume "odd n"
      then have "(n - 1) div 2 = n div 2" "0 < n div 2" using n by presburger+
      moreover have "and n (n - 1) div 2 = and (n div 2) ((n - 1) div 2)" by (simp add: and_int_rec [of n])
      ultimately show False using less.prems(2) by simp
    qed
    then have half: "(n - 1) div 2 = n div 2 - 1" "0 < n div 2" "n div 2 < n" "n = 2 * (n div 2)"
      using n by presburger+
    have "and n (n - 1) div 2 = and (n div 2) ((n - 1) div 2)" by (simp add: and_int_rec [of n])
    then have "and (n div 2) (n div 2 - 1) = 0" using less.prems(2) half(1) by simp
    moreover have "nat (n div 2) < nat n" using half by simp
    ultimately obtain k where "n div 2 = 2 ^ k" using less.hyps [of "n div 2"] half(2) by blast
    with half(4) show ?thesis by (intro exI [of _ "Suc k"]) simp
  qed
qed

lemma process_portion_sorts:
  assumes "qsort_ok qs" "0 < threads" "8 \<le> off" "no_nan a" "portion_bytes div 16 \<le> length a"
    and "process_portion qs os threads (2 ^ k) off portion_bytes a = Some (a', n, bc)"
  shows "n = portion_bytes div 16 \<and> portion_bytes mod 16 = 0 \<and> bc = 1
    \<and> in_order a' \<and> mset a' = mset (take n a)"
proof -
  let ?n = "portion_bytes div 16" and ?b = "portion_bytes div 16 div 2 ^ k"
  let ?s = "sort_phase qs (nat threads) (2 ^ k) ?b (take ?n a)"
  have off: "off \<noteq> 0" and t: "0 < nat threads" using assms(2,3) by simp_all
  have r: "portion_bytes mod 16 = 0" "?n mod 2 ^ k = 0" "n = ?n" "bc = min 1 (2 ^ k)"
    "a' = merge_rounds (nat threads) (2 ^ k) ?b ?s"
    using assms(6) off by (auto simp: process_portion_def Let_def split: if_splits)
  have "length (take ?n a) = 2 ^ k * ?b" using assms(5) r(2) by (simp add: mult.commute mod_0_imp_dvd)
  note s = sort_phase_blocks [OF assms(1) t this no_nan_take(1) [OF assms(4)]]
  then have "no_nan ?s" using no_nan_mset no_nan_take(1) [OF assms(4)] by blast
  with merge_rounds_sort [OF t, of k ?b ?s] s r show ?thesis by (simp add: min_def)
qed

subsection \<open>The runs cover the file\<close>

fun runs_of :: "nat \<Rightarrow> 'a list list \<Rightarrow> (nat \<times> nat) list" where
  "runs_of start [] = []"
| "runs_of start (l # ls) = (start, length l) # runs_of (start + length l) ls"

lemma length_runs_of [simp]: "length (runs_of start ls) = length ls"
  by (induction ls arbitrary: start) simp_all

lemma portions_sort:
  assumes "qsort_ok qs" "0 < threads" "0 < memsize" "block_count = 2 ^ k" "8 \<le> off"
    and "length rest = remaining div 16" "no_nan rest"
    and "portions qs os threads memsize block_count off start remaining rest = Some (runs, d)"
  shows "\<exists>ls. runs = runs_of start ls \<and> d = concat ls \<and> (\<forall>l \<in> set ls. in_order l) \<and> mset d = mset rest"
  using assms
proof (induction qs os threads memsize block_count off start remaining rest arbitrary: k runs d
    rule: portions.induct)
  case (1 qs os threads memsize block_count off start remaining rest)
  note prems = "1.prems"
  show ?case
  proof (cases "remaining = 0")
    case True
    with prems show ?thesis by (subst (asm) portions.simps) (auto intro!: exI [of _ "[]"])
  next
    case False
    then have rem: "\<not> (remaining = 0 \<or> memsize = 0)" using prems(3) by simp
    define pb where "pb = (if remaining \<ge> memsize then memsize else remaining)"
    have pb: "0 < pb" "pb \<le> remaining" using False prems(3) by (auto simp: pb_def)
    note eq = prems(8) [unfolded portions.simps [of qs os threads memsize block_count off start remaining rest]
        Let_def pb_def [symmetric] if_not_P [OF rem]]
    then have ok: "\<not> (off \<noteq> 8 \<and> pb mod 16 \<noteq> 0)" by (auto split: if_splits)
    note eq = eq [unfolded if_not_P [OF ok]]
    obtain a n bc where pp: "process_portion qs (os off) threads block_count off pb rest = Some (a, n, bc)"
      using eq by (auto split: option.splits)
    obtain runs' d' where rec: "portions qs os threads memsize bc (off + pb) (start + n) (remaining - pb) (drop n rest)
        = Some (runs', d')" and res: "runs = (start, n) # runs'" "d = a @ d'"
      using eq pp by (auto split: option.splits)
    have "pb div 16 \<le> length rest" using pb(2) prems(6) by (simp add: div_le_mono)
    from process_portion_sorts [OF prems(1,2,5,7) this pp [unfolded prems(4)]]
    have n: "n = pb div 16" "pb mod 16 = 0" "bc = 1" "in_order a" "mset a = mset (take n rest)" by auto
    have len: "length (drop n rest) = (remaining - pb) div 16"
      using n(1,2) prems(6) pb(2) by (metis div_mult2_eq dvd_imp_mod_0 length_drop mod_0_imp_dvd
          add_diff_inverse_nat add_diff_cancel_left' div_plus_div_distrib_dvd_left leD)
    have "bc = 2 ^ 0" "8 \<le> off + pb" "no_nan (drop n rest)" using n prems(5,7) no_nan_take by auto
    from "1.IH" [OF rem pb_def ok pp refl refl prems(1-3) this(1,2) len this(3) rec]
    obtain ls where ls: "runs' = runs_of (start + n) ls" "d' = concat ls" "\<forall>l \<in> set ls. in_order l"
      "mset d' = mset (drop n rest)" by blast
    have "length a = n"
    proof -
      have "length a = length (take n rest)" using n(5) by (metis size_mset)
      with \<open>pb div 16 \<le> length rest\<close> n(1) show ?thesis by simp
    qed
    with ls res n(4,5) have "runs = runs_of start (a # ls)" "d = concat (a # ls)" "\<forall>l \<in> set (a # ls). in_order l"
      by simp_all
    moreover have "mset d = mset rest"
      using n(5) ls(4) res(2) by (metis append_take_drop_id mset_append)
    ultimately show ?thesis by blast
  qed
qed

subsection \<open>Merging all runs\<close>

fun pair_merge :: "index_record list list \<Rightarrow> index_record list list" where
  "pair_merge [] = []"
| "pair_merge [l] = [l]"
| "pair_merge (l1 # l2 # ls) = fill_tmp l1 l2 # pair_merge ls"

lemma merge_blocks_adjacent:
  "merge_blocks (length p) (length p + length l1) (length l1) (length l2) (p @ l1 @ l2 @ r) = p @ fill_tmp l1 l2 @ r"
  by (simp add: merge_blocks_def Let_def)

lemma merge_pass_runs:
  "merge_pass os (runs_of (length p) ls) (p @ concat ls) = Some (rs', d')
    \<Longrightarrow> rs' = runs_of (length p) (pair_merge ls) \<and> d' = p @ concat (pair_merge ls)"
proof (induction ls arbitrary: p rs' d' rule: pair_merge.induct)
  case (3 l1 l2 ls)
  have len: "length p + length l1 + length l2 = length (p @ fill_tmp l1 l2)" by simp
  have d: "merge_blocks (length p) (length p + length l1) (length l1) (length l2) (p @ concat (l1 # l2 # ls))
      = (p @ fill_tmp l1 l2) @ concat ls"
    using merge_blocks_adjacent [of p l1 l2 "concat ls"] by simp
  from 3(2) obtain rs d where
    "merge_pass os (runs_of (length (p @ fill_tmp l1 l2)) ls) ((p @ fill_tmp l1 l2) @ concat ls) = Some (rs, d)"
    "rs' = (length p, length l1 + length l2) # rs" "d' = d"
    unfolding runs_of.simps merge_pass.simps Let_def d len by (auto split: if_split_asm)
  with 3(1) [of "p @ fill_tmp l1 l2" rs d] show ?case by simp
qed simp_all

definition merges_ok :: "(nat \<Rightarrow> nat \<Rightarrow> merge_calls) \<Rightarrow> bool" where
  "merges_ok ms \<longleftrightarrow> (\<forall>start n. mc_open (ms start n) \<and> mc_mmap (ms start n) \<and> mc_msync (ms start n))"

lemma merge_pass_total: "merges_ok ms \<Longrightarrow> merge_pass ms rs d \<noteq> None"
  by (induction ms rs d rule: merge_pass.induct) (auto simp: merges_ok_def Let_def)

lemma pair_merge_ok:
  assumes "\<forall>l \<in> set ls. in_order l" "no_nan (concat ls)"
  shows "(\<forall>l \<in> set (pair_merge ls). in_order l) \<and> mset (concat (pair_merge ls)) = mset (concat ls)"
  using assms by (induction ls rule: pair_merge.induct) (auto simp: fill_tmp_mset intro: fill_tmp_order)

lemma external_merge_sorts:
  assumes "\<forall>l \<in> set ls. in_order l" "no_nan (concat ls)"
    and "external_merge ms (runs_of 0 ls) (concat ls) = Some d"
  shows "in_order d \<and> mset d = mset (concat ls)"
  using assms
proof (induction "length ls" arbitrary: ls rule: less_induct)
  case less
  show ?case
  proof (cases "length ls > 1")
    case False
    then have "in_order (concat ls)" using less.prems(1)
      by (cases ls; cases "tl ls") (auto simp: in_order_def)
    with False less.prems(3) show ?thesis by (subst (asm) external_merge.simps) simp
  next
    case True
    note pass = merge_pass_runs [of ms "[]" ls, simplified]
    note ok = pair_merge_ok [OF less.prems(1,2)]
    from True less.prems(3) obtain rs' d' where m: "merge_pass ms (runs_of 0 ls) (concat ls) = Some (rs', d')"
      "external_merge ms rs' d' = Some d"
      by (subst (asm) external_merge.simps) (auto split: option.splits)
    note rs = pass [OF m(1)]
    have shorter: "length (pair_merge ls) < length ls"
      using merge_pass_length [OF m(1)] rs True by simp
    have "no_nan (concat (pair_merge ls))" using ok less.prems(2) no_nan_mset by blast
    from less.hyps [OF shorter _ this] ok m(2) rs show ?thesis by simp
  qed
qed

subsection \<open>Theorems\<close>

lemma sort_index_sorts:
  assumes "qsort_ok qs" "sort_index qs pagesize argc a_mem a_blocks a_threads opened os allocated ms st_size recs = Success d"
    and "0 < int_of_long (fst (strtol a_threads))"
    and "length recs = (st_size - 8) div 16" "no_nan recs"
  shows "in_order d \<and> mset d = mset recs"
proof -
  define memsize where "memsize = nat (fst (strtol a_mem) mod 2 ^ 64)"
  define blocks where "blocks = int_of_long (fst (strtol a_blocks))"
  define threads where "threads = int_of_long (fst (strtol a_threads))"
  note run = assms(2) [unfolded sort_index_def Let_def, folded memsize_def blocks_def threads_def]
  have b: "0 < blocks" "and blocks (blocks - 1) = 0" and m: "0 < memsize"
    using run by (auto split: if_splits)
  from power_of_two_test [OF b] obtain k where k: "blocks = 2 ^ k" by blast
  have nb: "nat blocks = 2 ^ k" unfolding k by (simp add: nat_power_eq)
  obtain runs d0 where p: "portions qs os threads memsize (nat blocks) 8 0 (st_size - 8) recs = Some (runs, d0)"
    using run by (auto split: if_splits option.splits)
  have r: "(if length runs > 1
      then (case external_merge ms runs d0 of None \<Rightarrow> Failure | Some d' \<Rightarrow> Success d') else Success d0) = Success d"
    using run p by (auto split: if_splits)
  obtain ls where ls: "runs = runs_of 0 ls" "d0 = concat ls" "\<forall>l \<in> set ls. in_order l" "mset d0 = mset recs"
    using portions_sort [OF assms(1) assms(3) [folded threads_def] m nb _ assms(4,5) p] by auto
  have nn: "no_nan (concat ls)" using ls(2,4) assms(5) no_nan_mset by blast
  show ?thesis
  proof (cases "length ls > 1")
    case True
    then have "external_merge ms (runs_of 0 ls) (concat ls) = Some d"
      using r ls(1,2) by (auto split: option.splits)
    with external_merge_sorts [OF ls(3) nn] ls(2,4) show ?thesis by simp
  next
    case False
    then have "d = d0" using r ls(1) by simp
    moreover have "in_order (concat ls)" using False ls(3)
      by (cases ls; cases "tl ls") (auto simp: in_order_def)
    ultimately show ?thesis using ls by simp
  qed
qed


lemma merge_rounds_no_threads: "merge_rounds 0 n b a = a"
proof (induction n arbitrary: b rule: less_induct)
  case (less n)
  then show ?case by (subst merge_rounds.simps) (simp add: merge_phase_def)
qed

text \<open>
  A memory size of 0 passes the check against the page size: the number of runs is then computed by
  a division by zero, whatever the file.
\<close>

theorem lab6_memsize_zero_faults:
  assumes "fst (strtol a_mem) = 0" "blocks = int_of_long (fst (strtol a_blocks))" "threads = int_of_long (fst (strtol a_threads))"
    and "0 < blocks" "and blocks (blocks - 1) = 0" "threads * 4 \<le> blocks" "8 \<le> st_size"
  shows "sort_index qs pagesize 5 a_mem a_blocks a_threads True os allocated ms st_size recs = Division_by_zero"
  using assms by (simp add: sort_index_def Let_def)

text \<open>
  With 0 threads the file is left as it is. The test \<open>blocks < threads * 4\<close> lets 0 pass, no
  thread is created, no block is sorted or merged, and a file of one portion is reported fully
  sorted although not a single record has moved.
\<close>

theorem lab6_zero_threads:
  assumes "sort_index qs pagesize argc a_mem a_blocks a_threads opened os allocated ms st_size recs = Success d"
    and "int_of_long (fst (strtol a_threads)) = 0"
    and "st_size - 8 \<le> nat (fst (strtol a_mem) mod 2 ^ 64)" "length recs = (st_size - 8) div 16"
  shows "d = recs"
proof -
  define memsize where "memsize = nat (fst (strtol a_mem) mod 2 ^ 64)"
  define blocks where "blocks = int_of_long (fst (strtol a_blocks))"
  note run = assms(1) [unfolded sort_index_def Let_def assms(2), folded memsize_def blocks_def]
  have m: "0 < memsize" "st_size - 8 \<le> memsize" using run assms(3) by (auto simp: memsize_def split: if_splits)
  obtain runs d0 where p: "portions qs os 0 memsize (nat blocks) 8 0 (st_size - 8) recs = Some (runs, d0)"
    using run by (auto split: if_splits option.splits)
  have end_of: "portions qs os 0 memsize bc off start 0 rest = Some ([], [])" for bc off start rest
    by (subst portions.simps) simp
  have "length runs \<le> 1 \<and> d0 = recs"
  proof (cases "st_size - 8 = 0")
    case True
    with p assms(4) show ?thesis by (simp add: end_of)
  next
    case False
    define pb where "pb = (if memsize \<le> st_size - 8 then memsize else st_size - 8)"
    have pb: "pb = st_size - 8" using m by (simp add: pb_def)
    have rem: "\<not> (st_size - 8 = 0 \<or> memsize = 0)" using False m by simp
    note eq = p [unfolded portions.simps [of qs os 0 memsize "nat blocks" 8 0 "st_size - 8" recs]
        Let_def pb_def [symmetric] if_not_P [OF rem]]
    obtain a n bc where pp: "process_portion qs (os 8) 0 (nat blocks) 8 pb recs = Some (a, n, bc)"
      using eq by (auto split: option.splits)
    then have n: "n = length recs" "a = recs"
      using assms(4) by (auto simp: process_portion_def Let_def sort_phase_def merge_rounds_no_threads pb split: if_splits)
    with eq pp show ?thesis by (auto simp: pb end_of)
  qed
  with run p show ?thesis by (auto split: if_splits)
qed

definition portions_ok :: "(nat \<Rightarrow> portion_calls) \<Rightarrow> bool" where
  "portions_ok os \<longleftrightarrow> (\<forall>off. pc_open (os off) \<and> pc_mmap (os off) \<and> pc_malloc (os off) \<and> pc_create (os off)
     \<and> pc_merge_malloc (os off) \<and> pc_merge_create (os off) \<and> pc_msync (os off) \<and> pc_munmap (os off))"

lemma portions_total:
  assumes "0 < memsize" "16 dvd memsize" "16 dvd remaining" "0 \<le> threads" "8 \<le> off"
    and "(min memsize remaining div 16) mod block_count = 0" and os: "portions_ok os"
  shows "\<exists>r. portions qs os threads memsize block_count off start remaining rest = Some r"
  using assms(3,5,6)
proof (induction remaining arbitrary: block_count off start rest rule: less_induct)
  case (less remaining)
  show ?case
  proof (cases "remaining = 0")
    case True
    then show ?thesis by (subst portions.simps) simp
  next
    case False
    define pb where "pb = (if remaining \<ge> memsize then memsize else remaining)"
    have pb: "pb = min memsize remaining" "0 < pb" "pb mod 16 = 0" "pb \<le> remaining"
      using False assms(1,2) less.prems(1) by (auto simp: pb_def min_def mod_0_imp_dvd)
    obtain a where pp: "process_portion qs (os off) threads block_count off pb rest = Some (a, pb div 16, min 1 block_count)"
      using less.prems(2,3) pb assms(4) os by (auto simp: process_portion_def Let_def portions_ok_def)
    have c: "remaining - pb < remaining" "16 dvd remaining - pb" "8 \<le> off + pb"
      using pb False less.prems(1,2) by (auto simp: mod_0_imp_dvd)
    have d: "(min memsize (remaining - pb) div 16) mod min 1 block_count = 0"
    proof (cases "block_count = 0")
      case True
      then have "min memsize remaining div 16 = 0" using less.prems(3) by simp
      then have "pb < 16" unfolding pb(1) by (simp add: div_eq_0_iff)
      then show ?thesis using pb(2,3) by simp
    qed (simp add: min_def)
    from less.IH [OF c d, of "start + pb div 16" "drop (pb div 16) rest"]
    obtain r where "portions qs os threads memsize (min 1 block_count) (off + pb) (start + pb div 16)
        (remaining - pb) (drop (pb div 16) rest) = Some r" ..
    with pp pb False assms(1) show ?thesis
      by (subst portions.simps) (simp add: Let_def pb_def [symmetric] split: prod.splits)
  qed
qed

lemma external_merge_total: "merges_ok ms \<Longrightarrow> \<exists>d'. external_merge ms rs d = Some d'"
proof (induction "length rs" arbitrary: rs d rule: less_induct)
  case less
  show ?case
  proof (cases "length rs > 1")
    case True
    obtain rs' d' where m: "merge_pass ms rs d = Some (rs', d')" using merge_pass_total [OF less.prems] by fast
    then have "length rs' < length rs" using merge_pass_length True by fastforce
    from less.hyps [OF this less.prems, of d'] True m show ?thesis
      by (subst external_merge.simps) simp
  next
    case False
    then show ?thesis by (subst external_merge.simps) simp
  qed
qed

lemma sort_index_succeeds:
  assumes "fst (strtol a_mem) = int memsize" "memsize < 2 ^ 64" "0 < memsize" "pagesize dvd memsize" "16 dvd pagesize"
    and "int_of_long (fst (strtol a_blocks)) = 2 ^ k" "int_of_long (fst (strtol a_threads)) = int threads"
    and "4 * threads \<le> 2 ^ k"
    and "st_size = 8 + 16 * length recs" "min (memsize div 16) (length recs) mod 2 ^ k = 0"
    and "portions_ok os" "merges_ok ms"
  shows "\<exists>d. sort_index qs pagesize 5 a_mem a_blocks a_threads True os True ms st_size recs = Success d"
proof -
  have m: "int memsize mod 18446744073709551616 = int memsize"
    using assms(2) by simp
  have b: "and (2 ^ k :: int) (2 ^ k - 1) = 0"
    using take_bit_eq_mask [of k "2 ^ k :: int"] by (simp add: mask_eq_exp_minus_1 take_bit_eq_mod)
  have n: "nat (2 ^ k) = (2 :: nat) ^ k" by (simp add: nat_power_eq)
  have "int (4 * threads) \<le> int (2 ^ k)" using assms(8) of_nat_le_iff by blast
  then have t: "\<not> 2 ^ k < int threads * 4" by simp
  have "16 dvd memsize" using assms(4,5) dvd_trans by blast
  then have "min memsize (16 * length recs) div 16 = min (memsize div 16) (length recs)"
    by (auto simp: min_def)
  with portions_total [OF assms(3) \<open>16 dvd memsize\<close>, of "16 * length recs" "int threads" 8 "2 ^ k" os qs 0 recs] assms(10,11)
  obtain runs d where "portions qs os (int threads) memsize (2 ^ k) 8 0 (16 * length recs) recs = Some (runs, d)"
    by auto
  moreover obtain d' where "external_merge ms runs d = Some d'" using external_merge_total [OF assms(12)] by blast
  ultimately show ?thesis
    using assms(1,3,4,6,7,9) b t by (simp add: sort_index_def Let_def m n)
qed


subsection \<open>Witnesses\<close>

text \<open>
  Four records with the time marks 3.0, -1.0, 2.0 and 1.0, as \<open>main\<close> would sort them in four
  blocks with one thread.
\<close>

definition demo_index :: "index_record list" where
  "demo_index = [\<lparr>recno = 1, time_mark = 0x4008000000000000\<rparr>, \<lparr>recno = 2, time_mark = 0xBFF0000000000000\<rparr>,
     \<lparr>recno = 3, time_mark = 0x4000000000000000\<rparr>, \<lparr>recno = 4, time_mark = 0x3FF0000000000000\<rparr>]"

definition all_calls :: "nat \<Rightarrow> portion_calls" where
  "all_calls off = \<lparr>pc_open = True, pc_mmap = True, pc_malloc = True, pc_create = True,
     pc_merge_malloc = True, pc_merge_create = True, pc_msync = True, pc_munmap = True\<rparr>"

definition all_merges :: "nat \<Rightarrow> nat \<Rightarrow> merge_calls" where
  "all_merges start n = \<lparr>mc_open = True, mc_mmap = True, mc_msync = True\<rparr>"

lemma all_ok: "portions_ok all_calls" "merges_ok all_merges"
  by (simp_all add: portions_ok_def all_calls_def merges_ok_def all_merges_def)

lemma sort_key_ok: "qsort_ok (sort_key time_key)"
  by (simp add: qsort_ok_def in_order_def)

lemma demo_no_nan: "no_nan demo_index"
  by code_simp

lemma demo_sorted:
  "sort_index (sort_key time_key) 4096 5 ''4096'' ''4'' ''1'' True all_calls True all_merges 72 demo_index
    = Success [demo_index ! 1, demo_index ! 3, demo_index ! 2, demo_index ! 0]"
  by code_simp


theorem lab6_zero_threads_witness:
  "sort_index (sort_key time_key) 4096 5 ''4096'' ''4'' ''0'' True all_calls True all_merges 72 demo_index = Success demo_index
    \<and> \<not> in_order demo_index"
proof -
  have "\<exists>d. sort_index (sort_key time_key) 4096 5 ''4096'' ''4'' ''0'' True all_calls True all_merges 72 demo_index = Success d"
    by (rule exI, code_simp)
  then obtain d where d: "sort_index (sort_key time_key) 4096 5 ''4096'' ''4'' ''0'' True all_calls True all_merges 72 demo_index = Success d" ..
  have "int_of_long (fst (strtol ''0'')) = 0" "72 - 8 \<le> nat (fst (strtol ''4096'') mod 2 ^ 64)"
    "length demo_index = (72 - 8) div 16" by code_simp+
  from lab6_zero_threads [OF d this] d have "sort_index (sort_key time_key) 4096 5 ''4096'' ''4'' ''0'' True all_calls True all_merges 72 demo_index = Success demo_index"
    by simp
  moreover have "\<not> in_order demo_index" by code_simp
  ultimately show ?thesis ..
qed


theorem lab6_phases_deterministic_witness:
  "\<exists>s. steps (phase_step (thread_sort (sort_key time_key) 4 1)) (start_phase Before 2 demo_index) s \<and> joined s
     \<and> array (loops s) = demo_index"
proof -
  let ?th = "thread_sort (sort_key time_key) 4 1"
  let ?run = "\<lambda>is s. foldl (\<lambda>so i. case so of None \<Rightarrow> None | Some s \<Rightarrow>
    if i < length (stages s) then ?th i s else None) (Some s) is"
  have sound: "?run is s = Some t \<Longrightarrow> steps (phase_step ?th) s t" for "is" s t
  proof (induction "is" arbitrary: t rule: rev_induct)
    case Nil
    then show ?case by (simp add: steps_refl)
  next
    case (snoc i "is")
    then obtain u where u: "?run is s = Some u" "i < length (stages u)" "?th i u = Some t"
      by (auto split: option.splits if_splits)
    then have "phase_step ?th u t" by (intro phase_step.intros)
    with snoc.IH [OF u(1)] show ?case by (rule steps_snoc)
  qed
  have "case ?run [0, 1, 0, 1, 1, 0, 0, 1, 1, 0, 0, 1, 0, 1] (start_phase Before 2 demo_index) of None \<Rightarrow> False | Some s \<Rightarrow> joined s"
    by code_simp
  then obtain s where s: "?run [0, 1, 0, 1, 1, 0, 0, 1, 1, 0, 0, 1, 0, 1] (start_phase Before 2 demo_index) = Some s" "joined s"
    by (auto split: option.splits)
  have "length demo_index = 4 * 1" by code_simp
  moreover have "sort_phase (sort_key time_key) 2 4 1 demo_index = demo_index" by code_simp
  ultimately show ?thesis
    using lab6_phases_deterministic [OF sort_key_ok, of 2 demo_index 4 1 s] sound [OF s(1)] s(2) by auto
qed

theorem lab6_phases_terminate_witness:
  "\<exists>s'. phase_step (thread_sort (sort_key time_key) 4 1) (start_phase Before 2 demo_index) s'"
proof -
  have "length demo_index = 4 * 1" "\<not> joined (start_phase Before 2 demo_index)" by code_simp+
  moreover have "0 < (2 :: nat)" by simp
  ultimately show ?thesis
    using lab6_phases_terminate [OF sort_key_ok, of 2 demo_index 4 1 "start_phase Before 2 demo_index",
        THEN conjunct1] steps_refl [of "phase_step (thread_sort (sort_key time_key) 4 1)"] by blast
qed

end
