(* ===== verification/Index_File.thy ===== *)
theory Index_File
  imports Index_Records C_String
begin

section \<open>lab6: writing and viewing index files (lab6/src/generation.c, view.c)\<close>

text \<open>
  Here the file is its bytes: the little-endian header with the number of records, then 16
  bytes per record. The generator draws a time mark per record; the floating-point expression
  that turns a value of \<open>rand\<close> into a double is an argument (\<open>mark\<close>).
\<close>

fun to_le :: "nat \<Rightarrow> nat \<Rightarrow> nat list" where
  "to_le 0 n = []"
| "to_le (Suc k) n = n mod 256 # to_le k (n div 256)"

fun from_le :: "nat list \<Rightarrow> nat" where
  "from_le [] = 0"
| "from_le (b # bs) = b + 256 * from_le bs"

definition record_bytes :: "index_record \<Rightarrow> nat list" where
  "record_bytes r = to_le 8 (unat (recno r)) @ to_le 8 (unat (time_mark r))"

definition bytes_record :: "nat list \<Rightarrow> index_record" where
  "bytes_record bs = \<lparr>recno = of_nat (from_le (take 8 bs)), time_mark = of_nat (from_le (drop 8 bs))\<rparr>"

subsection \<open>The generator\<close>

fun gen_records :: "(nat \<Rightarrow> u64) \<Rightarrow> ('r \<Rightarrow> nat \<times> 'r) \<Rightarrow> nat \<Rightarrow> nat \<Rightarrow> 'r \<Rightarrow> index_record list" where
  "gen_records mark rand i 0 s = []"
| "gen_records mark rand i (Suc k) s =
     (let (r, s') = rand s
      in \<lparr>recno = of_nat (i + 1), time_mark = mark r\<rparr> # gen_records mark rand (Suc i) k s')"

text \<open>
  \<open>opened\<close>, \<open>header\<close>, \<open>allocated\<close> and \<open>written\<close>: the calls of \<open>fopen\<close>, \<open>fwrite\<close>, \<open>malloc\<close> and
  \<open>fwrite\<close> succeed.
  The argument is converted to an unsigned 64-bit number. From 2^60 records on the size passed
  to \<open>malloc\<close> wraps around, and the loop writes behind the memory it got.
\<close>

datatype generated = Gen_failed | Heap_overflow | Written "nat list"

definition generation ::
  "(nat \<Rightarrow> u64) \<Rightarrow> ('r \<Rightarrow> nat \<times> 'r) \<Rightarrow> int \<Rightarrow> string \<Rightarrow> bool \<Rightarrow> bool \<Rightarrow> bool \<Rightarrow> bool \<Rightarrow> 'r \<Rightarrow> generated" where
  "generation mark rand argc arg opened header allocated written s =
     (if argc \<noteq> 3 then Gen_failed
      else (let n = nat (fst (strtol arg) mod 2 ^ 64) in
        if n = 0 \<or> n mod 256 \<noteq> 0 then Gen_failed
        else if \<not> opened then Gen_failed
        else if \<not> header then Gen_failed
        else if \<not> allocated then Gen_failed
        else if n * 16 mod 2 ^ 64 < n * 16 then Heap_overflow
        else if \<not> written then Gen_failed
        else Written (to_le 8 n @ concat (map record_bytes (gen_records mark rand 0 n s)))))"

text \<open>The records printed, and the index of the record that could not be read, if any.\<close>

fun view_records :: "nat \<Rightarrow> nat \<Rightarrow> nat list \<Rightarrow> index_record list \<times> nat option" where
  "view_records i 0 bs = ([], None)"
| "view_records i (Suc k) bs =
     (if length bs < 16 then ([], Some i)
      else (let (rs, err) = view_records (Suc i) k (drop 16 bs) in (bytes_record (take 16 bs) # rs, err)))"

definition view :: "int \<Rightarrow> bool \<Rightarrow> nat list \<Rightarrow> exit_code + index_record list \<times> nat option" where
  "view argc opened bs =
     (if argc \<noteq> 2 then Inl EXIT_FAILURE
      else if \<not> opened then Inl EXIT_FAILURE
      else if length bs < 8 then Inl EXIT_FAILURE
      else Inr (view_records 0 (from_le (take 8 bs)) (drop 8 bs)))"

subsection \<open>Round trip\<close>

lemma length_to_le [simp]: "length (to_le k n) = k"
  by (induction k arbitrary: n) simp_all

lemma from_to_le: "n < 256 ^ k \<Longrightarrow> from_le (to_le k n) = n"
proof (induction k arbitrary: n)
  case 0
  then show ?case by simp
next
  case (Suc k)
  then have "n div 256 < 256 ^ k" by (simp add: less_mult_imp_div_less mult.commute)
  with Suc.IH show ?case by simp
qed

lemma record_roundtrip: "bytes_record (record_bytes r) = r"
proof -
  have "unat (w :: u64) < 256 ^ 8" for w using unsigned_less [of w, where ?'a = nat] by simp
  then show ?thesis by (simp add: bytes_record_def record_bytes_def from_to_le)
qed

lemma length_record_bytes [simp]: "length (record_bytes r) = 16"
  by (simp add: record_bytes_def)

lemma view_written: "view_records i (length rs) (concat (map record_bytes rs)) = (rs, None)"
  by (induction rs arbitrary: i) (simp_all add: record_roundtrip)

lemma gen_records_recno:
  "length (gen_records mark rand i k s) = k
    \<and> (\<forall>j < k. recno (gen_records mark rand i k s ! j) = of_nat (i + j + 1))"
proof (induction k arbitrary: i s)
  case 0
  then show ?case by simp
next
  case (Suc k)
  obtain r s' where r: "rand s = (r, s')" by fastforce
  show ?case
    using Suc.IH [of "Suc i" s'] by (auto simp: r nth_Cons split: nat.split)
qed

text \<open>
  Round trip. Viewing a generated file prints every record that was generated, numbered from
  1 without gaps, and no read error.
\<close>

theorem lab6_view_generated:
  assumes "generation mark rand 3 arg True True True True s = Written bs"
  shows "\<exists>rs n. view 2 True bs = Inr (rs, None) \<and> length rs = n \<and> int n = fst (strtol arg) mod 2 ^ 64
    \<and> (\<forall>j < n. recno (rs ! j) = of_nat (j + 1))"
proof -
  define n where "n = nat (fst (strtol arg) mod 2 ^ 64)"
  let ?rs = "gen_records mark rand 0 n s"
  have bs: "bs = to_le 8 n @ concat (map record_bytes ?rs)"
    using assms by (auto simp: generation_def n_def Let_def split: if_splits)
  have "int n = fst (strtol arg) mod 2 ^ 64" by (simp add: n_def)
  moreover from this have "n < 256 ^ 8" by (simp add: n_def nat_less_iff)
  then have "view 2 True bs = Inr (?rs, None)"
    using view_written [of 0 ?rs] gen_records_recno [of mark rand 0 n s]
    by (simp add: view_def bs from_to_le)
  ultimately show ?thesis using gen_records_recno [of mark rand 0 n s] by auto
qed

theorem lab6_view_generated_witness:
  "\<exists>bs rs. generation of_nat (\<lambda>s. (s, s + 7)) 3 ''256'' True True True True (1 :: nat) = Written bs
     \<and> view 2 True bs = Inr (rs, None) \<and> length rs = 256"
proof -
  have v: "fst (strtol ''256'') = 256" by code_simp
  then have "\<exists>bs. generation of_nat (\<lambda>s. (s, s + 7)) 3 ''256'' True True True True (1 :: nat) = Written bs"
    by (simp add: generation_def)
  then obtain bs where bs: "generation of_nat (\<lambda>s. (s, s + 7)) 3 ''256'' True True True True (1 :: nat) = Written bs" ..
  from lab6_view_generated [OF bs] bs v show ?thesis by auto
qed

end
