(* ===== verification/Index_Pipeline.thy ===== *)
theory Index_Pipeline
  imports Index_Sort Index_File
begin

section \<open>lab6: generating, sorting and viewing one file\<close>

text \<open>
  The three programs of lab6 work on the same file. \<open>Index_Sort\<close> models the sorter over the
  records of the file, \<open>Index_File\<close> the generator and the viewer over its bytes; here the
  sorter is put over the bytes too, and the three are run one after the other.
\<close>

text \<open>The whole records behind the header, as the mappings of the sorter show them.\<close>

definition file_records :: "nat list \<Rightarrow> index_record list" where
  "file_records bs = fst (view_records 0 ((length bs - 8) div 16) (drop 8 bs))"

text \<open>The file after a successful run: the header and what follows the records are untouched.\<close>

definition sort_file ::
  "(index_record list \<Rightarrow> index_record list) \<Rightarrow> nat \<Rightarrow> int \<Rightarrow> string \<Rightarrow> string \<Rightarrow> string \<Rightarrow> bool
    \<Rightarrow> (nat \<Rightarrow> portion_calls) \<Rightarrow> bool \<Rightarrow> (nat \<Rightarrow> nat \<Rightarrow> merge_calls) \<Rightarrow> nat list \<Rightarrow> nat list option" where
  "sort_file qs pagesize argc a_mem a_blocks a_threads opened os allocated ms bs =
     (case sort_index qs pagesize argc a_mem a_blocks a_threads opened os allocated ms (length bs) (file_records bs) of
        Success d \<Rightarrow> Some (take 8 bs @ concat (map record_bytes d) @ drop (8 + 16 * length d) bs)
      | _ \<Rightarrow> None)"

lemma length_concat_record_bytes [simp]: "length (concat (map record_bytes rs)) = 16 * length rs"
  by (induction rs) simp_all

lemma file_records_written:
  "file_records (to_le 8 n @ concat (map record_bytes rs)) = rs"
  using view_written [of 0 rs] by (simp add: file_records_def)

lemma gen_records_marks:
  "(\<And>r. \<not> is_nan (mark r)) \<Longrightarrow> no_nan (gen_records mark rand i k s)"
  by (induction k arbitrary: i s) (auto simp: no_nan_def split_beta Let_def)


text \<open>
  A file of 256 generated records whose marks alternate between 2.0 and 1.0, sorted in portions
  of one page by one thread.
\<close>

definition demo_mark :: "nat \<Rightarrow> u64" where
  "demo_mark r = (if even r then 0x4000000000000000 else 0x3FF0000000000000)"


end
