(* ===== verification/Editor.thy ===== *)
theory Editor
  imports C_String
begin

section \<open>lab7: concurrent editing of a file of records (lab7/src/editor.c)\<close>

text \<open>
  Several editor processes share one data file. Each keeps the record as it was read
  (\<open>orig_rec\<close>) and the user's edited copy (\<open>work_rec\<close>); \<open>do_put\<close> locks the record, compares
  the file with \<open>orig_rec\<close> and writes \<open>work_rec\<close>. A record is its bytes; the file is the list of
  its records. A read or write of a whole record is atomic.
\<close>

abbreviation (input) NAME_LEN :: nat where "NAME_LEN \<equiv> 80"
abbreviation (input) ADDR_LEN :: nat where "ADDR_LEN \<equiv> 80"

record record_t =
  name :: string
  address :: string
  semester :: u8

subsection \<open>Reading the user's edits\<close>

text \<open>\<open>strncpy\<close> into a buffer of \<open>n\<close> bytes fills the rest with NUL.\<close>

definition strncpy :: "nat \<Rightarrow> string \<Rightarrow> string" where
  "strncpy n src = take n (cstr src @ replicate n NUL)"

text \<open>
  \<open>scanf("%d")\<close>: the number, if there is one, and the unread text. Without a number the sign is
  consumed all the same.
\<close>

definition scan_d :: "string \<Rightarrow> int option \<times> string" where
  "scan_d inp =
     (let t = dropWhile c_isspace inp; (neg, u) = strtol_sign t in
      if u \<noteq> [] \<and> c_isdigit (hd u)
      then (let (v, rest) = strtol t in (Some (int_of_long v), rest))
      else (None, u))"

text \<open>\<open>while (getchar() != newline);\<close> never ends when the input has no newline: \<open>None\<close>.\<close>

fun skip_line :: "string \<Rightarrow> string option" where
  "skip_line [] = None"
| "skip_line (c # inp) = (if c = NL then Some inp else skip_line inp)"

text \<open>
  The loops of \<open>do_get\<close> that ask for the name, the address and the semester: \<open>None\<close> at the end
  of the input, otherwise the new value (\<open>None\<close> to keep the old one) and the unread text. The
  buffer has \<open>ADDR_LEN\<close> bytes for all three.
\<close>

function edit_text :: "nat \<Rightarrow> string \<Rightarrow> (string option \<times> string) option" where
  "edit_text len inp =
     (case fgets ADDR_LEN inp of
        None \<Rightarrow> None
      | Some (buf, rest) \<Rightarrow>
          if hd buf = NL then Some (None, rest)
          else (let s = cut_newline buf in
                if length s > 0 \<and> length s < len then Some (Some s, rest) else edit_text len rest))"
  by pat_completeness auto
termination
  by (relation "measure (\<lambda>(len, inp). length inp)") (auto dest!: fgets_shorter)

function edit_semester :: "string \<Rightarrow> (u8 option \<times> string) option" where
  "edit_semester inp =
     (case fgets ADDR_LEN inp of
        None \<Rightarrow> None
      | Some (buf, rest) \<Rightarrow>
          if hd buf = NL then Some (None, rest)
          else (let (s, endp) = strtol (cstr buf) in
                if (endp = [] \<or> hd endp = NL) \<and> 1 \<le> s \<and> s \<le> 12 then Some (Some (word_of_int s), rest)
                else edit_semester rest))"
  by pat_completeness auto
termination
  by (relation "measure length") (auto dest!: fgets_shorter)

declare edit_text.simps [simp del] edit_semester.simps [simp del]

subsection \<open>An editor process\<close>

text \<open>Where a process is: at its command prompt or inside \<open>do_put\<close>.\<close>

datatype epc = E_Cmd | E_Query | E_Lock | E_Compare | E_Write | E_Unlock | E_Retry | E_Abort | E_Exit

datatype message =
    Invalid_input | Read_error | No_pending | No_changes | Query_error | Lock_error | Reread_error
  | Conflict | Write_error | Updated int | Exiting | Unknown
  | Listing "(nat \<times> string \<times> u8 \<times> string) list" | Current_record int string string u8
  | Waiting int

record editor =
  record_count :: nat
  orig_rec :: record_t
  work_rec :: record_t
  last_rec_no :: int
  has_work :: bool
  e_pc :: epc
  e_out :: "message list"

definition tell :: "message \<Rightarrow> editor \<Rightarrow> editor" where
  "tell m e = e\<lparr>e_out := e_out e @ [m]\<rparr>"

definition go :: "epc \<Rightarrow> editor \<Rightarrow> editor" where
  "go c e = e\<lparr>e_pc := c\<rparr>"

definition read_rec :: "record_t list \<Rightarrow> int \<Rightarrow> record_t option" where
  "read_rec file n = (if 0 \<le> n \<and> n < int (length file) then Some (file ! nat n) else None)"

text \<open>The three questions, in their order; the end of the input ends the function.\<close>

definition edit_fields :: "editor \<Rightarrow> string \<Rightarrow> editor \<times> string" where
  "edit_fields e inp =
     (case edit_text NAME_LEN inp of
        None \<Rightarrow> (e, [])
      | Some (new_name, inp) \<Rightarrow>
          let e = (case new_name of None \<Rightarrow> e
                   | Some s \<Rightarrow> e\<lparr>work_rec := (work_rec e)\<lparr>name := strncpy NAME_LEN s\<rparr>\<rparr>) in
          (case edit_text ADDR_LEN inp of
             None \<Rightarrow> (e, [])
           | Some (new_address, inp) \<Rightarrow>
               let e = (case new_address of None \<Rightarrow> e
                        | Some s \<Rightarrow> e\<lparr>work_rec := (work_rec e)\<lparr>address := strncpy ADDR_LEN s\<rparr>\<rparr>) in
               (case edit_semester inp of
                  None \<Rightarrow> (e, [])
                | Some (new_semester, inp) \<Rightarrow>
                    ((case new_semester of None \<Rightarrow> e
                      | Some s \<Rightarrow> e\<lparr>work_rec := (work_rec e)\<lparr>semester := s\<rparr>\<rparr>), inp))))"

text \<open>The record that was read becomes the current one, and is printed.\<close>

definition fetched :: "int \<Rightarrow> record_t \<Rightarrow> editor \<Rightarrow> editor" where
  "fetched rn r e =
     (let e = e\<lparr>orig_rec := r, work_rec := r, last_rec_no := rn, has_work := True\<rparr>
      in tell (Current_record rn (cstr (name r)) (cstr (address r)) (semester r)) e)"

lemma fetched_sel [simp]:
  "e_pc (fetched n r e) = e_pc e" "orig_rec (fetched n r e) = r" "work_rec (fetched n r e) = r"
  "has_work (fetched n r e)" "last_rec_no (fetched n r e) = n"
  by (simp_all add: fetched_def tell_def)

text \<open>\<open>None\<close>: the function never returns (the rest of the line is missing).\<close>

definition do_get :: "record_t list \<Rightarrow> editor \<Rightarrow> string \<Rightarrow> (editor \<times> string) option" where
  "do_get file e inp =
     (let (rn, inp) = scan_d inp in
      if rn = None \<or> the rn < 0 \<or> the rn \<ge> int (record_count e)
      then map_option (\<lambda>inp. (tell Invalid_input e, inp)) (skip_line inp)
      else
        (case read_rec file (the rn) of
           None \<Rightarrow> Some (tell Read_error e, inp)
         | Some r \<Rightarrow>
             map_option (edit_fields (fetched (the rn) r e)) (skip_line inp)))"

text \<open>What \<open>do_list\<close> prints: index, name, semester and address of each record it can read.\<close>

definition do_list :: "record_t list \<Rightarrow> editor \<Rightarrow> (nat \<times> string \<times> u8 \<times> string) list" where
  "do_list file e =
     map (\<lambda>i. (i, take 30 (cstr (name (file ! i))), semester (file ! i), take 30 (cstr (address (file ! i)))))
       [0..<min (record_count e) (length file)]"

subsection \<open>The system of editors\<close>

text \<open>\<open>holder n\<close> is the editor whose open file description holds the write lock on record \<open>n\<close>.\<close>

record sys =
  data_file :: "record_t list"
  holder :: "int \<Rightarrow> nat option"
  editors :: "editor list"

definition set_editor :: "nat \<Rightarrow> editor \<Rightarrow> sys \<Rightarrow> sys" where
  "set_editor i e s = s\<lparr>editors := (editors s)[i := e]\<rparr>"

text \<open>\<open>lock_rec\<close> with \<open>F_WRLCK\<close> and waiting: \<open>None\<close> blocks. \<open>unlock_rec\<close>.\<close>

definition lock_rec :: "nat \<Rightarrow> int \<Rightarrow> sys \<Rightarrow> sys option" where
  "lock_rec i n s =
     (if holder s n = None \<or> holder s n = Some i then Some (s\<lparr>holder := (holder s)(n := Some i)\<rparr>) else None)"

definition unlock_rec :: "nat \<Rightarrow> int \<Rightarrow> sys \<Rightarrow> sys" where
  "unlock_rec i n s = (if holder s n = Some i then s\<lparr>holder := (holder s)(n := None)\<rparr> else s)"

text \<open>The beginning of \<open>do_put\<close>.\<close>

definition do_put :: "editor \<Rightarrow> editor" where
  "do_put e =
     (if \<not> has_work e then tell No_pending e
      else if orig_rec e = work_rec e then (tell No_changes e)\<lparr>has_work := False\<rparr>
      else go E_Query e)"

text \<open>
  The loop of \<open>do_put\<close>, one location per system call. \<open>ok\<close> says that the call succeeds; a
  failing \<open>write\<close> is assumed to write nothing.
\<close>

definition put_step :: "bool \<Rightarrow> nat \<Rightarrow> sys \<Rightarrow> sys option" where
  "put_step ok i s =
     (let e = editors s ! i; n = last_rec_no e in
      case e_pc e of
        E_Query \<Rightarrow>
          Some (set_editor i
            (if \<not> ok then go E_Cmd (tell Query_error e)
             else go E_Lock (if holder s n = None then e else tell (Waiting n) e)) s)
      | E_Lock \<Rightarrow>
          if \<not> ok then Some (set_editor i (go E_Cmd (tell Lock_error e)) s)
          else map_option (set_editor i (go E_Compare e)) (lock_rec i n s)
      | E_Compare \<Rightarrow>
          Some (case (if ok then read_rec (data_file s) n else None) of
             None \<Rightarrow> set_editor i (go E_Abort (tell Reread_error e)) s
           | Some current \<Rightarrow>
               if current \<noteq> orig_rec e
               then set_editor i (go E_Retry (tell Conflict e)\<lparr>orig_rec := current, work_rec := current\<rparr>) s
               else set_editor i (go E_Write e) s)
      | E_Write \<Rightarrow>
          Some (if ok then set_editor i (go E_Unlock e) (s\<lparr>data_file := (data_file s)[nat n := work_rec e]\<rparr>)
                else set_editor i (go E_Abort (tell Write_error e)) s)
      | E_Unlock \<Rightarrow>
          Some (set_editor i (go E_Cmd (tell (Updated n) e)\<lparr>has_work := False\<rparr>) (unlock_rec i n s))
      | E_Retry \<Rightarrow> Some (set_editor i (go E_Query e) (unlock_rec i n s))
      | E_Abort \<Rightarrow> Some (set_editor i (go E_Cmd e) (unlock_rec i n s))
      | _ \<Rightarrow> None)"

text \<open>
  \<open>scanf(" %c")\<close> and the skipping of the rest of the line in the loop of \<open>main\<close>: \<open>Some None\<close> leaves the
  loop at the end of the input, \<open>None\<close> waits for a newline that never comes.
\<close>

definition next_command :: "string \<Rightarrow> (char \<times> string) option option" where
  "next_command inp =
     (case dropWhile c_isspace inp of
        [] \<Rightarrow> Some None
      | c # rest \<Rightarrow> map_option (\<lambda>r. Some (c, r)) (skip_line rest))"

text \<open>One command of the loop of \<open>main\<close>; \<open>inp\<close> is the text typed from then on.\<close>

definition command :: "char \<Rightarrow> string \<Rightarrow> record_t list \<Rightarrow> editor \<Rightarrow> (editor \<times> string) option" where
  "command c inp f e =
     (if c = CHR ''L'' \<or> c = CHR ''l'' then Some (tell (Listing (do_list f e)) e, inp)
      else if c = CHR ''G'' \<or> c = CHR ''g'' then do_get f e inp
      else if c = CHR ''P'' \<or> c = CHR ''p'' then Some (do_put e, inp)
      else if c = CHR ''E'' \<or> c = CHR ''e'' then Some (go E_Exit (tell Exiting e), inp)
      else Some (tell Unknown e, inp))"

text \<open>
  The beginning of \<open>main\<close>: the file must hold whole records. \<open>size\<close> is what \<open>lseek\<close> returned,
  and an uninitialised record is zero (a global variable).
\<close>

definition zero_record :: record_t where
  "zero_record = \<lparr>name = replicate NAME_LEN NUL, address = replicate ADDR_LEN NUL, semester = 0\<rparr>"

definition open_editor :: "int \<Rightarrow> int \<Rightarrow> int \<Rightarrow> exit_code + editor" where
  "open_editor argc fd sz =
     (if argc \<noteq> 2 then Inl EXIT_FAILURE
      else if fd < 0 then Inl EXIT_FAILURE
      else if sz < 0 \<or> sz mod 161 \<noteq> 0 then Inl EXIT_FAILURE
      else Inr \<lparr>record_count = nat (sz div 161), orig_rec = zero_record, work_rec = zero_record,
                last_rec_no = -1, has_work = False, e_pc = E_Cmd, e_out = []\<rparr>)"

text \<open>
  A step of the system: an editor process starts, reads and executes a command, ends with its
  input, or goes on in \<open>do_put\<close>. The user may type anything at every prompt.
\<close>

inductive sys_step :: "sys \<Rightarrow> sys \<Rightarrow> bool" where
  start: "open_editor 2 fd (161 * int (length (data_file s))) = Inr e \<Longrightarrow>
     sys_step s (s\<lparr>editors := editors s @ [e]\<rparr>)"
| cmd: "i < length (editors s) \<Longrightarrow> e_pc (editors s ! i) = E_Cmd \<Longrightarrow>
     command c inp (data_file s) (editors s ! i) = Some (e, inp') \<Longrightarrow>
     next_command typed = Some (Some (c, inp)) \<Longrightarrow>
     sys_step s (set_editor i e s)"
| eof: "i < length (editors s) \<Longrightarrow> e_pc (editors s ! i) = E_Cmd \<Longrightarrow>
     next_command typed = Some None \<Longrightarrow>
     sys_step s (set_editor i (go E_Exit (editors s ! i)) s)"
| put: "i < length (editors s) \<Longrightarrow> put_step ok i s = Some s' \<Longrightarrow> sys_step s s'"

definition no_editors :: "sys \<Rightarrow> bool" where
  "no_editors s \<longleftrightarrow> editors s = [] \<and> holder s = (\<lambda>_. None)"

subsection \<open>The invariant: a lock is held exactly between locking and unlocking\<close>

definition locked :: "editor \<Rightarrow> bool" where
  "locked e \<longleftrightarrow> e_pc e \<in> {E_Compare, E_Write, E_Unlock, E_Retry, E_Abort}"

definition lock_inv :: "sys \<Rightarrow> bool" where
  "lock_inv s \<longleftrightarrow>
     (\<forall>n i. holder s n = Some i \<longleftrightarrow>
        i < length (editors s) \<and> locked (editors s ! i) \<and> last_rec_no (editors s ! i) = n)"

definition write_inv :: "sys \<Rightarrow> bool" where
  "write_inv s \<longleftrightarrow> (\<forall>i < length (editors s). e_pc (editors s ! i) = E_Write \<longrightarrow>
     read_rec (data_file s) (last_rec_no (editors s ! i)) = Some (orig_rec (editors s ! i)))"

lemma lock_invD:
  assumes "lock_inv s"
  shows "i < length (editors s) \<Longrightarrow> locked (editors s ! i) \<Longrightarrow> holder s (last_rec_no (editors s ! i)) = Some i"
    and "holder s n = Some i \<Longrightarrow> locked (editors s ! i)"
    and "holder s n = Some i \<Longrightarrow> last_rec_no (editors s ! i) = n"
    and "holder s n = Some i \<Longrightarrow> i < length (editors s)"
  using assms unfolding lock_inv_def by blast+

lemma edit_fields_frame [simp]:
  "e_pc (fst (edit_fields e inp)) = e_pc e" "last_rec_no (fst (edit_fields e inp)) = last_rec_no e"
  "has_work (fst (edit_fields e inp)) = has_work e" "orig_rec (fst (edit_fields e inp)) = orig_rec e"
  by (auto simp: edit_fields_def Let_def split: option.splits)

lemma do_get_pc:
  assumes "do_get f e inp = Some (e', inp')"
  shows "e_pc e' = e_pc e"
proof (cases "fst (scan_d inp) = None \<or> the (fst (scan_d inp)) < 0 \<or> the (fst (scan_d inp)) \<ge> int (record_count e)")
  case True
  with assms show ?thesis by (auto simp: do_get_def split_beta Let_def tell_def)
next
  case False
  show ?thesis
  proof (cases "read_rec f (the (fst (scan_d inp)))")
    case None
    with False assms show ?thesis by (auto simp: do_get_def split_beta Let_def tell_def)
  next
    case (Some r)
    with False assms obtain rest where
      "edit_fields (fetched (the (fst (scan_d inp))) r e) rest
        = (e', inp')"
      by (auto simp: do_get_def split_beta Let_def)
    from arg_cong [OF this, of "\<lambda>x. e_pc (fst x)"] show ?thesis by simp
  qed
qed

lemma do_put_pc: "e_pc e = E_Cmd \<Longrightarrow> e_pc (do_put e) \<in> {E_Cmd, E_Query}"
  by (simp add: do_put_def go_def tell_def)

lemma command_pc:
  assumes "command c inp f e = Some (e', inp')" "e_pc e = E_Cmd"
  shows "e_pc e' \<in> {E_Cmd, E_Query, E_Exit}"
proof -
  from assms(1) consider "e' = tell (Listing (do_list f e)) e" | "do_get f e inp = Some (e', inp')" | "e' = do_put e"
    | "e' = go E_Exit (tell Exiting e)" | "e' = tell Unknown e"
    unfolding command_def by (auto simp only: option.inject prod.inject split: if_split_asm)
  then show ?thesis
    using assms(2) do_put_pc [OF assms(2)] do_get_pc [of f e inp e' inp']
    by cases (auto simp: go_def tell_def)
qed

text \<open>A step that leaves the locks alone and keeps an editor on its side of the lock.\<close>

lemma lock_inv_set:
  assumes inv: "lock_inv s" and i: "i < length (editors s)"
    and e: "locked e \<longleftrightarrow> locked (editors s ! i)"
      "locked e \<Longrightarrow> last_rec_no e = last_rec_no (editors s ! i)"
  shows "lock_inv (set_editor i e (s\<lparr>data_file := f\<rparr>))"
  unfolding lock_inv_def
proof (intro allI)
  fix n j
  show "(holder (set_editor i e (s\<lparr>data_file := f\<rparr>)) n = Some j)
    = (j < length (editors (set_editor i e (s\<lparr>data_file := f\<rparr>)))
       \<and> locked (editors (set_editor i e (s\<lparr>data_file := f\<rparr>)) ! j)
       \<and> last_rec_no (editors (set_editor i e (s\<lparr>data_file := f\<rparr>)) ! j) = n)"
    using inv [unfolded lock_inv_def, rule_format, of n j] i e
    by (cases "j = i") (auto simp: set_editor_def)
qed

lemma lock_inv_lock:
  assumes inv: "lock_inv s" and i: "i < length (editors s)" and pc: "e_pc (editors s ! i) = E_Lock"
    and lock: "lock_rec i (last_rec_no (editors s ! i)) s = Some s'"
  shows "lock_inv (set_editor i (go E_Compare (editors s ! i)) s')"
proof -
  have "holder s (last_rec_no (editors s ! i)) \<noteq> Some i"
    using lock_invD(2) [OF inv, of _ i] pc by (auto simp: locked_def)
  then have free: "holder s (last_rec_no (editors s ! i)) = None"
    using lock by (auto simp: lock_rec_def split: if_splits)
  have s': "s' = s\<lparr>holder := (holder s)(last_rec_no (editors s ! i) := Some i)\<rparr>"
    using lock by (auto simp: lock_rec_def split: if_splits)
  let ?e = "go E_Compare (editors s ! i)"
  have l: "\<not> locked (editors s ! i)" "locked ?e" "last_rec_no ?e = last_rec_no (editors s ! i)"
    using pc by (simp_all add: locked_def go_def)
  show ?thesis
    unfolding lock_inv_def s'
  proof (intro allI)
    fix n j
    let ?s = "set_editor i ?e (s\<lparr>holder := (holder s)(last_rec_no (editors s ! i) \<mapsto> i)\<rparr>)"
    show "(holder ?s n = Some j)
      = (j < length (editors ?s) \<and> locked (editors ?s ! j) \<and> last_rec_no (editors ?s ! j) = n)"
      using inv [unfolded lock_inv_def, rule_format, of n j] i l free
      by (cases "j = i"; cases "n = last_rec_no (editors s ! i)") (auto simp: set_editor_def)
  qed
qed

lemma lock_inv_unlock:
  assumes inv: "lock_inv s" and i: "i < length (editors s)" and l: "locked (editors s ! i)"
    and e: "\<not> locked e"
  shows "lock_inv (set_editor i e (unlock_rec i (last_rec_no (editors s ! i)) s))"
proof -
  have h: "holder s (last_rec_no (editors s ! i)) = Some i" by (rule lock_invD(1) [OF inv i l])
  then have u: "unlock_rec i (last_rec_no (editors s ! i)) s
      = s\<lparr>holder := (holder s)(last_rec_no (editors s ! i) := None)\<rparr>"
    by (simp add: unlock_rec_def)
  have other: "holder s n \<noteq> Some i" if "n \<noteq> last_rec_no (editors s ! i)" for n
    using that lock_invD(3) [OF inv] by blast
  have same: "last_rec_no (editors s ! j) \<noteq> last_rec_no (editors s ! i)"
    if "j < length (editors s)" "locked (editors s ! j)" "j \<noteq> i" for j
    using lock_invD(1) [OF inv that(1,2)] h that(3) by auto
  show ?thesis
    unfolding lock_inv_def u
  proof (intro allI)
    fix n j
    show "(holder (set_editor i e (s\<lparr>holder := (holder s)(last_rec_no (editors s ! i) := None)\<rparr>)) n = Some j)
      = (j < length (editors (set_editor i e (s\<lparr>holder := (holder s)(last_rec_no (editors s ! i) := None)\<rparr>)))
         \<and> locked (editors (set_editor i e (s\<lparr>holder := (holder s)(last_rec_no (editors s ! i) := None)\<rparr>)) ! j)
         \<and> last_rec_no (editors (set_editor i e (s\<lparr>holder := (holder s)(last_rec_no (editors s ! i) := None)\<rparr>)) ! j) = n)"
      using inv [unfolded lock_inv_def, rule_format, of n j] i e other [of n] same [of j]
      by (cases "j = i"; cases "n = last_rec_no (editors s ! i)") (auto simp: set_editor_def)
  qed
qed

lemma write_inv_set:
  assumes inv: "write_inv s" and i: "i < length (editors s)"
    and e: "e_pc e = E_Write \<Longrightarrow> read_rec (data_file s) (last_rec_no e) = Some (orig_rec e)"
    and same: "editors s' = editors s" "data_file s' = data_file s"
  shows "write_inv (set_editor i e s')"
  using assms by (auto simp: write_inv_def set_editor_def nth_list_update)

lemma read_rec_other: "0 \<le> m \<Longrightarrow> n \<noteq> m \<Longrightarrow> read_rec (f[nat m := r]) n = read_rec f n"
  by (auto simp: read_rec_def nth_list_update)

lemma write_inv_write:
  assumes inv: "write_inv s" "lock_inv s" and i: "i < length (editors s)"
    and pc: "e_pc (editors s ! i) = E_Write"
  shows "write_inv (set_editor i (go E_Unlock (editors s ! i))
    (s\<lparr>data_file := (data_file s)[nat (last_rec_no (editors s ! i)) := work_rec (editors s ! i)]\<rparr>))"
  unfolding write_inv_def
proof (intro allI impI)
  let ?n = "last_rec_no (editors s ! i)"
  let ?s = "set_editor i (go E_Unlock (editors s ! i)) (s\<lparr>data_file := (data_file s)[nat ?n := work_rec (editors s ! i)]\<rparr>)"
  fix j
  assume j: "j < length (editors ?s)" "e_pc (editors ?s ! j) = E_Write"
  then have "j \<noteq> i" using i by (auto simp: set_editor_def go_def)
  with j have j': "j < length (editors s)" "e_pc (editors s ! j) = E_Write" "editors ?s ! j = editors s ! j"
    by (simp_all add: set_editor_def)
  have "read_rec (data_file s) ?n = Some (orig_rec (editors s ! i))"
    using inv(1) i pc by (simp add: write_inv_def)
  then have "0 \<le> ?n" by (simp add: read_rec_def split: if_splits)
  moreover have "last_rec_no (editors s ! j) \<noteq> ?n"
    using lock_invD(1) [OF inv(2), of j] lock_invD(1) [OF inv(2), of i] i j' pc \<open>j \<noteq> i\<close>
    by (auto simp: locked_def)
  ultimately show "read_rec (data_file ?s) (last_rec_no (editors ?s ! j)) = Some (orig_rec (editors ?s ! j))"
    using inv(1) j' by (simp add: write_inv_def set_editor_def read_rec_other)
qed

lemma lock_inv_same:
  assumes "lock_inv s" "i < length (editors s)" "locked e \<longleftrightarrow> locked (editors s ! i)"
    "locked e \<Longrightarrow> last_rec_no e = last_rec_no (editors s ! i)"
  shows "lock_inv (set_editor i e s)"
  using lock_inv_set [OF assms, of "data_file s"] by simp

lemma unlock_frame [simp]:
  "editors (unlock_rec i n s) = editors s" "data_file (unlock_rec i n s) = data_file s"
  by (simp_all add: unlock_rec_def)

lemma go_sel [simp]:
  "e_pc (go c e) = c" "last_rec_no (go c e) = last_rec_no e" "orig_rec (go c e) = orig_rec e"
  "work_rec (go c e) = work_rec e" "e_pc (tell m e) = e_pc e" "last_rec_no (tell m e) = last_rec_no e"
  "orig_rec (tell m e) = orig_rec e" "work_rec (tell m e) = work_rec e"
  by (simp_all add: go_def tell_def)

lemma put_step_inv:
  assumes inv: "lock_inv s" "write_inv s" and i: "i < length (editors s)"
    and st: "put_step ok i s = Some s'"
  shows "lock_inv s' \<and> write_inv s'"
proof -
  let ?e = "editors s ! i" and ?n = "last_rec_no (editors s ! i)"
  note step = st [unfolded put_step_def Let_def]
  note lset = lock_inv_same [OF inv(1) i] and wset = write_inv_set [OF inv(2) i, of _ s]
  have unl: "lock_inv (set_editor i e (unlock_rec i ?n s)) \<and> write_inv (set_editor i e (unlock_rec i ?n s))"
    if "locked ?e" "\<not> locked e" for e
    using lock_inv_unlock [OF inv(1) i that] write_inv_set [OF inv(2) i, of e "unlock_rec i ?n s"] that
    by (auto simp: locked_def)
  show ?thesis
  proof (cases "e_pc ?e")
    case E_Query
    with step show ?thesis by (cases ok) (auto intro!: lset wset simp: locked_def)
  next
    case E_Lock
    show ?thesis
    proof (cases ok)
      case True
      with E_Lock step obtain s1 where s1: "lock_rec i ?n s = Some s1" "s' = set_editor i (go E_Compare ?e) s1"
        by auto
      then have "editors s1 = editors s" "data_file s1 = data_file s"
        by (auto simp: lock_rec_def split: if_splits)
      with lock_inv_lock [OF inv(1) i E_Lock s1(1)] write_inv_set [OF inv(2) i, of "go E_Compare ?e" s1] s1(2)
      show ?thesis by simp
    next
      case False
      with E_Lock step show ?thesis by (auto intro!: lset wset simp: locked_def)
    qed
  next
    case E_Compare
    show ?thesis
    proof (cases "if ok then read_rec (data_file s) ?n else None")
      case None
      with E_Compare step have "s' = set_editor i (go E_Abort (tell Reread_error ?e)) s" by simp
      with E_Compare show ?thesis by (auto intro!: lset wset simp: locked_def)
    next
      case (Some r)
      with E_Compare step show ?thesis
        by (auto intro!: lset wset simp: locked_def split: if_splits)
    qed
  next
    case E_Write
    show ?thesis
    proof (cases ok)
      case True
      with E_Write step have s': "s' = set_editor i (go E_Unlock ?e) (s\<lparr>data_file := (data_file s)[nat ?n := work_rec ?e]\<rparr>)"
        by simp
      have "lock_inv s'" unfolding s' by (rule lock_inv_set [OF inv(1) i]) (simp_all add: locked_def E_Write)
      with write_inv_write [OF inv(2,1) i E_Write] show ?thesis by (simp add: s')
    next
      case False
      with E_Write step show ?thesis by (auto intro!: lset wset simp: locked_def)
    qed
  next
    case E_Unlock
    with step have "s' = set_editor i (go E_Cmd (tell (Updated ?n) ?e)\<lparr>has_work := False\<rparr>) (unlock_rec i ?n s)" by simp
    with E_Unlock unl show ?thesis by (simp add: locked_def)
  next
    case E_Retry
    with step have "s' = set_editor i (go E_Query ?e) (unlock_rec i ?n s)" by simp
    with E_Retry unl show ?thesis by (simp add: locked_def)
  next
    case E_Abort
    with step have "s' = set_editor i (go E_Cmd ?e) (unlock_rec i ?n s)" by simp
    with E_Abort unl show ?thesis by (simp add: locked_def)
  qed (use step in simp_all)
qed

lemma editors_step_inv:
  assumes inv: "lock_inv s \<and> write_inv s" and step: "sys_step s s'"
  shows "lock_inv s' \<and> write_inv s'"
  using step
proof cases
  case (start fd e)
  then have e: "e_pc e = E_Cmd" by (auto simp: open_editor_def split: if_splits)
  have "lock_inv s'"
    unfolding lock_inv_def
  proof (intro allI)
    fix n j
    show "(holder s' n = Some j) = (j < length (editors s') \<and> locked (editors s' ! j) \<and> last_rec_no (editors s' ! j) = n)"
      using inv [unfolded lock_inv_def, THEN conjunct1, rule_format, of n j] e
      by (cases "j = length (editors s)") (auto simp: start(1) locked_def nth_append)
  qed
  moreover have "write_inv s'"
    using inv e by (auto simp: write_inv_def start(1) nth_append less_Suc_eq)
  ultimately show ?thesis ..
next
  case (cmd i c inp e inp' typed)
  from command_pc [OF cmd(4,3)] have pc: "e_pc e \<in> {E_Cmd, E_Query, E_Exit}" .
  have "lock_inv s'" unfolding cmd(1)
    using inv cmd(2,3) pc by (intro lock_inv_same) (auto simp: locked_def)
  moreover have "write_inv s'" unfolding cmd(1)
    using inv cmd(2) pc by (intro write_inv_set) auto
  ultimately show ?thesis ..
next
  case (eof i typed)
  have "lock_inv s'" unfolding eof(1)
    using inv eof(2,3) by (intro lock_inv_same) (auto simp: locked_def)
  moreover have "write_inv s'" unfolding eof(1)
    using inv eof(2) by (intro write_inv_set) auto
  ultimately show ?thesis ..
next
  case (put i ok)
  with put_step_inv inv show ?thesis by blast
qed

interpretation editing: invariant_system no_editors sys_step "\<lambda>s. lock_inv s \<and> write_inv s"
proof
  show "no_editors s \<Longrightarrow> lock_inv s \<and> write_inv s" for s
    by (simp add: no_editors_def lock_inv_def write_inv_def)
qed (rule editors_step_inv)

lemmas reachable_editors = editing.inv_reachable

subsection \<open>Theorems\<close>

lemma set_editor_file [simp]: "data_file (set_editor i e s) = data_file s"
  by (simp add: set_editor_def)

lemma lock_rec_file: "lock_rec i n s = Some s' \<Longrightarrow> data_file s' = data_file s"
  by (auto simp: lock_rec_def split: if_splits)

lemma put_step_file:
  assumes "put_step ok i s = Some s'" "data_file s' \<noteq> data_file s"
  shows "e_pc (editors s ! i) = E_Write
    \<and> data_file s' = (data_file s)[nat (last_rec_no (editors s ! i)) := work_rec (editors s ! i)]"
proof -
  let ?e = "editors s ! i"
  note st = assms(1) [unfolded put_step_def Let_def]
  show ?thesis
  proof (cases "e_pc ?e")
    case E_Lock
    with st assms(2) show ?thesis by (cases ok) (auto dest: lock_rec_file)
  next
    case E_Compare
    have "data_file s' = data_file s"
    proof (cases "if ok then read_rec (data_file s) (last_rec_no ?e) else None")
      case None
      with st E_Compare have "s' = set_editor i (go E_Abort (tell Reread_error ?e)) s" by simp
      then show ?thesis by simp
    next
      case (Some r)
      with st E_Compare show ?thesis by (auto split: if_splits)
    qed
    with assms(2) show ?thesis by simp
  next
    case E_Write
    with st assms(2) show ?thesis by (cases ok) auto
  qed (use st assms(2) in auto)
qed

text \<open>
  C5. No lost update. In every interleaving of any number of editors, a step that changes the
  file is the write of one editor, which holds the lock on its record and replaces exactly the
  version it has in \<open>orig_rec\<close> by its edited copy; no other record changes.
\<close>

theorem lab7_no_lost_update:
  assumes "no_editors s0" "steps sys_step s0 s" "sys_step s s'" "data_file s' \<noteq> data_file s"
  shows "\<exists>i n. i < length (editors s) \<and> last_rec_no (editors s ! i) = int n \<and> n < length (data_file s)
    \<and> holder s (int n) = Some i \<and> data_file s ! n = orig_rec (editors s ! i)
    \<and> data_file s' = (data_file s)[n := work_rec (editors s ! i)]"
  using assms(3)
proof cases
  case (start fd e)
  with assms(4) show ?thesis by simp
next
  case (cmd i c inp e inp' typed)
  with assms(4) show ?thesis by (simp add: set_editor_def)
next
  case (eof i typed)
  with assms(4) show ?thesis by (simp add: set_editor_def)
next
  case (put i ok)
  note inv = reachable_editors [OF assms(1,2)]
  note w = put_step_file [OF put(2) assms(4)]
  have "holder s (last_rec_no (editors s ! i)) = Some i"
    using lock_invD(1) [of s i] inv put(1) w by (simp add: locked_def)
  moreover have "read_rec (data_file s) (last_rec_no (editors s ! i)) = Some (orig_rec (editors s ! i))"
    using inv put(1) w by (simp add: write_inv_def)
  moreover from this have "0 \<le> last_rec_no (editors s ! i)"
    "last_rec_no (editors s ! i) < int (length (data_file s))"
    "data_file s ! nat (last_rec_no (editors s ! i)) = orig_rec (editors s ! i)"
    by (simp_all add: read_rec_def split: if_splits)
  then obtain n where n: "last_rec_no (editors s ! i) = int n" "n < length (data_file s)"
    "data_file s ! n = orig_rec (editors s ! i)"
    by (metis nat_0_le nat_less_iff)
  ultimately have "holder s (int n) = Some i" "data_file s' = (data_file s)[n := work_rec (editors s ! i)]"
    using w by simp_all
  with n put(1) show ?thesis by blast
qed

text \<open>
  Two editors are never between locking and unlocking the same record at once.
\<close>

theorem lab7_record_exclusion:
  assumes "no_editors s0" "steps sys_step s0 s" "i < length (editors s)" "j < length (editors s)"
    and "locked (editors s ! i)" "locked (editors s ! j)"
    and "last_rec_no (editors s ! i) = last_rec_no (editors s ! j)"
  shows "i = j"
proof -
  have inv: "lock_inv s" using reachable_editors [OF assms(1,2)] by simp
  have "Some i = Some j"
    unfolding lock_invD(1) [OF inv assms(3,5), symmetric] lock_invD(1) [OF inv assms(4,6), symmetric] assms(7) ..
  then show ?thesis by simp
qed


subsection \<open>\<open>do_put\<close> without interference\<close>

fun put_steps :: "nat \<Rightarrow> nat \<Rightarrow> sys \<Rightarrow> sys option" where
  "put_steps 0 i s = Some s"
| "put_steps (Suc n) i s = (case put_step True i s of None \<Rightarrow> None | Some s' \<Rightarrow> put_steps n i s')"

lemma set_editor_simps [simp]:
  "set_editor i e' (set_editor i e s) = set_editor i e' s"
  "i < length (editors s) \<Longrightarrow> editors (set_editor i e s) ! i = e"
  "holder (set_editor i e s) = holder s" "length (editors (set_editor i e s)) = length (editors s)"
  "set_editor i e s\<lparr>data_file := f\<rparr> = set_editor i e (s\<lparr>data_file := f\<rparr>)"
  "set_editor i e s\<lparr>holder := h\<rparr> = set_editor i e (s\<lparr>holder := h\<rparr>)"
  by (simp_all add: set_editor_def)

text \<open>
  What \<open>do_put\<close> does when no other editor holds or takes the lock. If the file still holds
  the version the user saw, the edited copy replaces it. If not, the conflict is reported, the
  user's edits are thrown away, the version in the file is written back over itself, and the
  record is reported as updated all the same. In both cases the function ends with the lock
  free and nothing left to save.
\<close>

theorem put_without_interference:
  assumes "i < length (editors s)" "e_pc (editors s ! i) = E_Query"
    and "last_rec_no (editors s ! i) = int n" "n < length (data_file s)" "holder s (int n) = None"
  shows "\<exists>k s'. put_steps k i s = Some s' \<and> e_pc (editors s' ! i) = E_Cmd \<and> \<not> has_work (editors s' ! i)
    \<and> holder s' = holder s
    \<and> (if data_file s ! n = orig_rec (editors s ! i)
       then data_file s' = (data_file s)[n := work_rec (editors s ! i)]
         \<and> e_out (editors s' ! i) = e_out (editors s ! i) @ [Updated (int n)]
       else data_file s' = data_file s \<and> work_rec (editors s' ! i) = data_file s ! n
         \<and> e_out (editors s' ! i) = e_out (editors s ! i) @ [Conflict, Updated (int n)])"
proof -
  define e where "e = editors s ! i"
  have s: "s = set_editor i e s" by (simp add: e_def set_editor_def)
  have e: "e_pc e = E_Query" "last_rec_no e = int n" using assms(2,3) by (simp_all add: e_def)
  have r: "read_rec (data_file s) (int n) = Some (data_file s ! n)" using assms(4) by (simp add: read_rec_def)
  have h: "(holder s)(int n := None) = holder s" using assms(5) by (simp add: fun_eq_iff)
  note run = put_step_def Let_def lock_rec_def unlock_rec_def assms(1,4,5) r h
  show ?thesis
  proof (cases "data_file s ! n = orig_rec e")
    case True
    let ?s = "set_editor i (go E_Cmd (tell (Updated (int n)) e)\<lparr>has_work := False\<rparr>) (s\<lparr>data_file := (data_file s)[n := work_rec e]\<rparr>)"
    have "put_steps 5 i (set_editor i e s) = Some ?s"
      using True e by (simp add: eval_nat_numeral run) (simp add: go_def tell_def)
    with True assms(1) show ?thesis
      by (intro exI [of _ 5] exI [of _ ?s]) (simp add: e_def [symmetric] s [symmetric], simp add: go_def tell_def)
  next
    case False
    let ?e = "e\<lparr>orig_rec := data_file s ! n, work_rec := data_file s ! n,
      e_out := e_out e @ [Conflict, Updated (int n)], e_pc := E_Cmd, has_work := False\<rparr>"
    have "put_steps 9 i (set_editor i e s) = Some (set_editor i ?e s)"
      using False e by (simp add: eval_nat_numeral run) (simp add: go_def tell_def)
    with False assms(1) show ?thesis
      by (intro exI [of _ 9] exI [of _ "set_editor i ?e s"]) (simp add: e_def [symmetric] s [symmetric])
  qed
qed

subsection \<open>What the user can enter\<close>

lemma read_upto_line:
  "takeWhile (\<lambda>c. c \<noteq> NL) (fst (read_upto n inp)) = takeWhile (\<lambda>c. c \<noteq> NL) (take n inp)"
  by (induction n inp rule: read_upto.induct) (auto split: prod.splits)

lemma read_upto_no_newline: "NL \<notin> set (take n inp) \<Longrightarrow> snd (read_upto n inp) = drop n inp"
  by (induction n inp rule: read_upto.induct) (auto split: prod.splits)

lemma read_upto_hd: "inp \<noteq> [] \<Longrightarrow> 0 < n \<Longrightarrow> hd (fst (read_upto n inp)) = hd inp"
  by (cases "(n, inp)" rule: read_upto.cases) (auto split: prod.splits)

text \<open>
  The questions for name and address never ask twice: on any input that is not exhausted and
  contains no NUL the first line is accepted, so \<open>Invalid name length\<close> is never printed. A
  line of 80 characters or more is not refused either: its first 79 characters become the value
  and the rest of the line is left for the next question.
\<close>

theorem edit_text_accepts_first_line:
  assumes "inp \<noteq> []" "NUL \<notin> set inp"
  shows "edit_text 80 inp =
      Some (if hd inp = NL then None else Some (takeWhile (\<lambda>c. c \<noteq> NL) (take 79 inp)), snd (read_upto 79 inp))
    \<and> (NL \<notin> set (take 79 inp) \<longrightarrow> edit_text 80 inp = Some (Some (take 79 inp), drop 79 inp))"
proof -
  obtain l rest where lr: "read_upto 79 inp = (l, rest)" by fastforce
  have fg: "fgets 80 inp = Some (l, rest)" using assms(1) lr by (simp add: fgets_def)
  have hd: "hd l = hd inp" using read_upto_hd [of inp 79] assms(1) lr by simp
  have "NUL \<notin> set l" using assms(2) read_upto_append [OF lr] by auto
  then have cut: "cut_newline l = takeWhile (\<lambda>c. c \<noteq> NL) (take 79 inp)"
    using read_upto_line [of 79 inp] lr by (simp add: cut_newline_def cstr_no_nul)
  have len: "0 < length (cut_newline l)" "length (cut_newline l) < 80" if "hd inp \<noteq> NL"
  proof -
    show "0 < length (cut_newline l)" using that assms(1) unfolding cut by (cases inp) auto
    have "length (cut_newline l) \<le> length (take 79 inp)" unfolding cut by (rule length_takeWhile_le)
    then show "length (cut_newline l) < 80" by simp
  qed
  have main: "edit_text 80 inp =
      Some (if hd inp = NL then None else Some (takeWhile (\<lambda>c. c \<noteq> NL) (take 79 inp)), snd (read_upto 79 inp))"
    using len by (subst edit_text.simps) (simp add: fg hd lr Let_def cut)
  moreover have "hd inp \<noteq> NL" "takeWhile (\<lambda>c. c \<noteq> NL) (take 79 inp) = take 79 inp"
    "snd (read_upto 79 inp) = drop 79 inp" if "NL \<notin> set (take 79 inp)"
    using that assms(1) read_upto_no_newline by (cases inp; auto simp: takeWhile_eq_all_conv)+
  ultimately show ?thesis by simp
qed

subsection \<open>Records keep their shape\<close>

definition rec_wf :: "record_t \<Rightarrow> bool" where
  "rec_wf r \<longleftrightarrow> length (name r) = NAME_LEN \<and> length (address r) = ADDR_LEN"

definition shape_inv :: "sys \<Rightarrow> bool" where
  "shape_inv s \<longleftrightarrow> (\<forall>r \<in> set (data_file s). rec_wf r)
     \<and> (\<forall>e \<in> set (editors s). rec_wf (orig_rec e) \<and> rec_wf (work_rec e))"

lemma length_strncpy [simp]: "length (strncpy n src) = n"
  by (simp add: strncpy_def)

lemma edit_fields_wf: "rec_wf (work_rec e) \<Longrightarrow> rec_wf (work_rec (fst (edit_fields e inp)))"
  by (auto simp: edit_fields_def rec_wf_def Let_def split: option.splits)

lemma read_rec_wf: "read_rec f n = Some r \<Longrightarrow> \<forall>r \<in> set f. rec_wf r \<Longrightarrow> rec_wf r"
  by (auto simp: read_rec_def split: if_splits)

lemma command_wf:
  assumes "command c inp f e = Some (e', inp')" "\<forall>r \<in> set f. rec_wf r"
    and "rec_wf (orig_rec e)" "rec_wf (work_rec e)"
  shows "rec_wf (orig_rec e') \<and> rec_wf (work_rec e')"
proof -
  have get: "rec_wf (orig_rec e') \<and> rec_wf (work_rec e')" if g: "do_get f e inp = Some (e', inp')"
  proof (cases "\<exists>r rest. read_rec f (the (fst (scan_d inp))) = Some r
      \<and> edit_fields (fetched (the (fst (scan_d inp))) r e) rest = (e', inp')")
    case True
    then obtain r rest where r: "read_rec f (the (fst (scan_d inp))) = Some r"
      and ed: "edit_fields (fetched (the (fst (scan_d inp))) r e) rest = (e', inp')"
      by blast
    have "rec_wf r" using read_rec_wf [OF r assms(2)] .
    with edit_fields_wf [of "fetched (the (fst (scan_d inp))) r e" rest]
      edit_fields_frame(4) [of "fetched (the (fst (scan_d inp))) r e" rest]
    show ?thesis unfolding ed by simp
  next
    case False
    with g have "e' = tell Invalid_input e \<or> e' = tell Read_error e"
      by (auto simp: do_get_def split_beta Let_def split: if_splits option.splits)
    with assms(3,4) show ?thesis by (auto simp: tell_def)
  qed
  from assms(1) consider "e' = tell (Listing (do_list f e)) e" | "do_get f e inp = Some (e', inp')" | "e' = do_put e"
    | "e' = go E_Exit (tell Exiting e)" | "e' = tell Unknown e"
    unfolding command_def by (auto simp only: option.inject prod.inject split: if_split_asm)
  then show ?thesis
    using assms(3,4) get by cases (auto simp: do_put_def tell_def go_def)
qed

lemma shape_set:
  assumes "shape_inv s" "rec_wf (orig_rec e)" "rec_wf (work_rec e)"
    and "editors s' = editors s" "\<forall>r \<in> set (data_file s'). rec_wf r"
  shows "shape_inv (set_editor i e s')"
proof -
  have "set ((editors s)[i := e]) \<subseteq> insert e (set (editors s))" by (rule set_update_subset_insert)
  with assms show ?thesis by (auto simp: shape_inv_def set_editor_def)
qed

lemma put_step_shape:
  assumes inv: "shape_inv s" and i: "i < length (editors s)" and st: "put_step ok i s = Some s'"
  shows "shape_inv s'"
proof -
  let ?e = "editors s ! i" and ?n = "last_rec_no (editors s ! i)"
  have wf: "rec_wf (orig_rec ?e)" "rec_wf (work_rec ?e)" "\<forall>r \<in> set (data_file s). rec_wf r"
    using inv i by (auto simp: shape_inv_def)
  note step = st [unfolded put_step_def Let_def] and set = shape_set [OF inv]
  show ?thesis
  proof (cases "e_pc ?e")
    case E_Lock
    show ?thesis
    proof (cases ok)
      case True
      with E_Lock step obtain s1 where "lock_rec i ?n s = Some s1" "s' = set_editor i (go E_Compare ?e) s1" by auto
      then show ?thesis using wf by (auto intro!: set simp: lock_rec_def split: if_splits)
    next
      case False
      with E_Lock step wf show ?thesis by (auto intro!: set)
    qed
  next
    case E_Compare
    show ?thesis
    proof (cases "if ok then read_rec (data_file s) ?n else None")
      case None
      with E_Compare step have "s' = set_editor i (go E_Abort (tell Reread_error ?e)) s" by simp
      with wf show ?thesis by (auto intro!: set)
    next
      case (Some r)
      then have "rec_wf r" using read_rec_wf wf(3) by (simp split: if_splits)
      with Some E_Compare step wf show ?thesis by (auto intro!: set split: if_splits)
    qed
  next
    case E_Query
    with step wf show ?thesis by (cases ok) (auto intro!: set)
  next
    case E_Write
    have "\<forall>r \<in> set ((data_file s)[nat ?n := work_rec ?e]). rec_wf r"
      using wf set_update_subset_insert [of "data_file s" "nat ?n" "work_rec ?e"] by auto
    with E_Write step wf show ?thesis by (cases ok) (auto intro!: set)
  qed (use step wf in \<open>auto intro!: set\<close>)
qed

lemma shape_step:
  assumes inv: "shape_inv s" and step: "sys_step s t"
  shows "shape_inv t"
  using step
proof cases
  case (start fd e)
  then have "orig_rec e = zero_record" "work_rec e = zero_record"
    by (auto simp: open_editor_def split: if_splits)
  with start(1) inv show ?thesis by (auto simp: shape_inv_def rec_wf_def zero_record_def)
next
  case (cmd i c inp e inp' typed)
  have "rec_wf (orig_rec e) \<and> rec_wf (work_rec e)"
    using command_wf [OF cmd(4)] inv cmd(2) by (auto simp: shape_inv_def)
  with inv show ?thesis unfolding cmd(1) by (intro shape_set) (auto simp: shape_inv_def)
next
  case (eof i typed)
  with inv show ?thesis unfolding eof(1) by (intro shape_set) (auto simp: shape_inv_def)
next
  case (put i ok)
  with put_step_shape inv show ?thesis by blast
qed

interpretation shapes: invariant_system "\<lambda>s. no_editors s \<and> (\<forall>r \<in> set (data_file s). rec_wf r)" sys_step shape_inv
proof
  show "no_editors s \<and> (\<forall>r \<in> set (data_file s). rec_wf r) \<Longrightarrow> shape_inv s" for s
    by (simp add: shape_inv_def no_editors_def)
qed (rule shape_step)


subsection \<open>Witnesses\<close>

text \<open>A file of two records, and an editor that has changed the semester of the first.\<close>

definition demo_record :: "u8 \<Rightarrow> record_t" where
  "demo_record n = \<lparr>name = strncpy 80 ''Ann'', address = strncpy 80 ''Here'', semester = n\<rparr>"

definition demo :: sys where
  "demo = \<lparr>data_file = [demo_record 1, demo_record 2], holder = (\<lambda>_. None), editors = []\<rparr>"

definition demo_editor :: "epc \<Rightarrow> editor" where
  "demo_editor c = \<lparr>record_count = 2, orig_rec = demo_record 1, work_rec = demo_record 7, last_rec_no = 0,
     has_work = True, e_pc = c, e_out = [Current_record 0 ''Ann'' ''Here'' 1]\<rparr>"

datatype edit_act = Start | Type nat string | Put nat

fun edit_move :: "edit_act \<Rightarrow> sys \<Rightarrow> sys option" where
  "edit_move Start s =
     (case open_editor 2 3 (161 * int (length (data_file s))) of
        Inl x \<Rightarrow> None | Inr e \<Rightarrow> Some (s\<lparr>editors := editors s @ [e]\<rparr>))"
| "edit_move (Type i typed) s =
     (if i < length (editors s) \<and> e_pc (editors s ! i) = E_Cmd
      then (case next_command typed of
              None \<Rightarrow> None
            | Some None \<Rightarrow> Some (set_editor i (go E_Exit (editors s ! i)) s)
            | Some (Some (c, inp)) \<Rightarrow>
                map_option (\<lambda>(e, rest). set_editor i e s) (command c inp (data_file s) (editors s ! i)))
      else None)"
| "edit_move (Put i) s = (if i < length (editors s) then put_step True i s else None)"

interpretation edit_runs: executable_steps sys_step edit_move
proof
  fix a s t assume "edit_move a s = Some t"
  then show "sys_step s t" by (cases a) (auto intro: sys_step.intros split: sum.splits if_splits option.splits)
qed

text \<open>An editor starts, fetches record 0, gives it semester 7, and is about to write.\<close>

definition edit_run :: "edit_act list" where
  "edit_run = [Start, Type 0 [CHR ''g'', NL, CHR ''0'', NL, NL, NL, CHR ''7'', NL], Type 0 [CHR ''p'', NL], Put 0, Put 0, Put 0]"

lemma edit_run_reachable:
  obtains s where "steps sys_step demo s" "data_file s = [demo_record 1, demo_record 2]"
    "editors s = [demo_editor E_Write]" "holder s 0 = Some 0" "no_editors demo"
proof -
  have "case run_all edit_move edit_run demo of None \<Rightarrow> False | Some s \<Rightarrow>
      data_file s = [demo_record 1, demo_record 2] \<and> editors s = [demo_editor E_Write] \<and> holder s 0 = Some 0"
    by code_simp
  then obtain s where s: "run_all edit_move edit_run demo = Some s" "data_file s = [demo_record 1, demo_record 2]"
    "editors s = [demo_editor E_Write]" "holder s 0 = Some 0"
    by (auto split: option.splits)
  have "steps sys_step demo s" by (rule edit_runs.run_all_steps [OF s(1)])
  with s that show thesis by (simp add: no_editors_def demo_def)
qed

theorem lab7_no_lost_update_witness:
  "\<exists>s s'. steps sys_step demo s \<and> sys_step s s' \<and> data_file s' = [demo_record 7, demo_record 2]
     \<and> holder s 0 = Some 0"
proof -
  obtain s where s: "steps sys_step demo s" "data_file s = [demo_record 1, demo_record 2]"
    "editors s = [demo_editor E_Write]" "holder s 0 = Some 0" "no_editors demo"
    by (rule edit_run_reachable)
  let ?s' = "set_editor 0 (go E_Unlock (demo_editor E_Write)) (s\<lparr>data_file := [demo_record 7, demo_record 2]\<rparr>)"
  have "edit_move (Put 0) s = Some ?s'"
    using s(2,3) by (simp add: put_step_def demo_editor_def Let_def)
  then have step: "sys_step s ?s'" by (rule edit_runs.move_sound)
  moreover have "data_file ?s' \<noteq> data_file s" using s(2) by (simp add: demo_record_def)
  from lab7_no_lost_update [OF s(5,1) step this] have "\<exists>n. n < length (data_file s)" by blast
  ultimately show ?thesis using s by (intro exI [of _ s] exI [of _ ?s']) simp
qed

theorem lab7_record_exclusion_witness:
  "\<exists>s. steps sys_step demo s \<and> locked (editors s ! 0) \<and> (0 :: nat) = 0"
proof -
  obtain s where s: "steps sys_step demo s" "data_file s = [demo_record 1, demo_record 2]"
    "editors s = [demo_editor E_Write]" "holder s 0 = Some 0" "no_editors demo"
    by (rule edit_run_reachable)
  have l: "locked (editors s ! 0)" "0 < length (editors s)" using s(3) by (simp_all add: locked_def demo_editor_def)
  from lab7_record_exclusion [OF s(5,1) l(2,2,1,1) refl] l s(1) show ?thesis by blast
qed

theorem put_without_interference_witness:
  "\<exists>k s'. put_steps k 0 (demo\<lparr>editors := [demo_editor E_Query]\<rparr>) = Some s'
     \<and> data_file s' = [demo_record 7, demo_record 2]"
  using put_without_interference [of 0 "demo\<lparr>editors := [demo_editor E_Query]\<rparr>" 0]
  by (auto simp: demo_def demo_editor_def)

theorem edit_text_accepts_first_line_witness:
  "edit_text 80 (replicate 100 (CHR ''x'')) = Some (Some (replicate 79 (CHR ''x'')), replicate 21 (CHR ''x''))"
  using edit_text_accepts_first_line [of "replicate 100 (CHR ''x'')", THEN conjunct2] by simp



end
