(* ===== verification/Lab7_Generation.thy ===== *)
theory Lab7_Generation
  imports Editor
begin

section \<open>lab7: generating the data file (lab7/src/generation.c)\<close>

text \<open>
  The generator writes records numbered from 0. \<open>snprintf\<close> overwrites only the bytes it
  prints and the NUL behind them; the rest of the buffer keeps what the stack or the previous
  record left there. The data file is the list of its records, so its size is 161 times their
  number.
\<close>

definition snprintf :: "nat \<Rightarrow> string \<Rightarrow> string \<Rightarrow> string" where
  "snprintf n buf s = (let t = take (n - 1) s in t @ [NUL] @ drop (Suc (length t)) buf)"

definition fill_record :: "nat \<Rightarrow> record_t \<Rightarrow> record_t" where
  "fill_record i r =
     r\<lparr>name := snprintf NAME_LEN (name r) (''Student'' @ pad3 (decimal i)),
       address := snprintf ADDR_LEN (address r) (''Address'' @ pad3 (decimal i)),
       semester := of_nat (i mod 8 + 1)\<rparr>"

fun gen_loop :: "nat \<Rightarrow> nat \<Rightarrow> record_t \<Rightarrow> record_t list" where
  "gen_loop i 0 r = []"
| "gen_loop i (Suc k) r = (let r = fill_record i r in r # gen_loop (Suc i) k r)"

text \<open>
  \<open>opened\<close> and \<open>written\<close> say that \<open>fopen\<close> and all writes and flushes succeed; \<open>stack\<close> is what
  the uninitialised record holds.
\<close>

definition generate :: "int \<Rightarrow> string \<Rightarrow> bool \<Rightarrow> bool \<Rightarrow> record_t \<Rightarrow> exit_code + record_t list" where
  "generate argc arg opened written stack =
     (if argc \<noteq> 3 then Inl EXIT_FAILURE
      else (let (n, rest) = strtol arg in
            if rest \<noteq> [] \<or> n < 10 then Inl EXIT_FAILURE
            else if \<not> opened then Inl EXIT_FAILURE
            else if \<not> written then Inl EXIT_FAILURE
            else Inr (gen_loop 0 (nat n) stack)))"

lemma gen_loop_length [simp]: "length (gen_loop i k r) = k"
  by (induction k arbitrary: i r) (simp_all add: Let_def)

lemma gen_loop_nth: "j < k \<Longrightarrow> \<exists>r'. gen_loop i k r ! j = fill_record (i + j) r'"
proof (induction k arbitrary: i j r)
  case 0
  then show ?case by simp
next
  case (Suc k)
  show ?case
  proof (cases j)
    case 0
    then show ?thesis by (auto simp: Let_def)
  next
    case (Suc m)
    with Suc.prems Suc.IH [of m "Suc i" "fill_record i r"] show ?thesis by (simp add: Let_def)
  qed
qed

lemma pad3_no_nul: "NUL \<notin> set (pad3 (decimal n))"
  by (auto simp: pad3_def c_isdigit_def dest: decimal_digits)

lemma length_decimal_log: "n < 10 ^ k \<Longrightarrow> 0 < k \<Longrightarrow> length (decimal n) \<le> k"
proof (induction n arbitrary: k rule: decimal.induct)
  case (1 n)
  show ?case
  proof (cases "n < 10")
    case True
    with 1 show ?thesis by (subst decimal.simps) simp
  next
    case False
    then obtain m where m: "k = Suc m" "0 < m"
      using 1(2,3) by (cases k; cases "k - 1") auto
    have "n div 10 < 10 ^ m" using 1(2) m by (simp add: less_mult_imp_div_less mult.commute)
    with 1(1) [OF False this m(2)] False m show ?thesis by (subst decimal.simps) simp
  qed
qed

lemma cstr_snprintf: "NUL \<notin> set s \<Longrightarrow> length s < n \<Longrightarrow> cstr (snprintf n buf s) = s"
  by (simp add: snprintf_def cstr_def Let_def takeWhile_append)

lemma fill_record_name:
  assumes "int i \<le> LONG_MAX"
  shows "cstr (name (fill_record i r)) = ''Student'' @ pad3 (decimal i)"
    and "cstr (address (fill_record i r)) = ''Address'' @ pad3 (decimal i)"
proof -
  have "i < 10 ^ 19" using assms by simp
  then have "length (decimal i) \<le> 19" by (rule length_decimal_log) simp
  then have "length (pad3 (decimal i)) \<le> 19" by (simp add: pad3_def)
  then show "cstr (name (fill_record i r)) = ''Student'' @ pad3 (decimal i)"
    "cstr (address (fill_record i r)) = ''Address'' @ pad3 (decimal i)"
    using pad3_no_nul [of i] by (simp_all add: fill_record_def cstr_snprintf)
qed

text \<open>
  Round trip. On the argument \<open>n\<close>, written in decimal and at least 10, the generator produces
  \<open>n\<close> records; the number in the name of record \<open>i\<close> reads back as \<open>i\<close>, its semester is one the
  editor would accept, and the editor opens the file as one of \<open>n\<close> records.
\<close>

theorem lab7_generate_roundtrip:
  assumes "10 \<le> n" "int n \<le> LONG_MAX" "0 \<le> fd"
  shows "\<exists>recs. generate 3 (decimal n) True True stack = Inr recs \<and> length recs = n
    \<and> (\<forall>i < n. strtol (drop 7 (cstr (name (recs ! i)))) = (int i, [])
         \<and> 1 \<le> unat (semester (recs ! i)) \<and> unat (semester (recs ! i)) \<le> 8)
    \<and> (\<exists>e. open_editor 2 fd (161 * int (length recs)) = Inr e \<and> record_count e = n)"
proof -
  let ?recs = "gen_loop 0 n stack"
  have "generate 3 (decimal n) True True stack = Inr ?recs"
    using assms by (simp add: generate_def strtol_decimal)
  moreover have "strtol (drop 7 (cstr (name (?recs ! i)))) = (int i, [])
      \<and> 1 \<le> unat (semester (?recs ! i)) \<and> unat (semester (?recs ! i)) \<le> 8" if i: "i < n" for i
  proof -
    obtain r where r: "?recs ! i = fill_record i r" using gen_loop_nth [OF i, of 0 stack] by auto
    have m: "int i \<le> LONG_MAX" using i assms(2) by linarith
    have "unat (of_nat (i mod 8 + 1) :: u8) = i mod 8 + 1"
      by (simp only: unat_of_nat take_bit_nat_def) (simp add: mod_less_divisor [THEN less_trans])
    moreover have "i mod 8 < 8" by simp
    ultimately have "1 \<le> unat (semester (fill_record i r))" "unat (semester (fill_record i r)) \<le> 8"
      by (simp_all add: fill_record_def del: of_nat_add)
    then show ?thesis unfolding r fill_record_name(1) [OF m] using strtol_pad3 [OF m] by simp
  qed
  moreover have "\<exists>e. open_editor 2 fd (161 * int (length ?recs)) = Inr e \<and> record_count e = n"
    using assms(3) by (simp add: open_editor_def)
  ultimately show ?thesis by (intro exI [of _ ?recs]) simp
qed

theorem lab7_generate_roundtrip_witness:
  "\<exists>recs. generate 3 ''12'' True True zero_record = Inr recs
     \<and> strtol (drop 7 (cstr (name (recs ! 11)))) = (11, [])"
proof -
  have "decimal 12 = ''12''" by code_simp
  with lab7_generate_roundtrip [of 12 3 zero_record] show ?thesis by auto
qed

end
