(* ===== verification/File_System.thy ===== *)
theory File_System
  imports C_String "HOL-Library.Sublist"
begin

section \<open>The file system and the string functions of lab1 and lab8\<close>

text \<open>
  The operating system's file tree is a parameter: what \<open>realpath\<close>, \<open>readdir\<close> (behind a
  successful \<open>opendir\<close>), \<open>lstat\<close> and \<open>readlink\<close> return for a path. It does not change while a
  command is executed. The string functions of the C library are modelled for the C locale.
\<close>

datatype file_kind = Is_dir | Is_link | Is_reg | Is_other

record file_system =
  realpath :: "string \<Rightarrow> string option"
  readdir :: "string \<Rightarrow> string list option"
  lstat :: "string \<Rightarrow> file_kind option"
  readlink :: "string \<Rightarrow> string option"

abbreviation (input) PATH_MAX :: nat where "PATH_MAX \<equiv> 4096"

abbreviation (input) SLASH :: char where "SLASH \<equiv> CHR ''/''"

text \<open>The string that \<open>snprintf\<close> (or a read of at most \<open>n - 1\<close> bytes) leaves in a buffer of \<open>n\<close> bytes.\<close>

definition clip :: "nat \<Rightarrow> string \<Rightarrow> string" where
  "clip n s = take (n - 1) s"

lemma clip_id [simp]: "length s < n \<Longrightarrow> clip n s = s"
  by (simp add: clip_def)

lemma length_clip: "0 < n \<Longrightarrow> length (clip n s) < n"
  by (auto simp: clip_def min_def)

definition c_tolower :: "char \<Rightarrow> char" where
  "c_tolower c = (let n = (of_char c :: nat) in if 65 \<le> n \<and> n \<le> 90 then char_of (n + 32) else c)"

text \<open>\<open>strcasecmp(a, b) == 0\<close> and \<open>strncasecmp(a, b, strlen(b)) == 0\<close>\<close>

definition same_nocase :: "string \<Rightarrow> string \<Rightarrow> bool" where
  "same_nocase a b \<longleftrightarrow> map c_tolower a = map c_tolower b"

definition starts_nocase :: "string \<Rightarrow> string \<Rightarrow> bool" where
  "starts_nocase a b \<longleftrightarrow> same_nocase (take (length b) a) b"

text \<open>\<open>p = strrchr(s, '/'); if (p) *p = 0; else s[0] = 0;\<close>\<close>

definition cut_last_slash :: "string \<Rightarrow> string" where
  "cut_last_slash s = rev (tl (dropWhile (\<lambda>c. c \<noteq> SLASH) (rev s)))"

lemma cut_last_slash_component: "SLASH \<notin> set x \<Longrightarrow> cut_last_slash (d @ [SLASH] @ x) = d"
proof -
  assume "SLASH \<notin> set x"
  then have "dropWhile (\<lambda>c. c \<noteq> SLASH) (rev x @ SLASH # rev d) = SLASH # rev d"
    by (subst dropWhile_append2) auto
  then show ?thesis by (simp add: cut_last_slash_def)
qed

lemma cut_last_slash_none:
  assumes "SLASH \<notin> set x"
  shows "cut_last_slash x = []"
proof -
  have "dropWhile (\<lambda>c. c \<noteq> SLASH) (rev x) = []"
    using assms by (subst dropWhile_eq_Nil_conv) auto
  then show ?thesis by (simp only: cut_last_slash_def list.sel rev.simps)
qed

end
