(* ===== verification/Lab8_Server.thy ===== *)
theory Lab8_Server
  imports File_System
begin

section \<open>lab8: the file server (lab8/src/server.c)\<close>

text \<open>
  One thread serves one connection. What it does is a list of events: the strings it hands to
  \<open>sendall\<close> and the paths it opens, stats or reads as a link. The connection is the list of the
  byte strings that the calls of \<open>recv\<close> return; an empty one stands for a closed connection and
  the end of the list for a call that has not returned yet. The log on standard output is left out.
\<close>

abbreviation (input) PATHBUF :: nat where "PATHBUF \<equiv> 4096 + 255 + 2"
abbreviation (input) BUF_SIZE :: nat where "BUF_SIZE \<equiv> 4096"

definition trim :: "string \<Rightarrow> string" where
  "trim s =
     (case dropWhile c_isspace s of
        [] \<Rightarrow> []
      | c # r \<Rightarrow> c # rev (dropWhile c_isspace (rev r)))"

definition build_path :: "file_system \<Rightarrow> string \<Rightarrow> string \<Rightarrow> string \<Rightarrow> string option" where
  "build_path fs root cwd target =
     (let tmp = (if target \<noteq> [] \<and> hd target = SLASH then clip PATHBUF (root @ target)
                 else clip PATHBUF (root @ ''/'' @ cwd @ ''/'' @ target)) in
      case realpath fs tmp of
        None \<Rightarrow> None
      | Some realp \<Rightarrow> if take (length root) realp = root then Some realp else None)"

text \<open>
  \<open>sendall\<close>: the bytes that are sent when the calls of \<open>send\<close> return \<open>r 0, r 1, \<dots>\<close>; a call sends
  no more than it is given.
\<close>

function sendall :: "(nat \<Rightarrow> int) \<Rightarrow> nat \<Rightarrow> string \<Rightarrow> string" where
  "sendall r i s =
     (if s = [] then []
      else if r i \<le> 0 then []
      else (let n = min (nat (r i)) (length s) in take n s @ sendall r (i + 1) (drop n s)))"
  by pat_completeness auto
termination
  by (relation "measure (\<lambda>(r, i, s). length s)") auto

declare sendall.simps [simp del]

datatype event = Sent string | Opened string | Stated string | Link_read string

definition handle_echo :: "string \<Rightarrow> event list" where
  "handle_echo arg = [Sent arg, Sent [NL]]"

definition handle_info :: "event list" where
  "handle_info = [Sent (''Hello from '' @ [CHR 0x27] @ ''myserver'' @ [CHR 0x27, NL])]"

text \<open>The body of the loop of \<open>handle_list\<close>.\<close>

definition list_entry :: "file_system \<Rightarrow> string \<Rightarrow> string \<Rightarrow> string \<Rightarrow> string \<Rightarrow> event list" where
  "list_entry fs root cwd path d_name =
     (if d_name = ''.'' \<or> d_name = ''..'' then []
      else if length path + 1 + length d_name \<ge> PATHBUF then []
      else
        let full = path @ ''/'' @ d_name in
        Stated full #
        (case lstat fs full of
           None \<Rightarrow> []
         | Some Is_dir \<Rightarrow> [Sent d_name, Sent (''/'' @ [NL])]
         | Some Is_link \<Rightarrow>
             Link_read full #
             (case readlink fs full of
                None \<Rightarrow> []
              | Some l \<Rightarrow>
                  let linkto = clip PATHBUF l in
                  (case build_path fs root cwd linkto of
                     None \<Rightarrow> []
                   | Some target \<Rightarrow>
                       Stated target #
                       (if lstat fs target = Some Is_link
                        then Link_read target #
                          (case readlink fs target of
                             None \<Rightarrow> []
                           | Some l2 \<Rightarrow>
                               let real2 = clip PATHBUF l2 in
                               if real2 \<noteq> [] then [Sent d_name, Sent '' -->> '', Sent real2, Sent [NL]] else [])
                        else [Sent d_name, Sent '' --> '', Sent linkto, Sent [NL]])))
         | Some _ \<Rightarrow> [Sent d_name, Sent [NL]]))"

definition handle_list :: "file_system \<Rightarrow> string \<Rightarrow> string \<Rightarrow> event list" where
  "handle_list fs root cwd =
     (case build_path fs root cwd ''.'' of
        None \<Rightarrow> []
      | Some path \<Rightarrow>
          Opened path #
          (case readdir fs path of
             None \<Rightarrow> []
           | Some names \<Rightarrow> concat (map (list_entry fs root cwd path) names)))"

text \<open>The command \<open>CD\<close>: the new \<open>cwd\<close>. \<open>newp + strlen(root)\<close>, without its leading slash, is kept if it fits.\<close>

definition change_dir :: "file_system \<Rightarrow> string \<Rightarrow> string \<Rightarrow> string \<Rightarrow> string" where
  "change_dir fs root t cwd =
     (if same_nocase t ''/'' then []
      else if same_nocase t ''..'' then cut_last_slash cwd
      else
        (case build_path fs root cwd t of
           None \<Rightarrow> cwd
         | Some newp \<Rightarrow>
             let rel = drop (length root) newp;
                 rel = (if rel \<noteq> [] \<and> hd rel = SLASH then tl rel else rel) in
             if length rel < PATH_MAX then rel else cwd))"

text \<open>One command: the new \<open>cwd\<close>, the events, and whether the thread leaves its loop.\<close>

definition handle_command :: "file_system \<Rightarrow> string \<Rightarrow> string \<Rightarrow> string \<Rightarrow> string \<times> event list \<times> bool" where
  "handle_command fs root cmd cwd =
     (if starts_nocase cmd ''ECHO '' then (cwd, handle_echo (drop 5 cmd), False)
      else if same_nocase cmd ''QUIT'' then (cwd, [Sent (''BYE'' @ [NL])], True)
      else if same_nocase cmd ''INFO'' then (cwd, handle_info, False)
      else if starts_nocase cmd ''CD '' then (change_dir fs root (drop 3 cmd) cwd, [], False)
      else if same_nocase cmd ''LIST'' then (cwd, handle_list fs root cwd, False)
      else (cwd, [Sent (''Unknown command'' @ [NL])], False))"

definition prompt :: "string \<Rightarrow> event list" where
  "prompt cwd = (if cwd = [] then [Sent (''>'' @ [NL])] else [Sent cwd, Sent (''>'' @ [NL])])"

text \<open>
  What one \<open>recv\<close> leads to: \<open>None\<close> ends the loop (the events of \<open>QUIT\<close> apart), otherwise the new
  \<open>cwd\<close>. Only the first line of what was received is looked at.
\<close>

definition handle_recv :: "file_system \<Rightarrow> string \<Rightarrow> string \<Rightarrow> string \<Rightarrow> string option \<times> event list" where
  "handle_recv fs root chunk cwd =
     (if chunk = [] then (None, [])
      else
        let cmd = trim (cut_newline chunk) in
        if cmd = [] then (Some cwd, [])
        else
          let (cwd', evs, quit) = handle_command fs root cmd cwd in
          if quit then (None, evs) else (Some cwd', evs @ prompt cwd'))"

fun client_loop :: "file_system \<Rightarrow> string \<Rightarrow> string \<Rightarrow> string list \<Rightarrow> event list" where
  "client_loop fs root cwd [] = []"
| "client_loop fs root cwd (chunk # chunks) =
     (case handle_recv fs root chunk cwd of
        (None, evs) \<Rightarrow> evs
      | (Some cwd', evs) \<Rightarrow> evs @ client_loop fs root cwd' chunks)"

definition client_thread :: "file_system \<Rightarrow> string \<Rightarrow> string list \<Rightarrow> event list" where
  "client_thread fs root chunks = handle_info @ [Sent (''>'' @ [NL])] @ client_loop fs root [] chunks"

text \<open>
  \<open>main\<close>: the arguments, and for each \<open>accept\<close> the descriptor and root handed to a new thread. The
  system calls' results are arguments.
\<close>

definition server_main ::
  "file_system \<Rightarrow> string list \<Rightarrow> int \<Rightarrow> int \<Rightarrow> int \<Rightarrow> int list \<Rightarrow> int + (int \<times> string) list" where
  "server_main fs argv listen_fd bind_result listen_result accepted =
     (if length argv \<noteq> 3 then Inl 1
      else
        (case realpath fs (argv ! 1) of
           None \<Rightarrow> Inl 1
         | Some root \<Rightarrow>
             if listen_fd < 0 then Inl 1
             else if bind_result < 0 then Inl 1
             else if listen_result < 0 then Inl 1
             else Inr (map (\<lambda>fd. (fd, root)) (filter (\<lambda>fd. fd \<ge> 0) accepted))))"


subsection \<open>Sending\<close>

lemma sendall_prefix: "prefix (sendall r i s) s"
proof (induction r i s rule: sendall.induct)
  case (1 r i s)
  show ?case
  proof (cases "s = [] \<or> r i \<le> 0")
    case True
    then show ?thesis by (subst sendall.simps) auto
  next
    case False
    define n where "n = min (nat (r i)) (length s)"
    from 1 False have "prefix (sendall r (i + 1) (drop n s)) (drop n s)" by (auto simp: n_def)
    then have "prefix (take n s @ sendall r (i + 1) (drop n s)) (take n s @ drop n s)" by (subst same_prefix_prefix)
    with False show ?thesis by (subst sendall.simps) (simp add: n_def Let_def)
  qed
qed

lemma sendall_complete: "(\<And>j. r j > 0) \<Longrightarrow> sendall r i s = s"
proof (induction r i s rule: sendall.induct)
  case (1 r i s)
  then have "sendall r (i + 1) (drop (min (nat (r i)) (length s)) s) = drop (min (nat (r i)) (length s)) s" if "s \<noteq> []"
    using that by (metis not_le)
  with 1(2) [of i] show ?case by (subst sendall.simps) (auto simp: Let_def not_le)
qed

subsection \<open>Confinement\<close>

text \<open>The path an event accesses, if any.\<close>

fun accessed :: "event \<Rightarrow> string option" where
  "accessed (Sent s) = None"
| "accessed (Opened p) = Some p"
| "accessed (Stated p) = Some p"
| "accessed (Link_read p) = Some p"

definition confined :: "string \<Rightarrow> event list \<Rightarrow> bool" where
  "confined root evs \<longleftrightarrow> (\<forall>e \<in> set evs. \<forall>p. accessed e = Some p \<longrightarrow> prefix root p)"

lemma confined_simps [simp]:
  "confined root []"
  "confined root (Sent s # evs) \<longleftrightarrow> confined root evs"
  "confined root (Opened p # evs) \<longleftrightarrow> prefix root p \<and> confined root evs"
  "confined root (Stated p # evs) \<longleftrightarrow> prefix root p \<and> confined root evs"
  "confined root (Link_read p # evs) \<longleftrightarrow> prefix root p \<and> confined root evs"
  "confined root (evs @ evs') \<longleftrightarrow> confined root evs \<and> confined root evs'"
  by (auto simp: confined_def)

lemma build_path_prefix: "build_path fs root cwd t = Some p \<Longrightarrow> prefix root p"
  by (auto simp: build_path_def take_is_prefix Let_def split: option.splits if_splits)
    (metis take_is_prefix)+

lemma list_entry_confined: "prefix root path \<Longrightarrow> confined root (list_entry fs root cwd path d)"
  by (auto simp: list_entry_def Let_def split: option.splits file_kind.splits dest: build_path_prefix)

lemma handle_list_confined: "confined root (handle_list fs root cwd)"
proof (cases "build_path fs root cwd ''.''")
  case None
  then show ?thesis by (simp add: handle_list_def)
next
  case (Some path)
  from build_path_prefix [OF Some] have p: "prefix root path" .
  have "confined root (concat (map (list_entry fs root cwd path) names))" for names
    using list_entry_confined [OF p] by (induction names) auto
  with Some p show ?thesis by (simp add: handle_list_def split: option.split)
qed

lemma prompt_confined [simp]: "confined root (prompt cwd)"
  by (simp add: prompt_def)

lemma handle_recv_confined: "confined root (snd (handle_recv fs root chunk cwd))"
  using handle_list_confined
  by (auto simp: handle_recv_def handle_command_def handle_echo_def handle_info_def Let_def)

lemma client_loop_confined: "confined root (client_loop fs root cwd chunks)"
proof (induction chunks arbitrary: cwd)
  case Nil
  then show ?case by simp
next
  case (Cons chunk chunks)
  with handle_recv_confined [of root fs chunk cwd] show ?case by (auto split: prod.splits option.splits)
qed

text \<open>
  C10. Whatever a client sends, every path its thread opens, stats or reads as a link begins with
  the root directory's path, whatever the file system contains (links out of the root included).
\<close>

theorem lab8_confined:
  assumes "e \<in> set (client_thread fs root chunks)" "accessed e = Some p"
  shows "prefix root p"
proof -
  have "confined root (client_thread fs root chunks)"
    using client_loop_confined [of root fs "[]" chunks] by (simp add: client_thread_def handle_info_def)
  with assms show ?thesis by (auto simp: confined_def)
qed

subsection \<open>Changing the directory\<close>

lemma starts_nocase_append: "starts_nocase (b @ s) b"
  by (simp add: starts_nocase_def same_nocase_def)

lemma not_starts: "map c_tolower (take (length b) a) \<noteq> map c_tolower b \<Longrightarrow> \<not> starts_nocase a b"
  by (simp add: starts_nocase_def same_nocase_def)

lemma command_CD: "handle_command fs root (''CD '' @ t) cwd = (change_dir fs root t cwd, [], False)"
proof -
  have "\<not> starts_nocase (''CD '' @ t) ''ECHO ''" "\<not> same_nocase (''CD '' @ t) ''QUIT''"
    "\<not> same_nocase (''CD '' @ t) ''INFO''" "starts_nocase (''CD '' @ t) ''CD ''"
    by (auto simp: starts_nocase_def same_nocase_def c_tolower_def)
  then show ?thesis by (simp add: handle_command_def)
qed

lemma command_LIST: "handle_command fs root ''LIST'' cwd = (cwd, handle_list fs root cwd, False)"
  by (simp add: handle_command_def starts_nocase_def same_nocase_def c_tolower_def)

text \<open>
  \<open>CD\<close> to a directory \<open>p\<close> inside the root, given in any way that \<open>realpath\<close> resolves, makes the
  following \<open>LIST\<close> list exactly \<open>p\<close>: \<open>cwd\<close> becomes \<open>p\<close> without the root, which is what the prompt
  shows. It is assumed that \<open>realpath\<close> maps a canonical directory name with \<open>/.\<close> behind it to itself
  and that the name fits the buffers.
\<close>

theorem lab8_cd_then_list:
  assumes target: "\<not> same_nocase t ''/''" "\<not> same_nocase t ''..''" "build_path fs root cwd t = Some p"
    and inside: "p = root @ SLASH # rel" "rel \<noteq> []"
    and canonical: "realpath fs (p @ ''/.'') = Some p"
    and fits: "length p < PATH_MAX"
  shows "handle_command fs root (''CD '' @ t) cwd = (rel, [], False)
    \<and> handle_command fs root ''LIST'' rel =
        (rel, Opened p # (case readdir fs p of None \<Rightarrow> []
                          | Some names \<Rightarrow> concat (map (list_entry fs root rel p) names)), False)"
proof
  have "change_dir fs root t cwd = rel"
    using target inside fits by (simp add: change_dir_def Let_def)
  then show "handle_command fs root (''CD '' @ t) cwd = (rel, [], False)"
    by (simp only: command_CD)
  have "build_path fs root rel ''.'' = Some p"
    using canonical fits by (simp add: build_path_def Let_def inside(1))
  then show "handle_command fs root ''LIST'' rel =
      (rel, Opened p # (case readdir fs p of None \<Rightarrow> []
                        | Some names \<Rightarrow> concat (map (list_entry fs root rel p) names)), False)"
    by (simp add: command_LIST handle_list_def)
qed


text \<open>
  The test for the root compares characters, not components: a directory beside the root whose
  name extends the root's (\<open>/srv/www-old\<close> for \<open>/srv/www\<close>) passes it. \<open>CD\<close> then sets \<open>cwd\<close> to the
  rest of that name, which is no directory below the root, so that \<open>LIST\<close> answers nothing.
\<close>

theorem lab8_sibling_accepted:
  assumes target: "\<not> same_nocase t ''/''" "\<not> same_nocase t ''..''"
    and fits: "length (root @ ''/'' @ cwd @ ''/'' @ t) < PATHBUF" "length (root @ x) < PATH_MAX"
    and relative: "t \<noteq> []" "hd t \<noteq> SLASH"
    and outside: "realpath fs (root @ ''/'' @ cwd @ ''/'' @ t) = Some (root @ x)" "x \<noteq> []" "hd x \<noteq> SLASH"
    and missing: "realpath fs (root @ ''/'' @ x @ ''/.'') = None"
  shows "handle_command fs root (''CD '' @ t) cwd = (x, [], False)
    \<and> handle_command fs root ''LIST'' x = (x, [], False)"
proof
  have "build_path fs root cwd t = Some (root @ x)"
    using outside(1) relative fits by (simp add: build_path_def Let_def)
  then have "change_dir fs root t cwd = x"
    using target outside fits by (simp add: change_dir_def Let_def)
  then show "handle_command fs root (''CD '' @ t) cwd = (x, [], False)"
    by (simp only: command_CD)
  have "build_path fs root x ''.'' = None"
    using missing fits by (simp add: build_path_def Let_def)
  then show "handle_command fs root ''LIST'' x = (x, [], False)"
    by (simp add: command_LIST handle_list_def)
qed

subsection \<open>Witnesses\<close>

text \<open>
  A file tree with the directories \<open>/srv/www\<close>, \<open>/srv/www/pub\<close> and \<open>/srv/www-old\<close>; \<open>pub\<close> holds a
  file and a link to it.
\<close>

text \<open>Whatever follows the first line in what one \<open>recv\<close> returns is dropped.\<close>

theorem lab8_later_lines_dropped:
  "handle_recv fs root (line @ [NL] @ later) cwd = handle_recv fs root (line @ [NL]) cwd"
proof -
  have "cut_newline (line @ [NL] @ later) = cut_newline (line @ [NL])"
    unfolding cut_newline_def cstr_def by (induction line) simp_all
  then show ?thesis by (simp add: handle_recv_def)
qed

definition demo_fs :: file_system where
  "demo_fs = \<lparr>
     realpath = (\<lambda>p.
       if p \<in> {''/srv/www//pub'', ''/srv/www/pub'', ''/srv/www/pub/.''} then Some ''/srv/www/pub''
       else if p = ''/srv/www/pub/notes'' then Some ''/srv/www/pub/notes''
       else if p = ''/srv/www//../www-old'' then Some ''/srv/www-old''
       else if p \<in> {''/srv/www'', ''/srv/www//.''} then Some ''/srv/www'' else None),
     readdir = (\<lambda>p.
       if p = ''/srv/www/pub'' then Some [''.'', ''..'', ''notes'', ''alias'']
       else if p = ''/srv/www'' then Some [''.'', ''..'', ''pub''] else None),
     lstat = (\<lambda>p.
       if p \<in> {''/srv/www'', ''/srv/www/pub''} then Some Is_dir
       else if p = ''/srv/www/pub/notes'' then Some Is_reg
       else if p = ''/srv/www/pub/alias'' then Some Is_link else None),
     readlink = (\<lambda>p. if p = ''/srv/www/pub/alias'' then Some ''notes'' else None)\<rparr>"

theorem lab8_confined_witness:
  "Opened ''/srv/www/pub'' \<in> set (client_thread demo_fs ''/srv/www'' [''cd pub'' @ [NL], ''list'' @ [NL]])
   \<and> prefix ''/srv/www'' ''/srv/www/pub''"
proof
  show m: "Opened ''/srv/www/pub'' \<in> set (client_thread demo_fs ''/srv/www'' [''cd pub'' @ [NL], ''list'' @ [NL]])"
    by code_simp
  show "prefix ''/srv/www'' ''/srv/www/pub''"
    by (rule lab8_confined [OF m]) simp
qed

theorem lab8_cd_then_list_witness:
  "handle_command demo_fs ''/srv/www'' ''CD pub'' [] = (''pub'', [], False)
   \<and> fst (snd (handle_command demo_fs ''/srv/www'' ''LIST'' ''pub'')) =
       [Opened ''/srv/www/pub'', Stated ''/srv/www/pub/notes'', Sent ''notes'', Sent [NL],
        Stated ''/srv/www/pub/alias'', Link_read ''/srv/www/pub/alias'', Stated ''/srv/www/pub/notes'',
        Sent ''alias'', Sent '' --> '', Sent ''notes'', Sent [NL]]"
proof
  have b: "build_path demo_fs ''/srv/www'' [] ''pub'' = Some ''/srv/www/pub''"
    "realpath demo_fs (''/srv/www/pub'' @ ''/.'') = Some ''/srv/www/pub''"
    by code_simp+
  have n: "\<not> same_nocase ''pub'' ''/''" "\<not> same_nocase ''pub'' ''..''"
    by code_simp+
  note r = lab8_cd_then_list [OF n b(1), of "''pub''", OF _ _ b(2)]
  from r show "handle_command demo_fs ''/srv/www'' ''CD pub'' [] = (''pub'', [], False)" by simp
  have l: "(case readdir demo_fs ''/srv/www/pub'' of None \<Rightarrow> []
      | Some names \<Rightarrow> concat (map (list_entry demo_fs ''/srv/www'' ''pub'' ''/srv/www/pub'') names)) =
      [Stated ''/srv/www/pub/notes'', Sent ''notes'', Sent [NL],
        Stated ''/srv/www/pub/alias'', Link_read ''/srv/www/pub/alias'', Stated ''/srv/www/pub/notes'',
        Sent ''alias'', Sent '' --> '', Sent ''notes'', Sent [NL]]"
    by code_simp
  from r show "fst (snd (handle_command demo_fs ''/srv/www'' ''LIST'' ''pub'')) =
       [Opened ''/srv/www/pub'', Stated ''/srv/www/pub/notes'', Sent ''notes'', Sent [NL],
        Stated ''/srv/www/pub/alias'', Link_read ''/srv/www/pub/alias'', Stated ''/srv/www/pub/notes'',
        Sent ''alias'', Sent '' --> '', Sent ''notes'', Sent [NL]]"
    by (simp add: l)
qed

theorem lab8_sibling_accepted_witness:
  "handle_command demo_fs ''/srv/www'' (''CD '' @ ''../www-old'') [] = (''-old'', [], False)
   \<and> handle_command demo_fs ''/srv/www'' ''LIST'' ''-old'' = (''-old'', [], False)"
proof (rule lab8_sibling_accepted)
  show "realpath demo_fs (''/srv/www'' @ ''/'' @ [] @ ''/'' @ ''../www-old'') = Some (''/srv/www'' @ ''-old'')"
    "realpath demo_fs (''/srv/www'' @ ''/'' @ ''-old'' @ ''/.'') = None"
    by code_simp+
qed (simp_all add: same_nocase_def c_tolower_def)

end
