(* ===== verification/Lab8_Dialog.thy ===== *)
theory Lab8_Dialog
  imports Lab8_Server
begin

section \<open>lab8: the client (lab8/src/client.c) and its dialogue with the server\<close>

text \<open>
  The client sends one line, then prints what the server answers up to a line it takes for the
  prompt. The connection towards the client is the text that was sent and not yet read.
\<close>

subsection \<open>The client\<close>

text \<open>
  \<open>read_line\<close>: a line and the unread text; no line (\<open>recv\<close> waits, or reports the end of the
  connection); or an access behind the end of the 4096 bytes of \<open>out\<close>.
\<close>

datatype line_result = Line string string | No_line | Overflow

fun read_line :: "string \<Rightarrow> string \<Rightarrow> line_result" where
  "read_line out [] = No_line"
| "read_line out (c # s) =
     (if length out \<ge> BUF_SIZE then Overflow
      else if c = NL then Line (cstr out) s
      else read_line (out @ [c]) s)"

definition is_prompt :: "string \<Rightarrow> bool" where
  "is_prompt s \<longleftrightarrow> length s > 0 \<and> s ! (length s - 1) = CHR ''>''"

text \<open>\<open>handle_server\<close>: the prompt, the lines printed (behind \<open>shown\<close>) and the unread text.\<close>

datatype server_reply = Prompted string "string list" string | Bye "string list" | No_reply "string list" | Crashed

lemma read_line_shorter: "read_line out s = Line l rest \<Longrightarrow> length rest < length s"
  by (induction out s rule: read_line.induct) (auto split: if_splits)

function handle_server :: "string list \<Rightarrow> string \<Rightarrow> server_reply" where
  "handle_server shown s =
     (case read_line [] s of
        No_line \<Rightarrow> No_reply shown
      | Overflow \<Rightarrow> Crashed
      | Line l rest \<Rightarrow>
          if is_prompt l then Prompted l shown rest
          else if l = ''BYE'' then Bye (shown @ [l])
          else handle_server (shown @ [l]) rest)"
  by pat_completeness auto
termination
  by (relation "measure (\<lambda>(shown, s). length s)") (auto dest: read_line_shorter)

declare handle_server.simps [simp del]

text \<open>
  The two calls of \<open>send\<close> in \<open>send_cmd\<close>, as the server's calls of \<open>recv\<close> may return them: one by
  one or together.
\<close>

definition send_cmd :: "bool \<Rightarrow> string \<Rightarrow> string list" where
  "send_cmd together cmd = (if together then [cmd @ [NL]] else [cmd, [NL]])"

text \<open>
  The commands that the loop of \<open>main\<close> sends, in their order: the lines of a script that can be
  opened, and the lines of the standard input that do not name one.
\<close>

function script_commands :: "string \<Rightarrow> string list" where
  "script_commands f =
     (case fgets BUF_SIZE f of
        None \<Rightarrow> []
      | Some (buf, rest) \<Rightarrow>
          let line = cut_newline buf in
          if length line = 0 then script_commands rest else line # script_commands rest)"
  by pat_completeness auto
termination
  by (relation "measure length") (auto dest!: fgets_shorter)

function commands :: "(string \<Rightarrow> string option) \<Rightarrow> string \<Rightarrow> string list" where
  "commands files inp =
     (case fgets BUF_SIZE inp of
        None \<Rightarrow> []
      | Some (buf, rest) \<Rightarrow>
          let line = cut_newline buf in
          if line \<noteq> [] \<and> hd line = CHR ''@''
          then (case files (tl line) of
                  None \<Rightarrow> commands files rest
                | Some f \<Rightarrow> script_commands f @ commands files rest)
          else if length line = 0 then commands files rest
          else line # commands files rest)"
  by pat_completeness auto
termination
  by (relation "measure (\<lambda>(files, inp). length inp)") (auto dest!: fgets_shorter)

declare script_commands.simps [simp del] commands.simps [simp del]

subsection \<open>Client and server\<close>

text \<open>The text that a list of events sends.\<close>

fun sent_text :: "event list \<Rightarrow> string" where
  "sent_text [] = []"
| "sent_text (Sent s # evs) = s @ sent_text evs"
| "sent_text (_ # evs) = sent_text evs"

text \<open>The server's thread reads a few chunks; \<open>None\<close> is a thread that has ended.\<close>

fun serve :: "file_system \<Rightarrow> string \<Rightarrow> string option \<Rightarrow> string list \<Rightarrow> string option \<times> event list" where
  "serve fs root (Some cwd) (chunk # chunks) =
     (let (cwd', evs) = handle_recv fs root chunk cwd; (cwd'', evs') = serve fs root cwd' chunks
      in (cwd'', evs @ evs'))"
| "serve fs root cwd _ = (cwd, [])"

text \<open>
  Where the two are: the client at its prompt (with the server's \<open>cwd\<close>, the prompt, the unread
  text and the lines printed so far), ended, waiting for an answer, or crashed.
\<close>

datatype dialog =
    At_prompt "string option" string string "string list"
  | Ended "string list"
  | Waiting "string list"
  | Memory_error

definition read_reply :: "string option \<Rightarrow> string list \<Rightarrow> string \<Rightarrow> dialog" where
  "read_reply cwd shown s =
     (case handle_server shown s of
        Prompted p shown' rest \<Rightarrow> At_prompt cwd p rest shown'
      | Bye shown' \<Rightarrow> Ended shown'
      | No_reply shown' \<Rightarrow> Waiting shown'
      | Crashed \<Rightarrow> Memory_error)"

text \<open>One command: \<open>send_cmd\<close>, the server's answer, \<open>handle_server\<close>.\<close>

definition exchange :: "file_system \<Rightarrow> string \<Rightarrow> dialog \<Rightarrow> bool \<times> string \<Rightarrow> dialog" where
  "exchange fs root d = (\<lambda>(together, cmd).
     (case d of
        At_prompt cwd p unread shown \<Rightarrow>
          let (cwd', evs) = serve fs root cwd (send_cmd together cmd) in
          read_reply cwd' shown (unread @ sent_text evs)
      | _ \<Rightarrow> d))"

text \<open>The greeting.\<close>

definition connected :: dialog where
  "connected = read_reply (Some []) [] (sent_text (handle_info @ prompt []))"

text \<open>
  \<open>main\<close> of the client: the results of \<open>socket\<close>, \<open>gethostbyname\<close> and \<open>connect\<close>, the files that scripts
  name, what the user types, and how the two sends of each command are delivered.
\<close>

definition client_main ::
  "string list \<Rightarrow> int \<Rightarrow> bool \<Rightarrow> int \<Rightarrow> (string \<Rightarrow> string option) \<Rightarrow> string \<Rightarrow> (nat \<Rightarrow> bool) \<Rightarrow>
   file_system \<Rightarrow> string \<Rightarrow> int + dialog" where
  "client_main argv sock host_known connect_result files inp together fs root =
     (if length argv \<noteq> 3 then Inl 1
      else if sock < 0 then Inl 1
      else if \<not> host_known then Inl 1
      else if connect_result < 0 then Inl 1
      else
        let cmds = commands files inp in
        Inr (foldl (exchange fs root) connected (zip (map together [0..<length cmds]) cmds)))"

subsection \<open>Lines\<close>

fun text_lines :: "string \<Rightarrow> string list" where
  "text_lines [] = []"
| "text_lines (c # s) =
     (if c = NL then [] # text_lines s
      else (case text_lines s of [] \<Rightarrow> [[c]] | l # ls \<Rightarrow> (c # l) # ls))"

definition as_text :: "string list \<Rightarrow> string" where
  "as_text ls = concat (map (\<lambda>l. l @ [NL]) ls)"

lemma as_text_simps [simp]: "as_text [] = []" "as_text (l # ls) = l @ NL # as_text ls"
  by (simp_all add: as_text_def)

lemma as_text_lines: "s = [] \<or> last s = NL \<Longrightarrow> as_text (text_lines s) = s"
proof (induction s)
  case Nil
  then show ?case by simp
next
  case (Cons c s)
  then have "as_text (text_lines s) = s" by (cases s) auto
  with Cons.prems show ?case by (cases "c = NL") (auto split: list.splits if_splits)
qed

lemma text_lines_no_newline: "l \<in> set (text_lines s) \<Longrightarrow> NL \<notin> set l"
  by (induction s arbitrary: l rule: text_lines.induct) (auto split: list.splits if_splits)

lemma text_lines_Nil: "text_lines s = [] \<longleftrightarrow> s = []"
  by (cases s) (auto split: list.splits)

lemma text_lines_last:
  "c \<noteq> NL \<Longrightarrow> text_lines (s @ [c, NL]) \<noteq> [] \<and> (\<exists>l. last (text_lines (s @ [c, NL])) = l @ [c])"
proof (induction s)
  case Nil
  then show ?case by simp
next
  case (Cons d s)
  then show ?case by (cases "text_lines (s @ [c, NL])") (auto split: list.splits)
qed

lemma is_prompt_last: "is_prompt (l @ [c]) \<longleftrightarrow> c = CHR ''>''"
  by (simp add: is_prompt_def)


text \<open>Lines that the client prints and goes on reading, and prompts.\<close>

definition calm_line :: "string \<Rightarrow> bool" where
  "calm_line l \<longleftrightarrow> NUL \<notin> set l \<and> length l < BUF_SIZE \<and> \<not> is_prompt l \<and> l \<noteq> ''BYE''"

definition prompt_line :: "string \<Rightarrow> bool" where
  "prompt_line l \<longleftrightarrow> NUL \<notin> set l \<and> length l < BUF_SIZE \<and> is_prompt l"

lemma read_line_text:
  "NL \<notin> set l \<Longrightarrow> length out + length l < BUF_SIZE \<Longrightarrow>
   read_line out (l @ NL # rest) = Line (cstr (out @ l)) rest"
  by (induction l arbitrary: out) auto

lemma read_line_whole:
  "NL \<notin> set l \<Longrightarrow> NUL \<notin> set l \<Longrightarrow> length l < BUF_SIZE \<Longrightarrow> read_line [] (l @ NL # rest) = Line l rest"
  using read_line_text [of l "[]" rest] cstr_no_nul [of l] by simp

lemma handle_server_prompt:
  "NL \<notin> set p \<Longrightarrow> prompt_line p \<Longrightarrow> handle_server shown (p @ NL # rest) = Prompted p shown rest"
  by (subst handle_server.simps) (simp add: read_line_whole prompt_line_def)

lemma handle_server_lines:
  assumes "\<forall>l \<in> set ls. NL \<notin> set l \<and> calm_line l" "NL \<notin> set p" "prompt_line p"
  shows "handle_server shown (as_text (ls @ [p]) @ rest) = Prompted p (shown @ ls) rest"
  using assms(1)
proof (induction ls arbitrary: shown)
  case Nil
  then show ?case using assms by (simp add: handle_server_prompt)
next
  case (Cons l ls)
  then have "read_line [] (l @ NL # as_text (ls @ [p]) @ rest) = Line l (as_text (ls @ [p]) @ rest)"
    by (intro read_line_whole) (auto simp: calm_line_def)
  with Cons show ?case by (subst handle_server.simps) (simp add: calm_line_def)
qed

lemma handle_server_nothing: "handle_server shown [] = No_reply shown"
  by (subst handle_server.simps) simp

subsection \<open>What the server answers\<close>

lemma sent_text_append [simp]: "sent_text (evs @ evs') = sent_text evs @ sent_text evs'"
  by (induction evs rule: sent_text.induct) auto

lemma sent_text_prompt: "sent_text (prompt cwd) = cwd @ [CHR ''>'', NL]"
  by (simp add: prompt_def)

lemma cut_newline_line: "NL \<notin> set cmd \<Longrightarrow> cut_newline (cmd @ [NL]) = cut_newline cmd"
proof -
  assume nl: "NL \<notin> set cmd"
  have "takeWhile (\<lambda>c. c \<noteq> NL) (takeWhile (\<lambda>c. c \<noteq> NUL) (cmd @ [NL])) =
      takeWhile (\<lambda>c. c \<noteq> NL) (takeWhile (\<lambda>c. c \<noteq> NUL) cmd)"
    using nl by (induction cmd) auto
  then show ?thesis by (simp add: cut_newline_def cstr_def)
qed

lemma recv_newline: "handle_recv fs root [NL] cwd = (Some cwd, [])"
  by (simp add: handle_recv_def cut_newline_def cstr_def trim_def)

text \<open>However the two sends arrive, the server handles the command once.\<close>

lemma serve_send_cmd:
  assumes "NL \<notin> set cmd" "cmd \<noteq> []"
  shows "serve fs root (Some cwd) (send_cmd together cmd) = handle_recv fs root cmd cwd"
proof -
  have "handle_recv fs root (cmd @ [NL]) cwd = handle_recv fs root cmd cwd"
    using assms by (simp add: handle_recv_def cut_newline_line)
  then show ?thesis
    by (cases "handle_recv fs root cmd cwd"; cases "fst (handle_recv fs root cmd cwd)")
      (auto simp: send_cmd_def recv_newline)
qed

lemma recv_reply_ends:
  assumes "handle_recv fs root cmd cwd = (Some cwd', evs)" "trim (cut_newline cmd) \<noteq> []" "cmd \<noteq> []"
  shows "\<exists>evs'. evs = evs' @ prompt cwd'"
  using assms by (auto simp: handle_recv_def Let_def split: prod.splits if_splits)

lemma reply_text:
  assumes "handle_recv fs root cmd cwd = (Some cwd', evs)" "trim (cut_newline cmd) \<noteq> []" "cmd \<noteq> []"
  defines "ls \<equiv> text_lines (sent_text evs)"
  shows "sent_text evs = as_text (butlast ls @ [last ls])" "is_prompt (last ls)" "ls \<noteq> []"
proof -
  obtain evs' where "evs = evs' @ prompt cwd'" using recv_reply_ends [OF assms(1-3)] by blast
  then obtain t where t: "sent_text evs = t @ [CHR ''>'', NL]" by (simp add: sent_text_prompt)
  show ne: "ls \<noteq> []" "is_prompt (last ls)"
    using text_lines_last [of "CHR ''>''" t] by (auto simp: ls_def t is_prompt_last)
  have "as_text ls = sent_text evs" unfolding ls_def by (rule as_text_lines) (simp add: t)
  with ne show "sent_text evs = as_text (butlast ls @ [last ls])" by simp
qed

text \<open>
  The specification: a command maps the server's directory to the new one, the lines of its
  answer and the prompt. It does not mention the connection.
\<close>

definition remote :: "file_system \<Rightarrow> string \<Rightarrow> string \<Rightarrow> string \<Rightarrow> string option \<times> string list \<times> string" where
  "remote fs root cwd cmd =
     (let (cwd', evs) = handle_recv fs root cmd cwd; ls = text_lines (sent_text evs)
      in (cwd', butlast ls, last ls))"

text \<open>The commands, run one after the other, give answers the client can read.\<close>

fun readable :: "file_system \<Rightarrow> string \<Rightarrow> string \<Rightarrow> string list \<Rightarrow> bool" where
  "readable fs root cwd [] = True"
| "readable fs root cwd (cmd # cmds) =
     (NL \<notin> set cmd \<and> trim (cut_newline cmd) \<noteq> [] \<and>
      (case remote fs root cwd cmd of
         (None, _) \<Rightarrow> False
       | (Some cwd', ls, p) \<Rightarrow>
           (\<forall>l \<in> set ls. calm_line l) \<and> prompt_line p \<and> readable fs root cwd' cmds))"

fun remote_run :: "file_system \<Rightarrow> string \<Rightarrow> string \<times> string \<Rightarrow> string list \<Rightarrow> (string \<times> string) \<times> string list" where
  "remote_run fs root (cwd, p) [] = ((cwd, p), [])"
| "remote_run fs root (cwd, p) (cmd # cmds) =
     (let (cwd', ls, p') = remote fs root cwd cmd; (end_state, lss) = remote_run fs root (the cwd', p') cmds
      in (end_state, ls @ lss))"

lemma exchange_readable:
  assumes "readable fs root cwd [cmd]"
  shows "\<exists>cwd' ls p'. remote fs root cwd cmd = (Some cwd', ls, p')
    \<and> exchange fs root (At_prompt (Some cwd) p [] shown) (together, cmd) = At_prompt (Some cwd') p' [] (shown @ ls)"
proof -
  from assms have cmd: "NL \<notin> set cmd" "trim (cut_newline cmd) \<noteq> []" by auto
  then have ne: "cmd \<noteq> []" by (auto simp: cut_newline_def cstr_def trim_def)
  obtain c evs where r: "handle_recv fs root cmd cwd = (c, evs)" by fastforce
  define ls where "ls = text_lines (sent_text evs)"
  from r have rem: "remote fs root cwd cmd = (c, butlast ls, last ls)" by (simp add: remote_def ls_def Let_def)
  with assms obtain cwd' where c: "c = Some cwd'" by (cases c) auto
  with assms rem have calm: "\<forall>l \<in> set (butlast ls). calm_line l" "prompt_line (last ls)" by auto
  note t = reply_text [OF r [unfolded c] cmd(2) ne, folded ls_def]
  have nl: "\<forall>l \<in> set (butlast ls). NL \<notin> set l" "NL \<notin> set (last ls)"
    using text_lines_no_newline [of _ "sent_text evs"] t(3) by (auto simp: ls_def dest: in_set_butlastD)
  have "handle_server shown (sent_text evs) = Prompted (last ls) (shown @ butlast ls) []"
    using handle_server_lines [of "butlast ls" "last ls" shown "[]"] calm nl t(1) by simp
  then have "exchange fs root (At_prompt (Some cwd) p [] shown) (together, cmd)
      = At_prompt (Some cwd') (last ls) [] (shown @ butlast ls)"
    using serve_send_cmd [OF cmd(1) ne, of fs root cwd together] r c
    by (simp add: exchange_def read_reply_def)
  with rem c show ?thesis by blast
qed

text \<open>
  As long as no answer contains a line that the client mistakes for a prompt or for \<open>BYE\<close> (nor one
  that is too long for it), the client prints the lines of the answers and nothing is left unread.
\<close>

lemma dialog_in_sync:
  assumes "readable fs root cwd (map snd cmds)"
    and "remote_run fs root (cwd, p) (map snd cmds) = ((cwd', p'), answers)"
  shows "foldl (exchange fs root) (At_prompt (Some cwd) p [] shown) cmds =
    At_prompt (Some cwd') p' [] (shown @ answers)"
  using assms
proof (induction cmds arbitrary: cwd p shown answers)
  case Nil
  then show ?case by simp
next
  case (Cons c cmds)
  obtain together cmd where c: "c = (together, cmd)" by fastforce
  obtain d ls q where r: "remote fs root cwd cmd = (Some d, ls, q)"
    and e: "exchange fs root (At_prompt (Some cwd) p [] shown) c = At_prompt (Some d) q [] (shown @ ls)"
    using exchange_readable [of fs root cwd cmd p shown together] Cons.prems(1)
    by (auto simp: c split: prod.splits option.splits)
  obtain es lss where rr: "remote_run fs root (d, q) (map snd cmds) = (es, lss)" by fastforce
  with Cons.prems(2) r have "es = (cwd', p')" "answers = ls @ lss" by (auto simp: c)
  with Cons.IH [of d q lss "shown @ ls"] Cons.prems(1) r e rr show ?case by (simp add: c)
qed


text \<open>The greeting.\<close>

definition hello :: string where
  "hello = ''Hello from '' @ [CHR 0x27] @ ''myserver'' @ [CHR 0x27]"

lemma connected_hello: "connected = At_prompt (Some []) ''>'' [] [hello]"
  by code_simp


subsection \<open>Where the dialogue fails\<close>

text \<open>
  A command of blanks only, which the client sends because its line is not empty, gets no answer,
  not even a prompt: the client waits in \<open>handle_server\<close> for ever, whatever the user types next.
\<close>

theorem lab8_blank_command_blocks:
  assumes "cmd \<noteq> []" "\<forall>c \<in> set cmd. c = CHR '' '' \<or> c = CHR 0x09"
  shows "foldl (exchange fs root) (At_prompt (Some cwd) p [] shown) ((together, cmd) # cmds) = Waiting shown"
proof -
  have "c_isspace (CHR '' '')" "c_isspace (CHR 0x09)" by (simp_all add: c_isspace_def)
  with assms(2) have sp: "\<forall>c \<in> set cmd. c_isspace c" by metis
  have nl: "NL \<notin> set cmd"
  proof
    assume "NL \<in> set cmd"
    with assms(2) have "NL = CHR '' '' \<or> NL = CHR 0x09" by (rule bspec)
    then show False by simp
  qed
  have "\<forall>c \<in> set (cut_newline cmd). c_isspace c"
  proof
    fix c assume "c \<in> set (cut_newline cmd)"
    then have "c \<in> set cmd" unfolding cut_newline_def cstr_def by (metis set_takeWhileD)
    with sp show "c_isspace c" by (rule bspec)
  qed
  then have d: "dropWhile c_isspace (cut_newline cmd) = []" by (simp only: dropWhile_eq_Nil_conv)
  have "trim (cut_newline cmd) = []" unfolding trim_def d by simp
  then have "handle_recv fs root cmd cwd = (Some cwd, [])"
    using assms(1) by (simp add: handle_recv_def)
  then have e: "exchange fs root (At_prompt (Some cwd) p [] shown) (together, cmd) = Waiting shown"
    using serve_send_cmd [OF nl assms(1), of fs root cwd together]
    by (simp add: exchange_def read_reply_def handle_server_nothing)
  have "foldl (exchange fs root) (Waiting shown) cmds = Waiting shown"
    by (induction cmds) (auto simp: exchange_def)
  with e show ?thesis by simp
qed

lemma trim_id: "s \<noteq> [] \<Longrightarrow> \<not> c_isspace (hd s) \<Longrightarrow> \<not> c_isspace (last s) \<Longrightarrow> trim s = s"
proof -
  assume a: "s \<noteq> []" "\<not> c_isspace (hd s)" "\<not> c_isspace (last s)"
  then obtain c r where s: "s = c # r" by (cases s) auto
  with a have "dropWhile c_isspace (rev r) = rev r" by (cases r rule: rev_cases) auto
  with a s show ?thesis by (simp add: trim_def)
qed

lemma recv_echo:
  assumes "NL \<notin> set arg" "NUL \<notin> set arg" "arg \<noteq> []" "\<not> c_isspace (last arg)"
  shows "handle_recv fs root (''ECHO '' @ arg) cwd = (Some cwd, [Sent arg, Sent [NL]] @ prompt cwd)"
proof -
  have "cut_newline (''ECHO '' @ arg) = ''ECHO '' @ arg"
    using assms(1,2) by (simp add: cut_newline_def cstr_no_nul takeWhile_eq_all_conv) metis
  moreover have "trim (''ECHO '' @ arg) = ''ECHO '' @ arg"
    by (rule trim_id) (use assms(3,4) in \<open>auto simp: c_isspace_def\<close>)
  moreover have "starts_nocase (''ECHO '' @ arg) ''ECHO ''" by (rule starts_nocase_append)
  ultimately show ?thesis by (simp add: handle_recv_def handle_command_def handle_echo_def)
qed

text \<open>
  An echoed text that ends in \<open>>\<close> is taken for the prompt. The server's own prompt is then the
  answer to the next command, whose real answer stays unread: the client is one answer behind.
\<close>

theorem lab8_echo_desynchronises:
  assumes arg: "NL \<notin> set x" "NUL \<notin> set x" "length x < BUF_SIZE - 1"
    and cwd: "NL \<notin> set cwd" "NUL \<notin> set cwd" "length cwd < BUF_SIZE - 1"
    and cmd: "NL \<notin> set cmd" "cmd \<noteq> []"
    and reply: "handle_recv fs root cmd cwd = (cwd', evs)"
  shows "exchange fs root (At_prompt (Some cwd) p [] shown) (t1, ''ECHO '' @ x @ ''>'') =
      At_prompt (Some cwd) (x @ ''>'') (cwd @ [CHR ''>'', NL]) shown
    \<and> exchange fs root (At_prompt (Some cwd) (x @ ''>'') (cwd @ [CHR ''>'', NL]) shown) (t2, cmd) =
      At_prompt cwd' (cwd @ ''>'') (sent_text evs) shown"
proof
  have r: "handle_recv fs root (''ECHO '' @ x @ ''>'') cwd = (Some cwd, [Sent (x @ ''>''), Sent [NL]] @ prompt cwd)"
    by (rule recv_echo) (use arg in \<open>auto simp: c_isspace_def\<close>)
  have n: "NL \<notin> set (''ECHO '' @ x @ ''>'')" using arg by auto
  have "handle_server shown ((x @ ''>'') @ NL # rest) = Prompted (x @ ''>'') shown rest" for rest
    by (rule handle_server_prompt) (use arg in \<open>auto simp: prompt_line_def is_prompt_last\<close>)
  then show "exchange fs root (At_prompt (Some cwd) p [] shown) (t1, ''ECHO '' @ x @ ''>'') =
      At_prompt (Some cwd) (x @ ''>'') (cwd @ [CHR ''>'', NL]) shown"
    using serve_send_cmd [OF n, of fs root cwd t1] r
    by (simp add: exchange_def read_reply_def sent_text_prompt)
next
  have "handle_server shown ((cwd @ ''>'') @ NL # rest) = Prompted (cwd @ ''>'') shown rest" for rest
    by (rule handle_server_prompt) (use cwd in \<open>auto simp: prompt_line_def is_prompt_last\<close>)
  then show "exchange fs root (At_prompt (Some cwd) (x @ ''>'') (cwd @ [CHR ''>'', NL]) shown) (t2, cmd) =
      At_prompt cwd' (cwd @ ''>'') (sent_text evs) shown"
    using serve_send_cmd [OF cmd, of fs root cwd t2] reply
    by (simp add: exchange_def read_reply_def)
qed

subsection \<open>Witnesses\<close>

text \<open>A line of more than 4096 characters is written behind the end of the client's buffer.\<close>

lemma read_line_overflow:
  "NL \<notin> set line \<Longrightarrow> BUF_SIZE < length out + length line \<Longrightarrow> length out \<le> BUF_SIZE \<Longrightarrow>
   read_line out (line @ s) = Overflow"
proof (induction line arbitrary: out)
  case (Cons c line)
  then show ?case by (cases "length out = BUF_SIZE") auto
qed simp

theorem lab8_long_line_crashes:
  assumes "NL \<notin> set line" "BUF_SIZE < length line"
  shows "handle_server shown (line @ s) = Crashed"
  using read_line_overflow [of line "[]" s] assms by (subst handle_server.simps) simp

definition demo_input :: string where
  "demo_input = ''@script'' @ [NL] @ ''echo hi'' @ [NL, NL] @ ''list''"

definition demo_scripts :: "string \<Rightarrow> string option" where
  "demo_scripts f = (if f = ''script'' then Some (''info'' @ [NL, NL] @ ''cd pub'' @ [NL]) else None)"

lemma demo_commands: "commands demo_scripts demo_input = [''info'', ''cd pub'', ''echo hi'', ''list'']"
  by code_simp

lemma demo_remote:
  "remote_run demo_fs ''/srv/www'' ([], ''>'') [''info'', ''cd pub'', ''echo hi'', ''list''] =
    ((''pub'', ''pub>''), [hello, ''hi'', ''notes'', ''alias --> notes''])"
  by code_simp

lemma demo_readable: "readable demo_fs ''/srv/www'' [] [''info'', ''cd pub'', ''echo hi'', ''list'']"
  by code_simp


theorem lab8_blank_command_blocks_witness:
  "foldl (exchange demo_fs ''/srv/www'') (At_prompt (Some []) ''>'' [] []) [(True, ''  ''), (True, ''LIST'')] =
    Waiting []"
  by (rule lab8_blank_command_blocks) simp_all

theorem lab8_echo_desynchronises_witness:
  "exchange demo_fs ''/srv/www'' (At_prompt (Some []) ''>'' [] []) (True, ''ECHO '' @ ''x'' @ ''>'') =
    At_prompt (Some []) (''x'' @ ''>'') ([] @ [CHR ''>'', NL]) []
   \<and> exchange demo_fs ''/srv/www'' (At_prompt (Some []) (''x'' @ ''>'') ([] @ [CHR ''>'', NL]) []) (True, ''ECHO a'') =
    At_prompt (Some []) ([] @ ''>'') (sent_text ([Sent ''a'', Sent [NL]] @ prompt [])) []"
proof (rule lab8_echo_desynchronises)
  show "handle_recv demo_fs ''/srv/www'' ''ECHO a'' [] = (Some [], [Sent ''a'', Sent [NL]] @ prompt [])"
    by code_simp
qed simp_all

end
