(* ===== verification/Lab8_Clients.thy ===== *)
theory Lab8_Clients
  imports Lab8_Server
begin

section \<open>lab8: the server with several clients (lab8/src/server.c)\<close>

text \<open>
  \<open>main\<close> accepts connections and starts a detached thread for each; the threads share nothing but
  the process. A thread executes its events one at a time, interleaved with the others in any
  order; what the events are is \<open>handle_recv\<close> of \<open>Lab8_Server\<close>. Clients come, send and go as they
  like. A thread that goes on sending to a client that has gone gets SIGPIPE, which nobody
  handles: \<open>send\<close> is called without \<open>MSG_NOSIGNAL\<close>, so the whole process ends.
\<close>

text \<open>
  \<open>client_args_t\<close> and the locals of \<open>client_thread\<close>: \<open>c_todo\<close> holds the events in front of the next
  call of \<open>recv\<close>, \<open>c_past\<close> those behind, \<open>c_recv\<close> the results of \<open>recv\<close> so far; \<open>c_ended\<close> means
  that the loop has been left, \<open>c_gone\<close> that the client has closed its end and \<open>c_reset\<close> that
  something has been sent to it since: TCP answers that with a reset, and the next \<open>send\<close> raises
  SIGPIPE once the reset has arrived.
\<close>

record connection =
  c_fd :: int
  c_root :: string
  c_cwd :: string
  c_todo :: "event list"
  c_past :: "event list"
  c_recv :: "string list"
  c_ended :: bool
  c_closed :: bool
  c_gone :: bool
  c_reset :: bool

record server =
  s_root :: string
  s_conns :: "connection list"
  s_alive :: bool

definition greeting :: "event list" where
  "greeting = handle_info @ [Sent (''>'' @ [NL])]"

text \<open>One pass of the loop of \<open>main\<close>: \<open>fd\<close> is what \<open>accept\<close> returned.\<close>

definition accept_client :: "int \<Rightarrow> server \<Rightarrow> server" where
  "accept_client fd s =
     (if fd < 0 then s
      else s\<lparr>s_conns := s_conns s @
        [\<lparr>c_fd = fd, c_root = s_root s, c_cwd = [], c_todo = greeting, c_past = [], c_recv = [],
          c_ended = False, c_closed = False, c_gone = False, c_reset = False\<rparr>]\<rparr>)"

text \<open>\<open>recv\<close> returns \<open>chunk\<close> (an empty one at the end of the connection) and the thread goes on.\<close>

definition receive_chunk :: "file_system \<Rightarrow> string \<Rightarrow> connection \<Rightarrow> connection" where
  "receive_chunk fs chunk c =
     (case handle_recv fs (c_root c) chunk (c_cwd c) of
        (None, evs) \<Rightarrow> c\<lparr>c_recv := c_recv c @ [chunk], c_todo := evs, c_ended := True\<rparr>
      | (Some cwd', evs) \<Rightarrow> c\<lparr>c_recv := c_recv c @ [chunk], c_todo := evs, c_cwd := cwd'\<rparr>)"

fun is_send :: "event \<Rightarrow> bool" where
  "is_send (Sent str) = True"
| "is_send _ = False"

definition do_event :: "connection \<Rightarrow> connection" where
  "do_event c = c\<lparr>c_past := c_past c @ [hd (c_todo c)], c_todo := tl (c_todo c),
     c_reset := c_reset c \<or> (c_gone c \<and> is_send (hd (c_todo c)))\<rparr>"

definition on_conn :: "nat \<Rightarrow> (connection \<Rightarrow> connection) \<Rightarrow> server \<Rightarrow> server" where
  "on_conn i f s = s\<lparr>s_conns := (s_conns s)[i := f (s_conns s ! i)]\<rparr>"

inductive server_step :: "file_system \<Rightarrow> server \<Rightarrow> server \<Rightarrow> bool" for fs where
  accept: "s_alive s \<Longrightarrow> server_step fs s (accept_client fd s)"
| event: "s_alive s \<Longrightarrow> i < length (s_conns s) \<Longrightarrow> c_todo (s_conns s ! i) \<noteq> [] \<Longrightarrow>
     server_step fs s (on_conn i do_event s)"
| recv: "s_alive s \<Longrightarrow> i < length (s_conns s) \<Longrightarrow> c_todo (s_conns s ! i) = [] \<Longrightarrow>
     \<not> c_ended (s_conns s ! i) \<Longrightarrow> (chunk = [] \<longrightarrow> c_gone (s_conns s ! i)) \<Longrightarrow> length chunk < BUF_SIZE \<Longrightarrow>
     server_step fs s (on_conn i (receive_chunk fs chunk) s)"
| close: "s_alive s \<Longrightarrow> i < length (s_conns s) \<Longrightarrow> c_todo (s_conns s ! i) = [] \<Longrightarrow> c_ended (s_conns s ! i) \<Longrightarrow>
     server_step fs s (on_conn i (\<lambda>c. c\<lparr>c_closed := True\<rparr>) s)"
| client_gone: "s_alive s \<Longrightarrow> i < length (s_conns s) \<Longrightarrow>
     server_step fs s (on_conn i (\<lambda>c. c\<lparr>c_gone := True\<rparr>) s)"
| sigpipe: "s_alive s \<Longrightarrow> i < length (s_conns s) \<Longrightarrow> c_reset (s_conns s ! i) \<Longrightarrow>
     c_todo (s_conns s ! i) = Sent str # evs \<Longrightarrow> server_step fs s (s\<lparr>s_alive := False\<rparr>)"

text \<open>What \<open>main\<close> has set up before its loop.\<close>

definition listening :: "file_system \<Rightarrow> string list \<Rightarrow> server \<Rightarrow> bool" where
  "listening fs argv s \<longleftrightarrow> (\<exists>fd b l. server_main fs argv fd b l [] = Inr [])
     \<and> realpath fs (argv ! 1) = Some (s_root s) \<and> s_conns s = [] \<and> s_alive s"

subsection \<open>One client's thread\<close>

text \<open>Where the loop of a client's thread is after it has received some chunks.\<close>

fun after_chunks :: "file_system \<Rightarrow> string \<Rightarrow> string \<Rightarrow> string list \<Rightarrow> string option \<times> event list" where
  "after_chunks fs root cwd [] = (Some cwd, [])"
| "after_chunks fs root cwd (chunk # chunks) =
     (case handle_recv fs root chunk cwd of
        (None, evs) \<Rightarrow> (None, evs)
      | (Some cwd', evs) \<Rightarrow> (let (st, evs') = after_chunks fs root cwd' chunks in (st, evs @ evs')))"

lemma after_chunks_loop: "snd (after_chunks fs root cwd chunks) = client_loop fs root cwd chunks"
proof (induction chunks arbitrary: cwd)
  case (Cons chunk chunks)
  obtain st evs where h: "handle_recv fs root chunk cwd = (st, evs)" by fastforce
  show ?case
  proof (cases st)
    case (Some cwd')
    with h Cons [of cwd'] show ?thesis by (simp add: split_beta Let_def)
  qed (simp add: h)
qed simp

lemma after_chunks_snoc:
  "after_chunks fs root cwd (chunks @ [chunk]) =
     (case after_chunks fs root cwd chunks of
        (None, evs) \<Rightarrow> (None, evs)
      | (Some cwd', evs) \<Rightarrow> (let (st, evs') = handle_recv fs root chunk cwd' in (st, evs @ evs')))"
proof (induction chunks arbitrary: cwd)
  case Nil
  then show ?case by (auto split: prod.splits option.splits)
next
  case (Cons c chunks)
  obtain st evs where h: "handle_recv fs root c cwd = (st, evs)" by fastforce
  show ?case
  proof (cases st)
    case None
    with h show ?thesis by simp
  next
    case (Some cwd')
    with h Cons.IH [of cwd'] show ?thesis by (auto simp: Let_def split: prod.splits option.splits)
  qed
qed

definition conn_ok :: "file_system \<Rightarrow> string \<Rightarrow> connection \<Rightarrow> bool" where
  "conn_ok fs root c \<longleftrightarrow> c_root c = root
     \<and> (\<exists>st evs. after_chunks fs root [] (c_recv c) = (st, evs) \<and> c_past c @ c_todo c = greeting @ evs
          \<and> (c_ended c \<longleftrightarrow> st = None) \<and> (st \<noteq> None \<longrightarrow> st = Some (c_cwd c)))"

definition server_inv :: "file_system \<Rightarrow> string \<Rightarrow> server \<Rightarrow> bool" where
  "server_inv fs root s \<longleftrightarrow> s_root s = root \<and> (\<forall>c \<in> set (s_conns s). conn_ok fs root c)"

lemma conn_ok_recv:
  assumes "conn_ok fs root c" "c_todo c = []" "\<not> c_ended c"
  shows "conn_ok fs root (receive_chunk fs chunk c)"
proof -
  from assms have a: "after_chunks fs root [] (c_recv c) = (Some (c_cwd c), snd (after_chunks fs root [] (c_recv c)))"
    "c_past c = greeting @ snd (after_chunks fs root [] (c_recv c))" "c_root c = root"
    by (auto simp: conn_ok_def)
  obtain st evs where h: "handle_recv fs root chunk (c_cwd c) = (st, evs)" by fastforce
  have "after_chunks fs root [] (c_recv c @ [chunk]) = (st, snd (after_chunks fs root [] (c_recv c)) @ evs)"
    unfolding after_chunks_snoc by (subst a(1)) (simp add: h)
  with h a assms(3) show ?thesis by (cases st) (simp_all add: conn_ok_def receive_chunk_def)
qed

lemma conn_ok_event: "conn_ok fs root c \<Longrightarrow> c_todo c \<noteq> [] \<Longrightarrow> conn_ok fs root (do_event c)"
  by (cases "c_todo c") (auto simp: conn_ok_def do_event_def)

lemma server_inv_conn:
  assumes "server_inv fs root s" "i < length (s_conns s)"
    and "conn_ok fs root (s_conns s ! i) \<Longrightarrow> conn_ok fs root (f (s_conns s ! i))"
  shows "server_inv fs root (on_conn i f s)"
proof -
  have "conn_ok fs root (f (s_conns s ! i))" using assms by (simp add: server_inv_def)
  with assms(1) set_update_subset_insert [of "s_conns s" i "f (s_conns s ! i)"] show ?thesis
    by (auto simp: server_inv_def on_conn_def)
qed

lemma server_step_inv:
  assumes inv: "server_inv fs root s" and step: "server_step fs s t"
  shows "server_inv fs root t"
  using step
proof cases
  case (accept fd)
  with inv show ?thesis by (auto simp: server_inv_def accept_client_def conn_ok_def)
next
  case (event i)
  with server_inv_conn [OF inv event(3)] conn_ok_event show ?thesis by blast
next
  case (recv i chunk)
  with server_inv_conn [OF inv recv(3)] conn_ok_recv show ?thesis by blast
next
  case (close i)
  have "conn_ok fs root (s_conns s ! i) \<Longrightarrow> conn_ok fs root ((s_conns s ! i)\<lparr>c_closed := True\<rparr>)"
    by (simp add: conn_ok_def)
  from server_inv_conn [OF inv close(3), of "\<lambda>c. c\<lparr>c_closed := True\<rparr>", OF this] close(1) show ?thesis by simp
next
  case (client_gone i)
  have "conn_ok fs root (s_conns s ! i) \<Longrightarrow> conn_ok fs root ((s_conns s ! i)\<lparr>c_gone := True\<rparr>)"
    by (simp add: conn_ok_def)
  from server_inv_conn [OF inv client_gone(3), of "\<lambda>c. c\<lparr>c_gone := True\<rparr>", OF this] client_gone(1) show ?thesis by simp
next
  case (sigpipe i str evs)
  with inv show ?thesis by (simp add: server_inv_def)
qed

interpretation serving: invariant_system "listening fs argv" "server_step fs"
    "server_inv fs (the (realpath fs (argv ! 1)))" for fs argv
proof
  show "listening fs argv s \<Longrightarrow> server_inv fs (the (realpath fs (argv ! 1))) s" for s
    by (auto simp: listening_def server_inv_def)
qed (rule server_step_inv)


text \<open>
  But any client can end the server for all. In every server that listens, a client that
  connects and goes away before the greeting lets its thread's second \<open>send\<close> raise SIGPIPE: the
  process ends, and with it the thread of another client that has done nothing but connect.
\<close>

theorem lab8_sigpipe_ends_all:
  assumes "listening fs argv s0"
  shows "\<exists>s. steps (server_step fs) s0 s \<and> \<not> s_alive s \<and> length (s_conns s) = 2
    \<and> \<not> c_gone (s_conns s ! 0) \<and> c_todo (s_conns s ! 0) = greeting \<and> (\<forall>t. \<not> server_step fs s t)"
proof -
  let ?s2 = "accept_client 5 (accept_client 4 s0)"
  let ?s4 = "on_conn 1 do_event (on_conn 1 (\<lambda>c. c\<lparr>c_gone := True\<rparr>) ?s2)"
  let ?s5 = "?s4\<lparr>s_alive := False\<rparr>"
  note defs = accept_client_def on_conn_def do_event_def greeting_def handle_info_def
  have a: "s_alive s0" "s_conns s0 = []" using assms by (auto simp: listening_def)
  have "steps (server_step fs) s0 (accept_client 4 s0)"
    using a(1) by (intro steps_single server_step.accept)
  then have "steps (server_step fs) s0 ?s2"
    by (rule steps_snoc) (rule server_step.accept, simp add: a defs)
  then have "steps (server_step fs) s0 (on_conn 1 (\<lambda>c. c\<lparr>c_gone := True\<rparr>) ?s2)"
    by (rule steps_snoc) (rule server_step.client_gone, simp_all add: a defs)
  then have "steps (server_step fs) s0 ?s4"
    by (rule steps_snoc) (rule server_step.event, simp_all add: a defs)
  then have "steps (server_step fs) s0 ?s5"
    by (rule steps_snoc) (rule server_step.sigpipe [where i = 1], simp_all add: a defs)
  moreover have "\<not> server_step fs ?s5 t" for t
    by (auto elim: server_step.cases)
  ultimately show ?thesis
    by (intro exI [of _ ?s5]) (simp add: a defs)
qed

subsection \<open>A server to look at\<close>

definition demo_server :: server where
  "demo_server = \<lparr>s_root = ''/srv/www'', s_conns = [], s_alive = True\<rparr>"

lemma demo_listening: "listening demo_fs [''server'', ''/srv/www'', ''80''] demo_server"
proof -
  have "server_main demo_fs [''server'', ''/srv/www'', ''80''] 3 0 0 [] = Inr []"
    by code_simp
  moreover have "realpath demo_fs ''/srv/www'' = Some ''/srv/www''"
    by code_simp
  ultimately show ?thesis
    unfolding listening_def by (auto simp: demo_server_def)
qed

text \<open>Two clients have connected; the second has been greeted and has sent a command.\<close>

definition demo_served :: server where
  "demo_served =
     on_conn 1 (receive_chunk demo_fs (''cd pub'' @ [NL]))
      (on_conn 1 do_event (on_conn 1 do_event (accept_client 5 (accept_client 4 demo_server))))"

lemma demo_served_reached: "steps (server_step demo_fs) demo_server demo_served"
proof -
  note defs = demo_server_def accept_client_def on_conn_def do_event_def greeting_def handle_info_def
  let ?s2 = "accept_client 5 (accept_client 4 demo_server)"
  have "steps (server_step demo_fs) demo_server (accept_client 4 demo_server)"
    by (intro steps_single server_step.accept) (simp add: defs)
  then have "steps (server_step demo_fs) demo_server ?s2"
    by (rule steps_snoc) (rule server_step.accept, simp add: defs)
  then have "steps (server_step demo_fs) demo_server (on_conn 1 do_event ?s2)"
    by (rule steps_snoc) (rule server_step.event, simp_all add: defs)
  then have "steps (server_step demo_fs) demo_server (on_conn 1 do_event (on_conn 1 do_event ?s2))"
    by (rule steps_snoc) (rule server_step.event, simp_all add: defs)
  then show ?thesis
    unfolding demo_served_def
    by (rule steps_snoc) (rule server_step.recv, simp_all add: defs)
qed


theorem lab8_sigpipe_ends_all_witness:
  "\<exists>s. steps (server_step demo_fs) demo_server s \<and> \<not> s_alive s \<and> length (s_conns s) = 2
    \<and> \<not> c_gone (s_conns s ! 0) \<and> c_todo (s_conns s ! 0) = greeting
    \<and> (\<forall>t. \<not> server_step demo_fs s t)"
  by (rule lab8_sigpipe_ends_all [OF demo_listening])

end
