(* ===== verification/Lab1_Dirwalk.thy ===== *)
theory Lab1_Dirwalk
  imports File_System "HOL-Library.Multiset"
begin

section \<open>lab1: walking a directory tree (lab1/src/lab1.c)\<close>

text \<open>
  \<open>dirwalk\<close> appends the paths it selects to the array \<open>files\<close>, whose length is the counter.
  Whether its recursion ends depends on the file system, hence the fuel: \<open>None\<close> when it is used
  up. Out of memory (\<open>strdup\<close>) is not modelled. \<open>getopt\<close> is modelled by the options it returns, one
  per call, and the first operand; \<open>strcoll\<close> and \<open>qsort\<close> are parameters.
\<close>

abbreviation (input) MAX_FILES :: nat where "MAX_FILES \<equiv> 10000"

record flags =
  sort_output :: bool
  show_links :: bool
  show_dirs :: bool
  show_files :: bool

definition match_type :: "flags \<Rightarrow> file_kind \<Rightarrow> bool" where
  "match_type fl k =
     (if show_links fl \<and> k = Is_link \<or> show_dirs fl \<and> k = Is_dir \<or> show_files fl \<and> k = Is_reg then True
      else \<not> (show_links fl \<or> show_dirs fl \<or> show_files fl))"

definition fullpath :: "string \<Rightarrow> string \<Rightarrow> string" where
  "fullpath path d_name =
     (if length path > 0 \<and> path ! (length path - 1) = SLASH then clip PATH_MAX (path @ d_name)
      else clip PATH_MAX (path @ ''/'' @ d_name))"

text \<open>The loop over the directory's entries; \<open>walk\<close> is the recursive call, whose result is ignored.\<close>

fun walk_entries ::
  "(string \<Rightarrow> string list \<Rightarrow> (int \<times> string list) option) \<Rightarrow> file_system \<Rightarrow> flags \<Rightarrow> string \<Rightarrow> string list \<Rightarrow>
   string list \<Rightarrow> string list option" where
  "walk_entries walk fs fl path [] files = Some files"
| "walk_entries walk fs fl path (d_name # ds) files =
     (if length files \<ge> MAX_FILES then Some files
      else if d_name = ''.'' \<or> d_name = ''..'' then walk_entries walk fs fl path ds files
      else
        let full = fullpath path d_name in
        if length full \<ge> PATH_MAX then walk_entries walk fs fl path ds files
        else
          (case lstat fs full of
             None \<Rightarrow> walk_entries walk fs fl path ds files
           | Some sb \<Rightarrow>
               let files = (if match_type fl sb then files @ [full] else files) in
               if sb = Is_dir
               then (case walk full files of
                       None \<Rightarrow> None
                     | Some (_, files) \<Rightarrow> walk_entries walk fs fl path ds files)
               else walk_entries walk fs fl path ds files))"

fun dirwalk :: "nat \<Rightarrow> file_system \<Rightarrow> flags \<Rightarrow> string \<Rightarrow> string list \<Rightarrow> (int \<times> string list) option" where
  "dirwalk 0 fs fl path files = None"
| "dirwalk (Suc n) fs fl path files =
     (case readdir fs path of
        None \<Rightarrow> Some (-1, files)
      | Some names \<Rightarrow> map_option (Pair 0) (walk_entries (dirwalk n fs fl) fs fl path names files))"

fun parse_options :: "char list \<Rightarrow> flags \<Rightarrow> flags option" where
  "parse_options [] fl = Some fl"
| "parse_options (opt # opts) fl =
     (if opt = CHR ''s'' then parse_options opts (fl\<lparr>sort_output := True\<rparr>)
      else if opt = CHR ''l'' then parse_options opts (fl\<lparr>show_links := True\<rparr>)
      else if opt = CHR ''d'' then parse_options opts (fl\<lparr>show_dirs := True\<rparr>)
      else if opt = CHR ''f'' then parse_options opts (fl\<lparr>show_files := True\<rparr>)
      else None)"

definition no_flags :: flags where
  "no_flags = \<lparr>sort_output = False, show_links = False, show_dirs = False, show_files = False\<rparr>"

text \<open>\<open>main\<close>: the lines it prints, or its exit status; \<open>qs\<close> is \<open>qsort\<close> with \<open>compare\<close>.\<close>

definition lab1_main ::
  "nat \<Rightarrow> file_system \<Rightarrow> (string list \<Rightarrow> string list) \<Rightarrow> char list \<Rightarrow> string option \<Rightarrow> (exit_code + string list) option" where
  "lab1_main fuel fs qs opts operand =
     (case parse_options opts no_flags of
        None \<Rightarrow> Some (Inl EXIT_FAILURE)
      | Some fl \<Rightarrow>
          let dir_path = (case operand of None \<Rightarrow> ''.'' | Some d \<Rightarrow> d) in
          (case dirwalk fuel fs fl dir_path [] of
             None \<Rightarrow> None
           | Some (r, files) \<Rightarrow>
               if r = -1 then Some (Inl EXIT_FAILURE)
               else Some (Inr (if sort_output fl then qs files else files))))"

subsection \<open>The specification: the preorder of the tree\<close>

text \<open>
  \<open>h\<close> bounds the depth of the tree below a directory. That one exists says that the tree is finite
  and that no path in it is cut off by \<open>snprintf\<close>.
\<close>

definition finite_tree :: "file_system \<Rightarrow> (string \<Rightarrow> nat) \<Rightarrow> bool" where
  "finite_tree fs h \<longleftrightarrow>
     (\<forall>p names d. readdir fs p = Some names \<longrightarrow> d \<in> set names \<longrightarrow> d \<noteq> ''.'' \<longrightarrow> d \<noteq> ''..'' \<longrightarrow>
        lstat fs (fullpath p d) = Some Is_dir \<longrightarrow> h (fullpath p d) < h p)"

fun preorder :: "nat \<Rightarrow> file_system \<Rightarrow> string \<Rightarrow> (string \<times> file_kind) list" where
  "preorder 0 fs path = []"
| "preorder (Suc n) fs path =
     (case readdir fs path of
        None \<Rightarrow> []
      | Some names \<Rightarrow>
          concat (map (\<lambda>d.
            if d = ''.'' \<or> d = ''..'' then []
            else (case lstat fs (fullpath path d) of
                    None \<Rightarrow> []
                  | Some k \<Rightarrow> (fullpath path d, k) # (if k = Is_dir then preorder n fs (fullpath path d) else []))) names))"

definition selected :: "flags \<Rightarrow> (string \<times> file_kind) list \<Rightarrow> string list" where
  "selected fl es = map fst (filter (match_type fl \<circ> snd) es)"

lemma selected_simps [simp]:
  "selected fl [] = []"
  "selected fl ((p, k) # es) = (if match_type fl k then [p] else []) @ selected fl es"
  "selected fl (es @ es') = selected fl es @ selected fl es'"
  by (simp_all add: selected_def)

lemma length_fullpath: "length (fullpath p d) < PATH_MAX"
  by (simp add: fullpath_def length_clip)

lemma match_type_iff:
  "match_type fl k \<longleftrightarrow>
     (show_links fl \<and> k = Is_link) \<or> (show_dirs fl \<and> k = Is_dir) \<or> (show_files fl \<and> k = Is_reg)
     \<or> \<not> (show_links fl \<or> show_dirs fl \<or> show_files fl)"
  by (auto simp: match_type_def)

lemma take_idem: "take m (take m xs @ ys) = take m (xs @ ys)"
  by (cases "length xs \<le> m") simp_all

lemma dirwalk_preorder:
  assumes "finite_tree fs h"
  shows "h path < n \<Longrightarrow> length files \<le> MAX_FILES \<Longrightarrow>
    dirwalk n fs fl path files =
      Some (if readdir fs path = None then -1 else 0, take MAX_FILES (files @ selected fl (preorder n fs path)))"
proof (induction n arbitrary: path files)
  case 0
  then show ?case by simp
next
  case (Suc n)
  show ?case
  proof (cases "readdir fs path")
    case None
    with Suc show ?thesis by simp
  next
    case (Some names)
    let ?ent = "\<lambda>d. if d = ''.'' \<or> d = ''..'' then []
            else (case lstat fs (fullpath path d) of
                    None \<Rightarrow> []
                  | Some k \<Rightarrow> (fullpath path d, k) # (if k = Is_dir then preorder n fs (fullpath path d) else []))"
    have "walk_entries (dirwalk n fs fl) fs fl path ds files =
        Some (take MAX_FILES (files @ selected fl (concat (map ?ent ds))))"
      if "set ds \<subseteq> set names" "length files \<le> MAX_FILES" for ds files
      using that
    proof (induction ds arbitrary: files)
      case Nil
      then show ?case by simp
    next
      case (Cons d ds)
      show ?case
      proof (cases "length files = MAX_FILES \<or> d = ''.'' \<or> d = ''..'' \<or> lstat fs (fullpath path d) = None")
        case True
        with Cons length_fullpath [of path d] show ?thesis by (auto simp: Let_def)
      next
        case False
        then obtain k where k: "lstat fs (fullpath path d) = Some k" by auto
        define fs' where "fs' = (if match_type fl k then files @ [fullpath path d] else files)"
        have l: "length fs' \<le> MAX_FILES" using False Cons.prems by (auto simp: fs'_def)
        have w: "dirwalk n fs fl (fullpath path d) fs' =
            Some (if readdir fs (fullpath path d) = None then -1 else 0,
                  take MAX_FILES (fs' @ selected fl (preorder n fs (fullpath path d))))" if "k = Is_dir"
        proof (rule Suc.IH [OF _ l])
          have "h (fullpath path d) < h path"
            using assms Some Cons.prems(1) False k that by (auto simp: finite_tree_def)
          with Suc.prems show "h (fullpath path d) < n" by simp
        qed
        have "walk_entries (dirwalk n fs fl) fs fl path (d # ds) files =
            (if k = Is_dir
             then walk_entries (dirwalk n fs fl) fs fl path ds
                    (take MAX_FILES (fs' @ selected fl (preorder n fs (fullpath path d))))
             else walk_entries (dirwalk n fs fl) fs fl path ds fs')"
          using False Cons.prems k w length_fullpath [of path d] by (simp add: fs'_def [symmetric] Let_def)
        also have "\<dots> = Some (take MAX_FILES
            ((if k = Is_dir then take MAX_FILES (fs' @ selected fl (preorder n fs (fullpath path d))) else fs')
             @ selected fl (concat (map ?ent ds))))"
          using Cons.prems l by (simp add: Cons.IH)
        also have "\<dots> = Some (take MAX_FILES (files @ selected fl (concat (map ?ent (d # ds)))))"
          using False k by (simp add: fs'_def take_idem del: take_append)
        finally show ?thesis .
      qed
    qed
    from this [of names files] Some Suc.prems show ?thesis by simp
  qed
qed



subsection \<open>The limit of the path's length\<close>

text \<open>
  A directory whose path has exactly 4094 characters sends the program into an endless recursion:
  the name of its first entry is cut off by \<open>snprintf\<close> down to the directory's own path with a slash,
  which is a directory again. The test \<open>strlen(fullpath) >= sizeof(fullpath)\<close> behind it never fires.
\<close>

theorem lab1_path_limit_recursion:
  assumes q: "length q = PATH_MAX - 2" "last q \<noteq> SLASH"
    and same: "readdir fs q = Some (dots @ d # ds)" "readdir fs (q @ ''/'') = Some (dots @ d # ds)"
      "lstat fs (q @ ''/'') = Some Is_dir"
    and entry: "set dots \<subseteq> {''.'', ''..''}" "d \<noteq> ''.''" "d \<noteq> ''..''"
    and kinds: "\<not> match_type fl Is_dir"
    and room: "length files < MAX_FILES"
  shows "dirwalk fuel fs fl q files = None"
proof -
  have ne: "q \<noteq> []" using q(1) by auto
  have full: "fullpath q d = q @ ''/''" "fullpath (q @ ''/'') d = q @ ''/''"
    using q ne by (auto simp: fullpath_def clip_def last_conv_nth nth_append)
  have loop: "walk_entries walk fs fl p (dots @ d # ds) files = None"
    if "walk (q @ ''/'') files = None" "fullpath p d = q @ ''/''" for walk p
  proof -
    have "walk_entries walk fs fl p (d # ds) files = None"
      using that same(3) entry(2,3) kinds room q(1) by (simp add: Let_def)
    then show ?thesis
      using entry(1) room by (induction dots) auto
  qed
  have "dirwalk fuel fs fl (q @ ''/'') files = None" for fuel
    by (induction fuel) (simp_all add: same(2) loop full(2))
  then show ?thesis by (cases fuel) (simp_all add: same(1) loop full(1))
qed

subsection \<open>Witnesses\<close>

definition demo_tree :: file_system where
  "demo_tree = \<lparr>realpath = Some,
     readdir = (\<lambda>p. if p = ''.'' then Some [''.'', ''..'', ''src'', ''a'']
                    else if p = ''./src'' then Some [''.'', ''..'', ''m''] else None),
     lstat = (\<lambda>p. if p \<in> {''.'', ''./src''} then Some Is_dir
                  else if p \<in> {''./a'', ''./src/m''} then Some Is_reg else None),
     readlink = (\<lambda>p. None)\<rparr>"

lemma demo_tree_finite: "finite_tree demo_tree (\<lambda>p. if p = ''.'' then 1 else 0)"
  by (auto simp: finite_tree_def demo_tree_def fullpath_def split: if_splits)


definition deep_dir :: string where
  "deep_dir = replicate (PATH_MAX - 2) (CHR ''a'')"

theorem lab1_path_limit_recursion_witness:
  "dirwalk 1000
     \<lparr>realpath = Some, readdir = (\<lambda>p. if p = deep_dir \<or> p = deep_dir @ ''/'' then Some [''.'', ''x''] else None),
      lstat = (\<lambda>p. if p = deep_dir @ ''/'' then Some Is_dir else None), readlink = (\<lambda>p. None)\<rparr>
     (no_flags\<lparr>show_files := True\<rparr>) deep_dir [] = None"
  by (rule lab1_path_limit_recursion [of _ _ "[''.'']" "''x''" "[]"])
    (simp_all add: deep_dir_def no_flags_def match_type_def)

end
