(* ===== verification/Lab2_Env.thy ===== *)
theory Lab2_Env
  imports C_String
begin

section \<open>lab2: environments of child processes (lab2/src/parent.c, child.c)\<close>

text \<open>
  An environment is the list of its entries \<open>NAME=value\<close>. The contents of the file \<open>env\<close> and the
  results of \<open>getenv("CHILD_PATH")\<close>, \<open>access\<close> and \<open>fork\<close> that the code tests are arguments or
  follow from the environment.
\<close>

abbreviation (input) MAX_CHILD :: nat where "MAX_CHILD \<equiv> 100"

definition is_entry :: "string \<Rightarrow> string \<Rightarrow> bool" where
  "is_entry name e \<longleftrightarrow> take (length name + 1) e = name @ ''=''"

definition getenv :: "string list \<Rightarrow> string \<Rightarrow> string option" where
  "getenv env name =
     (if name = [] then None else map_option (drop (length name + 1)) (find (is_entry name) env))"

text \<open>\<open>setenv\<close> with overwriting\<close>

fun setenv :: "string list \<Rightarrow> string \<Rightarrow> string \<Rightarrow> string list" where
  "setenv [] name v = [name @ ''='' @ v]"
| "setenv (e # env) name v =
     (if is_entry name e then (name @ ''='' @ v) # env else e # setenv env name v)"

subsection \<open>The parent\<close>

text \<open>The loop of \<open>read_env_file\<close>: the entries it puts into \<open>envp\<close>.\<close>

function env_entries :: "string list \<Rightarrow> string \<Rightarrow> string list" where
  "env_entries env f =
     (case fgets 256 f of
        None \<Rightarrow> []
      | Some (buf, rest) \<Rightarrow>
          let line = cut_newline buf in
          (case getenv env line of
             None \<Rightarrow> env_entries env rest
           | Some v \<Rightarrow> (line @ ''='' @ v) # env_entries env rest))"
  by pat_completeness auto
termination
  by (relation "measure (\<lambda>(env, f). length f)") (auto dest!: fgets_shorter)

declare env_entries.simps [simp del]

text \<open>
  What a call of \<open>spawn_child\<close> ends in: a message, a child that executes a program with arguments
  and an environment, the end of the parent, or a write behind the 100 elements of \<open>envp\<close>.
\<close>

datatype spawn =
    No_child_path
  | No_access
  | Execve string "string list" "string list"
  | Exit_parent
  | Behind_envp

text \<open>Filling \<open>envp\<close>, whose elements are followed by NULL.\<close>

definition fill_envp :: "string list \<Rightarrow> string list option" where
  "fill_envp es = (if length es < 100 then Some es else None)"

text \<open>\<open>read_env_file\<close>: the environment for the child, or what the call ends in.\<close>

definition read_env_file :: "string list \<Rightarrow> string option \<Rightarrow> spawn + string list" where
  "read_env_file env env_file =
     (case env_file of
        None \<Rightarrow> Inl Exit_parent
      | Some f \<Rightarrow>
          (case fill_envp (env_entries env f) of
             None \<Rightarrow> Inl Behind_envp
           | Some envp \<Rightarrow> Inr envp))"

definition child_name :: "nat \<Rightarrow> string" where
  "child_name n = take 15 (''child_'' @ (if n < 10 then ''0'' else []) @ decimal n)"

definition spawn_child :: "string list \<Rightarrow> string option \<Rightarrow> (string \<Rightarrow> bool) \<Rightarrow> nat \<Rightarrow> nat \<Rightarrow> spawn" where
  "spawn_child env env_file access child_num mode =
     (case getenv env ''CHILD_PATH'' of
        None \<Rightarrow> No_child_path
      | Some child_path \<Rightarrow>
          let child_exec = take 255 (child_path @ ''/child'') in
          if \<not> access child_exec then No_access
          else if mode = 1
          then (case read_env_file env env_file of
                  Inl r \<Rightarrow> r
                | Inr envp \<Rightarrow> Execve child_exec [child_name child_num, ''env''] envp)
          else
            (case fill_envp env of
               None \<Rightarrow> Behind_envp
             | Some envp \<Rightarrow> Execve child_exec [child_name child_num] envp))"

text \<open>
  The loop of \<open>main\<close>: what its calls of \<open>spawn_child\<close> end in; \<open>None\<close> if it never ends, which is what
  happens at the end of the input (\<open>getchar\<close> then returns no character that leaves the loop). Nothing
  follows a call that ends the parent or writes behind \<open>envp\<close>.
\<close>

definition last_spawn :: "spawn \<Rightarrow> bool" where
  "last_spawn r \<longleftrightarrow> r = Exit_parent \<or> r = Behind_envp"

definition then_spawn :: "spawn \<Rightarrow> spawn list option \<Rightarrow> spawn list option" where
  "then_spawn r rs = (if last_spawn r then Some [r] else map_option ((#) r) rs)"

fun command_loop :: "(nat \<Rightarrow> nat \<Rightarrow> spawn) \<Rightarrow> nat \<Rightarrow> string \<Rightarrow> spawn list option" where
  "command_loop sp child_num [] = None"
| "command_loop sp child_num (command # inp) =
     (if command = CHR ''+'' \<and> child_num < MAX_CHILD
      then then_spawn (sp child_num 1) (command_loop sp (child_num + 1) inp)
      else if command = CHR ''*'' \<and> child_num < MAX_CHILD
      then then_spawn (sp child_num 0) (command_loop sp (child_num + 1) inp)
      else if command = CHR ''q'' then Some []
      else command_loop sp child_num inp)"

text \<open>The environment printed at the start and the one the parent goes on with.\<close>

definition collate_env :: "string list \<Rightarrow> string list \<times> string list" where
  "collate_env env =
     (let lc_collate = getenv env ''LC_COLLATE''; env1 = setenv env ''LC_COLLATE'' ''C''
      in (env1, (case lc_collate of None \<Rightarrow> env1 | Some v \<Rightarrow> setenv env1 ''LC_COLLATE'' v)))"

definition lab2_main ::
  "string list \<Rightarrow> string option \<Rightarrow> (string \<Rightarrow> bool) \<Rightarrow> string \<Rightarrow> string list \<times> spawn list option" where
  "lab2_main env env_file access inp =
     (let (shown, env') = collate_env env
      in (shown, command_loop (spawn_child env' env_file access) 0 inp))"

subsection \<open>The child\<close>

text \<open>The loop of \<open>print_env_vars_from_file\<close>, then the function with the opening of the file.\<close>

function print_env_loop :: "string list \<Rightarrow> string \<Rightarrow> string list" where
  "print_env_loop env f =
     (case fgets 256 f of
        None \<Rightarrow> []
      | Some (buf, rest) \<Rightarrow>
          let line = cut_newline buf in
          (case getenv env line of
             None \<Rightarrow> print_env_loop env rest
           | Some v \<Rightarrow> (line @ ''='' @ v) # print_env_loop env rest))"
  by pat_completeness auto
termination
  by (relation "measure (\<lambda>(env, f). length f)") (auto dest!: fgets_shorter)

declare print_env_loop.simps [simp del]

definition print_env_vars_from_file ::
  "(string \<Rightarrow> string option) \<Rightarrow> string list \<Rightarrow> string \<Rightarrow> exit_code + string list" where
  "print_env_vars_from_file files env filename =
     (case files filename of
        None \<Rightarrow> Inl EXIT_FAILURE
      | Some f \<Rightarrow> Inr (print_env_loop env f))"

definition child_main :: "(string \<Rightarrow> string option) \<Rightarrow> string list \<Rightarrow> string list \<Rightarrow> exit_code + string list" where
  "child_main files argv envp =
     (if length argv > 1 then print_env_vars_from_file files envp (argv ! 1) else Inr envp)"

subsection \<open>Environments\<close>

lemma is_entry_same [simp]: "is_entry name (name @ CHR ''='' # v)"
  by (simp add: is_entry_def)

lemma is_entry_other:
  assumes "is_entry name (name' @ CHR ''='' # v)" "CHR ''='' \<notin> set name" "CHR ''='' \<notin> set name'"
  shows "name = name'"
proof -
  obtain r where r: "name' @ CHR ''='' # v = name @ CHR ''='' # r"
    using assms(1) append_take_drop_id [of "length name + 1" "name' @ CHR ''='' # v"]
    by (metis append.assoc append_Cons append_Nil is_entry_def)
  have "takeWhile (\<lambda>c. c \<noteq> CHR ''='') (n @ CHR ''='' # w) = n" if "CHR ''='' \<notin> set n" for n w
    using that by (induction n) auto
  from this [OF assms(2), of r] this [OF assms(3), of v] r show ?thesis by simp
qed

lemma getenv_setenv_same: "name \<noteq> [] \<Longrightarrow> getenv (setenv env name v) name = Some v"
  by (induction env) (auto simp: getenv_def)

lemma getenv_setenv_other:
  "CHR ''='' \<notin> set name \<Longrightarrow> CHR ''='' \<notin> set other \<Longrightarrow> other \<noteq> name \<Longrightarrow>
   getenv (setenv env name v) other = getenv env other"
proof (induction env)
  case Nil
  then show ?case using is_entry_other [of other name v] by (auto simp: getenv_def)
next
  case (Cons e env)
  have "\<not> is_entry other (name @ CHR ''='' # v)" using is_entry_other [of other name v] Cons.prems by auto
  moreover have "\<not> is_entry other e" if "is_entry name e"
  proof
    assume o: "is_entry other e"
    from that have "e = name @ CHR ''='' # drop (length name + 1) e"
      using append_take_drop_id [of "length name + 1" e] by (simp add: is_entry_def)
    with o is_entry_other [of other name "drop (length name + 1) e"] Cons.prems show False by simp
  qed
  ultimately show ?case using Cons by (auto simp: getenv_def)
qed

text \<open>
  The parent prints its environment with \<open>LC_COLLATE=C\<close> and then restores the variable; if it was
  not set, its children get it with the value \<open>C\<close>.
\<close>

theorem lab2_collate_restored:
  assumes "CHR ''='' \<notin> set name"
  shows "getenv (fst (collate_env env)) ''LC_COLLATE'' = Some ''C''
    \<and> getenv (snd (collate_env env)) name =
       (if name = ''LC_COLLATE'' \<and> getenv env name = None then Some ''C'' else getenv env name)"
  using assms getenv_setenv_same [of "''LC_COLLATE''"] getenv_setenv_other [of "''LC_COLLATE''" name]
  by (cases "name = ''LC_COLLATE''"; cases "getenv env ''LC_COLLATE''")
    (simp_all add: collate_env_def Let_def)

subsection \<open>What a child prints\<close>

lemma getenv_Cons_same: "name \<noteq> [] \<Longrightarrow> getenv ((name @ CHR ''='' # v) # env) name = Some v"
  by (simp add: getenv_def)

lemma getenv_Cons_other: "\<not> is_entry name e \<Longrightarrow> getenv (e # env) name = getenv env name"
  by (simp add: getenv_def)

text \<open>An environment that holds, for each of a list of names, what another one holds.\<close>

lemma getenv_selected:
  assumes "\<forall>(n, v) \<in> set sel. getenv env n = Some v \<and> CHR ''='' \<notin> set n" "CHR ''='' \<notin> set name"
  shows "getenv (map (\<lambda>(n, v). n @ ''='' @ v) sel) name = (if name \<in> fst ` set sel then getenv env name else None)"
  using assms(1)
proof (induction sel)
  case Nil
  then show ?case by (simp add: getenv_def)
next
  case (Cons nv sel)
  obtain n v where nv: "nv = (n, v)" by fastforce
  with Cons.prems have n: "getenv env n = Some v" "CHR ''='' \<notin> set n" by auto
  then have ne: "n \<noteq> []" by (auto simp: getenv_def)
  show ?case
  proof (cases "name = n")
    case True
    then show ?thesis using getenv_Cons_same [OF ne] by (simp add: nv n)
  next
    case False
    then have "\<not> is_entry name (n @ CHR ''='' # v)" using is_entry_other [of name n v] assms(2) n by auto
    with False Cons show ?thesis by (auto simp: nv getenv_Cons_other)
  qed
qed

text \<open>The lines of a file as the two programs read them.\<close>

function env_names :: "string \<Rightarrow> string list" where
  "env_names f =
     (case fgets 256 f of None \<Rightarrow> [] | Some (buf, rest) \<Rightarrow> cut_newline buf # env_names rest)"
  by pat_completeness auto
termination
  by (relation "measure length") (auto dest!: fgets_shorter)

declare env_names.simps [simp del]

definition chosen :: "string list \<Rightarrow> string list \<Rightarrow> (string \<times> string) list" where
  "chosen env ns = concat (map (\<lambda>n. case getenv env n of None \<Rightarrow> [] | Some v \<Rightarrow> [(n, v)]) ns)"

lemma chosen_simps [simp]:
  "chosen env [] = []"
  "chosen env (n # ns) = (case getenv env n of None \<Rightarrow> [] | Some v \<Rightarrow> [(n, v)]) @ chosen env ns"
  by (simp_all add: chosen_def)

lemma env_entries_chosen: "env_entries env f = map (\<lambda>(n, v). n @ ''='' @ v) (chosen env (env_names f))"
proof (induction env f rule: env_entries.induct)
  case (1 env f)
  show ?case
    by (subst env_entries.simps, subst env_names.simps)
      (auto simp: 1 Let_def split: option.splits)
qed

lemma printed_chosen:
  "print_env_loop env f = map (\<lambda>(n, v). n @ ''='' @ v) (chosen env (env_names f))"
proof (induction env f rule: print_env_loop.induct)
  case (1 env f)
  show ?case
    by (subst print_env_loop.simps, subst env_names.simps)
      (auto simp: 1 Let_def split: option.splits)
qed

lemma chosen_set: "(n, v) \<in> set (chosen env ns) \<longleftrightarrow> n \<in> set ns \<and> getenv env n = Some v"
  by (auto simp: chosen_def split: option.splits)

lemma chosen_again:
  assumes "\<forall>n \<in> set ns. CHR ''='' \<notin> set n"
  shows "chosen (map (\<lambda>(n, v). n @ ''='' @ v) (chosen env ns)) ns = chosen env ns"
proof -
  have "getenv (map (\<lambda>(n, v). n @ ''='' @ v) (chosen env ns)) n = getenv env n" if "n \<in> set ns" for n
  proof -
    have sel: "\<forall>(m, v) \<in> set (chosen env ns). getenv env m = Some v \<and> CHR ''='' \<notin> set m"
      using assms by (auto simp: chosen_set)
    have "n \<in> fst ` set (chosen env ns) \<longleftrightarrow> (\<exists>v. (n, v) \<in> set (chosen env ns))" by force
    with that have "n \<in> fst ` set (chosen env ns) \<longleftrightarrow> getenv env n \<noteq> None" by (simp add: chosen_set)
    then show ?thesis using getenv_selected [OF sel, of n] assms that by auto
  qed
  then show ?thesis by (simp add: chosen_def cong: map_cong)
qed

text \<open>
  C34. Parent and child together: a child started with \<open>+\<close> prints, in the order of the file \<open>env\<close>,
  each variable named there that is set in the parent, with the parent's value, and these are its
  whole environment; one started with \<open>*\<close> prints the parent's environment.
\<close>

theorem lab2_child_prints:
  assumes "spawn_child env (Some f) access n mode = Execve prog argv envp"
    and "\<forall>name \<in> set (env_names f). CHR ''='' \<notin> set name"
  shows "child_main (\<lambda>p. if p = ''env'' then Some f else None) argv envp =
      Inr (if mode = 1 then map (\<lambda>(n, v). n @ ''='' @ v) (chosen env (env_names f)) else env)
    \<and> (mode = 1 \<longrightarrow> envp = map (\<lambda>(n, v). n @ ''='' @ v) (chosen env (env_names f)))"
proof (cases "mode = 1")
  case True
  with assms(1) have "argv = [child_name n, ''env'']" "envp = env_entries env f"
    by (auto simp: spawn_child_def read_env_file_def fill_envp_def Let_def split: option.splits if_splits)
  with True chosen_again [OF assms(2), of env] show ?thesis
    by (simp add: child_main_def print_env_vars_from_file_def printed_chosen env_entries_chosen)
next
  case False
  with assms(1) have "argv = [child_name n]" "envp = env"
    by (auto simp: spawn_child_def read_env_file_def fill_envp_def Let_def split: option.splits if_splits)
  with False show ?thesis by (simp add: child_main_def)
qed

subsection \<open>Where the parent goes wrong\<close>

text \<open>An environment of 100 or more variables does not fit into \<open>envp\<close>: \<open>*\<close> writes behind its end.\<close>

theorem lab2_envp_overflows:
  assumes "100 \<le> length env" "getenv env ''CHILD_PATH'' = Some dir" "access (take 255 (dir @ ''/child''))"
  shows "spawn_child env env_file access child_num 0 = Behind_envp"
  using assms by (simp add: spawn_child_def fill_envp_def Let_def)

text \<open>Without a \<open>q\<close> in the input the program does not end unless a call of \<open>spawn_child\<close> ends it.\<close>

theorem lab2_eof_never_ends:
  assumes "CHR ''q'' \<notin> set inp" "\<And>n mode. \<not> last_spawn (sp n mode)"
  shows "command_loop sp child_num inp = None"
  using assms(1) by (induction inp arbitrary: child_num) (auto simp: then_spawn_def assms(2))

definition demo_env :: "string list" where
  "demo_env = [''HOME=/root'', ''CHILD_PATH=.'', ''LANG=C'']"

theorem lab2_child_prints_witness:
  "child_main (\<lambda>p. if p = ''env'' then Some (''LANG'' @ [NL] @ ''USER'' @ [NL] @ ''HOME'') else None)
     [''child_00'', ''env''] [''LANG=C'', ''HOME=/root''] = Inr [''LANG=C'', ''HOME=/root'']"
proof -
  have s: "spawn_child demo_env (Some (''LANG'' @ [NL] @ ''USER'' @ [NL] @ ''HOME'')) (\<lambda>p. True) 0 1 =
      Execve ''./child'' [''child_00'', ''env''] [''LANG=C'', ''HOME=/root'']"
    by code_simp
  have n: "\<forall>name \<in> set (env_names (''LANG'' @ [NL] @ ''USER'' @ [NL] @ ''HOME'')). CHR ''='' \<notin> set name"
    by code_simp
  have c: "map (\<lambda>(n, v). n @ ''='' @ v) (chosen demo_env (env_names (''LANG'' @ [NL] @ ''USER'' @ [NL] @ ''HOME''))) =
      [''LANG=C'', ''HOME=/root'']"
    by code_simp
  from lab2_child_prints [OF s n] show ?thesis by (simp only: c if_True simp_thms)
qed

end
