(* ===== verification/Lab3_Processes.thy ===== *)
theory Lab3_Processes
  imports C_String
begin

section \<open>lab3: a parent and its signalled children (lab3/src/parent.c)\<close>

text \<open>
  The parent executes one command at a time. A child runs its loop one access to shared data at a
  time; in between the timer's signal and the signals that the parent sent are handled, in any
  order. The parent never waits for its children, so that a dead child keeps its process id.
  Progress messages of the parent are left out.
\<close>

abbreviation (input) CYCLE_ITERATIONS_COUNT :: nat where "CYCLE_ITERATIONS_COUNT \<equiv> 5000"
abbreviation (input) MAX_PROCESSES :: nat where "MAX_PROCESSES \<equiv> 100"

subsection \<open>A child\<close>

datatype usr_signal = SIGUSR1 | SIGUSR2

datatype cpc = C_Start | C_Reset | C_Timer | C_Test | C_XorA | C_XorB | C_Delete | C_Print | C_Dead

record child =
  c_pc :: cpc
  iter :: nat
  contin :: bool
  data_a :: int
  data_b :: int
  stat :: "int list"
  is_stdout_open :: bool
  timer_armed :: bool
  alarm_pending :: bool
  pending :: "usr_signal list"
  printed :: "int list option"

definition sigusr1_handler :: "child \<Rightarrow> child" where
  "sigusr1_handler c = c\<lparr>is_stdout_open := True\<rparr>"

definition sigusr2_handler :: "child \<Rightarrow> child" where
  "sigusr2_handler c = c\<lparr>is_stdout_open := False\<rparr>"

definition alarm_handler :: "child \<Rightarrow> child" where
  "alarm_handler c =
     (let index = nat (data_a c * 2 + data_b c * 1)
      in c\<lparr>stat := (stat c)[index := stat c ! index + 1], contin := True\<rparr>)"

text \<open>
  \<open>setup_timer\<close> installs \<open>alarm_handler\<close> and starts a timer that expires periodically; \<open>timer_delete\<close>
  stops it. A signal that is pending by then is still delivered.
\<close>

definition setup_timer :: "child \<Rightarrow> child" where
  "setup_timer c = c\<lparr>timer_armed := True\<rparr>"

definition timer_delete :: "child \<Rightarrow> child" where
  "timer_delete c = c\<lparr>timer_armed := False\<rparr>"

definition print_statistic :: "child \<Rightarrow> child" where
  "print_statistic c = (if is_stdout_open c then c\<lparr>printed := Some (stat c)\<rparr> else c)"

text \<open>
  \<open>child_process\<close>: the handlers of the user's signals are installed in \<open>C_Start\<close>; \<open>C_Reset\<close> is the head of the outer loop, \<open>C_Test\<close> that of the inner one.
\<close>

definition child_step :: "child \<Rightarrow> child option" where
  "child_step c =
     (case c_pc c of
        C_Start \<Rightarrow> Some (c\<lparr>c_pc := C_Reset\<rparr>)
      | C_Reset \<Rightarrow>
          Some (if iter c < CYCLE_ITERATIONS_COUNT then c\<lparr>contin := False, c_pc := C_Timer\<rparr>
                else c\<lparr>c_pc := C_Print\<rparr>)
      | C_Timer \<Rightarrow> Some ((setup_timer c)\<lparr>c_pc := C_Test\<rparr>)
      | C_Test \<Rightarrow> Some (if contin c then c\<lparr>c_pc := C_Delete\<rparr> else c\<lparr>c_pc := C_XorA\<rparr>)
      | C_XorA \<Rightarrow> Some (c\<lparr>data_a := xor (data_a c) 1, c_pc := C_XorB\<rparr>)
      | C_XorB \<Rightarrow> Some (c\<lparr>data_b := xor (data_b c) 1, c_pc := C_Test\<rparr>)
      | C_Delete \<Rightarrow> Some ((timer_delete c)\<lparr>iter := iter c + 1, c_pc := C_Reset\<rparr>)
      | C_Print \<Rightarrow> Some ((print_statistic c)\<lparr>c_pc := C_Dead\<rparr>)
      | C_Dead \<Rightarrow> None)"

text \<open>A pending signal is handled; before the handlers are installed it ends the process.\<close>

definition deliver :: "usr_signal \<Rightarrow> child \<Rightarrow> child" where
  "deliver sg c =
     (let c = c\<lparr>pending := removeAll sg (pending c)\<rparr> in
      if c_pc c = C_Start then c\<lparr>c_pc := C_Dead\<rparr>
      else if c_pc c = C_Dead then c
      else (case sg of SIGUSR1 \<Rightarrow> sigusr1_handler c | SIGUSR2 \<Rightarrow> sigusr2_handler c))"

subsection \<open>The parent\<close>

datatype status = Running | Exited int | Out_of_bounds

record lab3 =
  all_processes :: "int list"
  process_count :: nat
  stdout_open :: bool
  kids :: "(int \<times> child) list"
  status :: status

definition forked :: "lab3 \<Rightarrow> child" where
  "forked s = \<lparr>c_pc = C_Start, iter = 0, contin = False, data_a = 0, data_b = 0, stat = [0, 0, 0, 0],
     is_stdout_open = stdout_open s, timer_armed = False, alarm_pending = False, pending = [], printed = None\<rparr>"

definition on_kid :: "int \<Rightarrow> (child \<Rightarrow> child) \<Rightarrow> lab3 \<Rightarrow> lab3" where
  "on_kid pid f s = s\<lparr>kids := map (\<lambda>(p, c). (p, if p = pid then f c else c)) (kids s)\<rparr>"

definition kill_KILL :: "int \<Rightarrow> lab3 \<Rightarrow> lab3" where
  "kill_KILL pid = on_kid pid (\<lambda>c. c\<lparr>c_pc := C_Dead\<rparr>)"

definition kill_USR :: "usr_signal \<Rightarrow> int \<Rightarrow> lab3 \<Rightarrow> lab3" where
  "kill_USR sg pid = on_kid pid (\<lambda>c. c\<lparr>pending := List.insert sg (pending c)\<rparr>)"

text \<open>\<open>pid\<close> is what \<open>fork\<close> returns to the parent.\<close>

definition create_child :: "int \<Rightarrow> lab3 \<Rightarrow> lab3" where
  "create_child pid s =
     (if pid = -1 then s\<lparr>status := Exited 1\<rparr>
      else
        let s = s\<lparr>kids := kids s @ [(pid, forked s)]\<rparr> in
        if process_count s \<ge> MAX_PROCESSES then s\<lparr>status := Out_of_bounds\<rparr>
        else s\<lparr>all_processes := (all_processes s)[process_count s := pid], process_count := process_count s + 1\<rparr>)"

definition kill_last_process :: "lab3 \<Rightarrow> lab3" where
  "kill_last_process s =
     (if process_count s > 0
      then (let n = process_count s - 1 in (kill_KILL (all_processes s ! n) s)\<lparr>process_count := n\<rparr>)
      else s)"

function kill_all_processes :: "lab3 \<Rightarrow> lab3" where
  "kill_all_processes s =
     (if process_count s > 0 then kill_all_processes (kill_last_process s) else s\<lparr>process_count := 0\<rparr>)"
  by pat_completeness auto
termination
  by (relation "measure process_count") (auto simp: kill_last_process_def Let_def)

declare kill_all_processes.simps [simp del]

text \<open>The process ids that are printed.\<close>

definition show_all_processes :: "lab3 \<Rightarrow> int list" where
  "show_all_processes s = map (\<lambda>i. all_processes s ! i) [0..<process_count s]"

definition allow_stdout_for_all :: "bool \<Rightarrow> lab3 \<Rightarrow> lab3" where
  "allow_stdout_for_all is_allow s =
     (let s = s\<lparr>stdout_open := is_allow\<rparr> in
      fold (\<lambda>i. kill_USR (if is_allow then SIGUSR1 else SIGUSR2) (all_processes s ! i)) [0..<process_count s] s)"

text \<open>\<open>scanf("%9s")\<close>; \<open>None\<close> at the end of the input, where the loop of \<open>main\<close> never stops.\<close>

definition read_symbol :: "string \<Rightarrow> (string \<times> string) option" where
  "read_symbol inp =
     (let t = dropWhile c_isspace inp; w = takeWhile (\<lambda>c. \<not> c_isspace c) (take 9 t)
      in if t = [] then None else Some (w, drop (length w) t))"

definition lab3_command :: "string \<Rightarrow> int \<Rightarrow> lab3 \<Rightarrow> lab3" where
  "lab3_command symbol pid s =
     (if symbol = ''+'' then create_child pid s
      else if symbol = ''-'' then kill_last_process s
      else if symbol = ''l'' then s
      else if symbol = ''k'' then kill_all_processes s
      else if symbol = ''s'' then allow_stdout_for_all False s
      else if symbol = ''g'' then allow_stdout_for_all True s
      else if symbol = ''q'' then (kill_all_processes s)\<lparr>status := Exited 0\<rparr>
      else s)"

definition lab3_start :: "lab3 \<Rightarrow> bool" where
  "lab3_start s \<longleftrightarrow> s = \<lparr>all_processes = replicate MAX_PROCESSES 0, process_count = 0, stdout_open = True,
     kids = [], status = Running\<rparr>"

definition pids :: "lab3 \<Rightarrow> int list" where
  "pids s = map fst (kids s)"

text \<open>\<open>fork\<close> fails or returns the id of no other process; a child, dead or not, keeps its own.\<close>

inductive lab3_step :: "lab3 \<Rightarrow> lab3 \<Rightarrow> bool" where
  cmd: "status s = Running \<Longrightarrow> pid = -1 \<or> pid > 0 \<and> pid \<notin> set (pids s) \<Longrightarrow>
     lab3_step s (lab3_command symbol pid s)"
| run: "i < length (kids s) \<Longrightarrow> child_step (snd (kids s ! i)) = Some c \<Longrightarrow>
     lab3_step s (s\<lparr>kids := (kids s)[i := (fst (kids s ! i), c)]\<rparr>)"
| expire: "i < length (kids s) \<Longrightarrow> timer_armed (snd (kids s ! i)) \<Longrightarrow>
     lab3_step s (s\<lparr>kids := (kids s)[i := (fst (kids s ! i), (snd (kids s ! i))\<lparr>alarm_pending := True\<rparr>)]\<rparr>)"
| alarm: "i < length (kids s) \<Longrightarrow> alarm_pending (snd (kids s ! i)) \<Longrightarrow> c_pc (snd (kids s ! i)) \<noteq> C_Dead \<Longrightarrow>
     lab3_step s (s\<lparr>kids := (kids s)[i :=
       (fst (kids s ! i), (alarm_handler (snd (kids s ! i)))\<lparr>alarm_pending := False\<rparr>)]\<rparr>)"
| signal: "i < length (kids s) \<Longrightarrow> sg \<in> set (pending (snd (kids s ! i))) \<Longrightarrow>
     lab3_step s (s\<lparr>kids := (kids s)[i := (fst (kids s ! i), deliver sg (snd (kids s ! i)))]\<rparr>)"

subsection \<open>The statistics of a child\<close>

text \<open>
  Every finished iteration of the outer loop, and one in which the timer has struck, has added one
  to the statistics.
\<close>

definition in_cycle :: "child \<Rightarrow> bool" where
  "in_cycle c \<longleftrightarrow> c_pc c \<in> {C_Timer, C_Test, C_XorA, C_XorB, C_Delete}"

definition is_bit :: "int \<Rightarrow> bool" where
  "is_bit x \<longleftrightarrow> x = 0 \<or> x = 1"

definition child_inv :: "child \<Rightarrow> bool" where
  "child_inv c \<longleftrightarrow>
     is_bit (data_a c) \<and> is_bit (data_b c) \<and> length (stat c) = 4
     \<and> int (iter c) + (if contin c \<and> in_cycle c then 1 else 0) \<le> sum_list (stat c)
     \<and> (c_pc c = C_Delete \<longrightarrow> contin c) \<and> (c_pc c = C_Print \<longrightarrow> iter c \<ge> CYCLE_ITERATIONS_COUNT)
     \<and> (\<forall>st. printed c = Some st \<longrightarrow> length st = 4 \<and> sum_list st \<ge> int CYCLE_ITERATIONS_COUNT)"

lemma forked_inv: "child_inv (forked s)"
  by (simp add: child_inv_def forked_def in_cycle_def is_bit_def)

lemma bit_xor [simp]: "is_bit x \<Longrightarrow> is_bit (xor x 1)"
  by (auto simp: is_bit_def)

lemma child_step_inv:
  assumes inv: "child_inv c" and step: "child_step c = Some c'"
  shows "child_inv c'"
proof (cases "c_pc c")
  case C_Start
  with step have "c' = c\<lparr>c_pc := C_Reset\<rparr>" by (simp add: child_step_def)
  with inv C_Start show ?thesis by (simp add: child_inv_def in_cycle_def)
next
  case C_Reset
  with step have "c' = (if iter c < CYCLE_ITERATIONS_COUNT then c\<lparr>contin := False, c_pc := C_Timer\<rparr>
      else c\<lparr>c_pc := C_Print\<rparr>)" by (simp add: child_step_def)
  with inv C_Reset show ?thesis by (simp add: child_inv_def in_cycle_def)
next
  case C_Timer
  with step have "c' = c\<lparr>timer_armed := True, c_pc := C_Test\<rparr>" by (simp add: child_step_def setup_timer_def)
  with inv C_Timer show ?thesis by (simp add: child_inv_def in_cycle_def)
next
  case C_Test
  with step have "c' = (if contin c then c\<lparr>c_pc := C_Delete\<rparr> else c\<lparr>c_pc := C_XorA\<rparr>)"
    by (simp add: child_step_def)
  with inv C_Test show ?thesis by (cases "contin c") (simp_all add: child_inv_def in_cycle_def)
next
  case C_XorA
  with step have "c' = c\<lparr>data_a := xor (data_a c) 1, c_pc := C_XorB\<rparr>" by (simp add: child_step_def)
  with inv C_XorA show ?thesis by (simp add: child_inv_def in_cycle_def)
next
  case C_XorB
  with step have "c' = c\<lparr>data_b := xor (data_b c) 1, c_pc := C_Test\<rparr>" by (simp add: child_step_def)
  with inv C_XorB show ?thesis by (simp add: child_inv_def in_cycle_def)
next
  case C_Delete
  with step have "c' = c\<lparr>timer_armed := False, iter := iter c + 1, c_pc := C_Reset\<rparr>"
    by (simp add: child_step_def timer_delete_def)
  with inv C_Delete show ?thesis by (cases "contin c") (simp_all add: child_inv_def in_cycle_def)
next
  case C_Print
  with step have "c' = (print_statistic c)\<lparr>c_pc := C_Dead\<rparr>" by (simp add: child_step_def)
  with inv C_Print show ?thesis by (simp add: child_inv_def in_cycle_def print_statistic_def)
next
  case C_Dead
  with step show ?thesis by (simp add: child_step_def)
qed

lemma bump_sum: "i < length (xs :: int list) \<Longrightarrow> sum_list (xs[i := xs ! i + 1]) = sum_list xs + 1"
proof (induction xs arbitrary: i)
  case Nil
  then show ?case by simp
next
  case (Cons x xs)
  then show ?case by (cases i) auto
qed

lemma alarm_inv:
  assumes inv: "child_inv c"
  shows "child_inv (alarm_handler c)"
proof -
  define i where "i = nat (data_a c * 2 + data_b c * 1)"
  define st where "st = (stat c)[i := stat c ! i + 1]"
  have "i < length (stat c)" using inv by (auto simp: child_inv_def i_def is_bit_def)
  then have "sum_list st = sum_list (stat c) + 1" "length st = length (stat c)"
    using bump_sum [of i "stat c"] by (simp_all add: st_def)
  moreover have "alarm_handler c = c\<lparr>stat := st, contin := True\<rparr>"
    by (simp add: alarm_handler_def st_def i_def Let_def)
  ultimately show ?thesis
    using inv by (simp add: child_inv_def in_cycle_def split: if_splits)
qed

lemma pending_inv: "child_inv c \<Longrightarrow> child_inv (c\<lparr>pending := ps\<rparr>)" "child_inv c \<Longrightarrow> child_inv (c\<lparr>alarm_pending := v\<rparr>)"
  by (simp_all add: child_inv_def in_cycle_def)

lemma deliver_inv: "child_inv c \<Longrightarrow> child_inv (deliver sg c)"
  by (cases sg; cases "c_pc c")
    (simp_all add: child_inv_def deliver_def sigusr1_handler_def sigusr2_handler_def in_cycle_def Let_def
      split: if_splits)


subsection \<open>The process table\<close>

lemma on_kid_sel [simp]:
  "all_processes (on_kid p f s) = all_processes s" "process_count (on_kid p f s) = process_count s"
  "stdout_open (on_kid p f s) = stdout_open s" "status (on_kid p f s) = status s"
  "pids (on_kid p f s) = pids s"
  by (simp_all add: on_kid_def pids_def comp_def case_prod_unfold)

lemma kill_sel [simp]:
  "all_processes (kill_KILL p s) = all_processes s" "process_count (kill_KILL p s) = process_count s"
  "status (kill_KILL p s) = status s" "pids (kill_KILL p s) = pids s"
  "all_processes (kill_USR sg p s) = all_processes s" "process_count (kill_USR sg p s) = process_count s"
  "status (kill_USR sg p s) = status s" "pids (kill_USR sg p s) = pids s"
  by (simp_all add: kill_KILL_def kill_USR_def)

definition table :: "lab3 \<Rightarrow> int list" where
  "table s = take (process_count s) (all_processes s)"

definition kids_ok :: "lab3 \<Rightarrow> bool" where
  "kids_ok s \<longleftrightarrow> (\<forall>(p, c) \<in> set (kids s). child_inv c)"

text \<open>The table lists different children; the others are dead.\<close>

definition table_ok :: "lab3 \<Rightarrow> bool" where
  "table_ok s \<longleftrightarrow>
     length (all_processes s) = MAX_PROCESSES \<and> process_count s \<le> MAX_PROCESSES
     \<and> distinct (pids s) \<and> distinct (table s) \<and> set (table s) \<subseteq> set (pids s)
     \<and> (\<forall>(p, c) \<in> set (kids s). p \<notin> set (table s) \<longrightarrow> c_pc c = C_Dead)"

lemma kids_ok_on_kid: "kids_ok s \<Longrightarrow> (\<And>c. child_inv c \<Longrightarrow> child_inv (f c)) \<Longrightarrow> kids_ok (on_kid p f s)"
  by (auto simp: kids_ok_def on_kid_def)

lemma dead_inv: "child_inv c \<Longrightarrow> child_inv (c\<lparr>c_pc := C_Dead\<rparr>)"
  by (auto simp: child_inv_def in_cycle_def split: if_splits)

lemma kids_ok_kill: "kids_ok s \<Longrightarrow> kids_ok (kill_KILL p s)" "kids_ok s \<Longrightarrow> kids_ok (kill_USR sg p s)"
  unfolding kill_KILL_def kill_USR_def by (auto intro!: kids_ok_on_kid dead_inv pending_inv(1))

lemma kids_ok_cong: "kids s' = kids s \<Longrightarrow> kids_ok s' = kids_ok s"
  by (simp add: kids_ok_def)

lemma table_ok_cong:
  "kids s' = kids s \<Longrightarrow> all_processes s' = all_processes s \<Longrightarrow> process_count s' = process_count s \<Longrightarrow>
   table_ok s' = table_ok s"
  by (simp add: table_ok_def table_def pids_def)

lemma kill_last_ok:
  assumes "kids_ok s" "table_ok s"
  shows "kids_ok (kill_last_process s)" "table_ok (kill_last_process s)"
proof -
  show "kids_ok (kill_last_process s)"
    using assms kids_ok_kill(1) [of s] by (simp add: kill_last_process_def kids_ok_def Let_def)
  show "table_ok (kill_last_process s)"
  proof (cases "process_count s")
    case 0
    with assms show ?thesis by (simp add: kill_last_process_def)
  next
    case (Suc n)
    define p where "p = all_processes s ! n"
    have t: "table s = take n (all_processes s) @ [p]"
      using assms(2) Suc by (simp add: table_ok_def table_def p_def take_Suc_conv_app_nth)
    have k: "kill_last_process s = (kill_KILL p s)\<lparr>process_count := n\<rparr>"
      by (simp add: kill_last_process_def Suc p_def)
    have "\<forall>(q, c) \<in> set (kids (kill_KILL p s)). q \<notin> set (take n (all_processes s)) \<longrightarrow> c_pc c = C_Dead"
      using assms(2) t by (auto simp: table_ok_def kill_KILL_def on_kid_def)
    moreover have "pids (kill_last_process s) = pids s" "table (kill_last_process s) = take n (all_processes s)"
      by (simp_all add: k pids_def table_def) (simp add: pids_def [symmetric])
    ultimately show ?thesis
      using assms(2) t Suc unfolding table_ok_def by (simp add: k)
  qed
qed

lemma kill_all_ok:
  "kids_ok s \<Longrightarrow> table_ok s \<Longrightarrow>
   kids_ok (kill_all_processes s) \<and> table_ok (kill_all_processes s) \<and> process_count (kill_all_processes s) = 0
   \<and> status (kill_all_processes s) = status s"
proof (induction s rule: kill_all_processes.induct)
  case (1 s)
  show ?case
  proof (cases "process_count s > 0")
    case True
    have "status (kill_last_process s) = status s" by (simp add: kill_last_process_def Let_def)
    with 1 True kill_last_ok [of s] show ?thesis by (subst (1 2 3 4) kill_all_processes.simps) simp
  next
    case False
    then show ?thesis
      using 1(2,3) by (subst (1 2 3 4) kill_all_processes.simps) (simp add: kids_ok_def table_ok_def table_def pids_def)
  qed
qed

lemma kill_USR_ok: "kids_ok s \<and> table_ok s \<Longrightarrow> kids_ok (kill_USR sg p s) \<and> table_ok (kill_USR sg p s)"
  using kids_ok_kill(2) [of s sg p]
  by (auto simp: table_ok_def table_def kill_USR_def on_kid_def pids_def comp_def case_prod_unfold)

lemma fold_USR_ok:
  "kids_ok s \<and> table_ok s \<Longrightarrow>
   kids_ok (fold (\<lambda>i. kill_USR sg (f i)) is s) \<and> table_ok (fold (\<lambda>i. kill_USR sg (f i)) is s)"
  by (induction "is" arbitrary: s) (simp_all add: kill_USR_ok)

lemma create_child_ok:
  assumes "kids_ok s" "table_ok s" "pid = -1 \<or> pid > 0 \<and> pid \<notin> set (pids s)"
  shows "kids_ok (create_child pid s)"
    and "status (create_child pid s) \<noteq> Out_of_bounds \<Longrightarrow> table_ok (create_child pid s)"
proof -
  show "kids_ok (create_child pid s)"
    using assms(1) forked_inv [of s] by (auto simp: create_child_def kids_ok_def Let_def)
  assume st: "status (create_child pid s) \<noteq> Out_of_bounds"
  show "table_ok (create_child pid s)"
  proof (cases "pid = -1")
    case True
    with assms show ?thesis by (simp add: create_child_def table_ok_def table_def pids_def)
  next
    case False
    with st have n: "process_count s < MAX_PROCESSES" by (auto simp: create_child_def Let_def split: if_splits)
    with assms(2) have "take (process_count s + 1) ((all_processes s)[process_count s := pid]) = table s @ [pid]"
      by (simp add: table_def table_ok_def take_Suc_conv_app_nth)
    with False n assms show ?thesis
      by (auto simp: create_child_def table_ok_def pids_def table_def Let_def)
  qed
qed

lemma kid_update_ok:
  assumes "i < length (kids s)" "c_pc (snd (kids s ! i)) = C_Dead \<longrightarrow> c_pc c = C_Dead"
    and "child_inv (snd (kids s ! i)) \<longrightarrow> child_inv c"
  shows "kids_ok s \<Longrightarrow> kids_ok (s\<lparr>kids := (kids s)[i := (fst (kids s ! i), c)]\<rparr>)"
    and "table_ok s \<Longrightarrow> table_ok (s\<lparr>kids := (kids s)[i := (fst (kids s ! i), c)]\<rparr>)"
proof -
  have m: "kids s ! i \<in> set (kids s)" using assms(1) by simp
  show "kids_ok (s\<lparr>kids := (kids s)[i := (fst (kids s ! i), c)]\<rparr>)" if "kids_ok s"
    using that assms(3) m unfolding kids_ok_def by (auto dest!: subsetD [OF set_update_subset_insert])
  show "table_ok (s\<lparr>kids := (kids s)[i := (fst (kids s ! i), c)]\<rparr>)" if t: "table_ok s"
  proof -
    have p: "pids (s\<lparr>kids := (kids s)[i := (fst (kids s ! i), c)]\<rparr>) = pids s"
      using assms(1) by (simp add: pids_def map_update)
        (metis length_map list_update_id nth_map)
    have "fst (kids s ! i) \<notin> set (table s) \<longrightarrow> c_pc (snd (kids s ! i)) = C_Dead"
      using t m unfolding table_ok_def by (auto simp: case_prod_unfold)
    then have "\<forall>(p, c) \<in> set ((kids s)[i := (fst (kids s ! i), c)]). p \<notin> set (table s) \<longrightarrow> c_pc c = C_Dead"
      using t assms(2) m unfolding table_ok_def
      by (auto dest!: subsetD [OF set_update_subset_insert] split: prod.splits)
    with t p show ?thesis by (simp add: table_ok_def table_def)
  qed
qed


definition lab3_inv :: "lab3 \<Rightarrow> bool" where
  "lab3_inv s \<longleftrightarrow>
     kids_ok s \<and> (status s \<noteq> Out_of_bounds \<longrightarrow> table_ok s) \<and> (status s = Exited 0 \<longrightarrow> process_count s = 0)"

lemma lab3_start_inv: "lab3_start s \<Longrightarrow> lab3_inv s"
  by (simp add: lab3_start_def lab3_inv_def kids_ok_def table_ok_def table_def pids_def)

lemma command_inv:
  assumes "lab3_inv s" "status s = Running" "pid = -1 \<or> pid > 0 \<and> pid \<notin> set (pids s)"
  shows "lab3_inv (lab3_command symbol pid s)"
proof -
  from assms(1,2) have ok: "kids_ok s" "table_ok s" by (simp_all add: lab3_inv_def)
  have create: "lab3_inv (create_child pid s)"
    using create_child_ok [OF ok assms(3)] assms(2) by (auto simp: lab3_inv_def create_child_def Let_def)
  have last: "lab3_inv (kill_last_process s)"
    using kill_last_ok [OF ok] assms(2) by (auto simp: lab3_inv_def kill_last_process_def Let_def)
  have all: "lab3_inv (kill_all_processes s)" "lab3_inv ((kill_all_processes s)\<lparr>status := Exited 0\<rparr>)"
    using kill_all_ok [OF ok] assms(2)
    by (auto simp: lab3_inv_def kids_ok_def table_ok_def table_def pids_def)
  have allow: "lab3_inv (allow_stdout_for_all v s)" for v
  proof -
    have "kids_ok (s\<lparr>stdout_open := v\<rparr>) \<and> table_ok (s\<lparr>stdout_open := v\<rparr>)"
      using ok by (simp add: kids_ok_def table_ok_def table_def pids_def)
    from fold_USR_ok [OF this, of "if v then SIGUSR1 else SIGUSR2"
      "\<lambda>i. all_processes (s\<lparr>stdout_open := v\<rparr>) ! i" "[0..<process_count (s\<lparr>stdout_open := v\<rparr>)]"]
    have f: "kids_ok (allow_stdout_for_all v s) \<and> table_ok (allow_stdout_for_all v s)"
      by (simp only: allow_stdout_for_all_def Let_def)
    have "status (fold (\<lambda>i. kill_USR sg (g i)) is s') = status s'" for sg g s' and "is" :: "nat list"
      by (induction "is" arbitrary: s') simp_all
    then have "status (allow_stdout_for_all v s) = Running"
      using assms(2) by (simp add: allow_stdout_for_all_def)
    with f show ?thesis by (simp add: lab3_inv_def)
  qed
  show ?thesis using assms(1) create last all allow by (simp add: lab3_command_def)
qed

lemma child_step_alive: "child_step c = Some c' \<Longrightarrow> c_pc c \<noteq> C_Dead"
  by (auto simp: child_step_def)

lemma deliver_dead: "c_pc c = C_Dead \<Longrightarrow> c_pc (deliver sg c) = C_Dead"
  by (simp add: deliver_def Let_def)

lemma kid_inv:
  assumes "lab3_inv s" "i < length (kids s)" "c_pc (snd (kids s ! i)) = C_Dead \<longrightarrow> c_pc c = C_Dead"
    and "child_inv (snd (kids s ! i)) \<longrightarrow> child_inv c"
  shows "lab3_inv (s\<lparr>kids := (kids s)[i := (fst (kids s ! i), c)]\<rparr>)"
  using kid_update_ok [OF assms(2-4)] assms(1) by (simp add: lab3_inv_def)

lemma lab3_step_inv:
  assumes "lab3_step s s'" "lab3_inv s"
  shows "lab3_inv s'"
  using assms
proof (cases rule: lab3_step.cases)
  case (cmd pid symbol)
  with assms(2) show ?thesis by (simp add: command_inv)
next
  case (run i c)
  show ?thesis unfolding run(1)
    by (rule kid_inv [OF assms(2)]) (use run in \<open>auto dest: child_step_inv child_step_alive\<close>)
next
  case (expire i)
  show ?thesis unfolding expire(1)
    by (rule kid_inv [OF assms(2)]) (use expire in \<open>auto intro: pending_inv\<close>)
next
  case (alarm i)
  show ?thesis unfolding alarm(1)
    by (rule kid_inv [OF assms(2)]) (use alarm in \<open>auto intro: pending_inv alarm_inv\<close>)
next
  case (signal i sg)
  show ?thesis unfolding signal(1)
    by (rule kid_inv [OF assms(2)]) (use signal in \<open>auto intro: deliver_inv deliver_dead\<close>)
qed

interpretation lab3: invariant_system lab3_start lab3_step lab3_inv
  by unfold_locales (erule lab3_start_inv, erule (1) lab3_step_inv [rotated])


text \<open>
  C26. Whatever the parent does and however the timer's and the user's signals arrive, the statistics
  a child prints consist of four counters that together count at least 5000 strikes of the timer.
\<close>

theorem lab3_statistics:
  assumes "lab3_start s0" "steps lab3_step s0 s" "(p, c) \<in> set (kids s)" "printed c = Some st"
  shows "length st = 4 \<and> sum_list st \<ge> int CYCLE_ITERATIONS_COUNT"
  using lab3.inv_reachable [OF assms(1,2)] assms(3,4) by (auto simp: lab3_inv_def kids_ok_def child_inv_def)


subsection \<open>Where the parent and its children go wrong\<close>

text \<open>As many \<open>+\<close> commands as the table has entries fill it.\<close>

lemma fill_table:
  assumes "status s = Running" "process_count s + n \<le> MAX_PROCESSES" "\<forall>p \<in> set (pids s). p \<le> int (process_count s)"
  shows "\<exists>t. steps lab3_step s t \<and> status t = Running \<and> process_count t = process_count s + n
    \<and> (\<forall>p \<in> set (pids t). p \<le> int (process_count t))"
  using assms
proof (induction n)
  case 0
  then show ?case by (auto intro: steps_refl)
next
  case (Suc n)
  then obtain t where t: "steps lab3_step s t" "status t = Running" "process_count t = process_count s + n"
    "\<forall>p \<in> set (pids t). p \<le> int (process_count t)" by auto
  let ?pid = "int (process_count t) + 1" and ?u = "create_child (int (process_count t) + 1) t"
  have "lab3_step t (lab3_command ''+'' ?pid t)"
    by (rule lab3_step.cmd) (use t in auto)
  then have "lab3_step t ?u" by (simp add: lab3_command_def)
  moreover have "status ?u = Running \<and> process_count ?u = process_count s + Suc n
      \<and> (\<forall>p \<in> set (pids ?u). p \<le> int (process_count ?u))"
    using t Suc.prems(2) by (auto simp: create_child_def pids_def Let_def)
  ultimately show ?case using t(1) by (blast intro: steps_snoc)
qed

text \<open>
  The 101st child: \<open>create_child\<close> does not look at the size of the table, so that its process id is
  written behind it.
\<close>

theorem lab3_table_overflows:
  assumes "lab3_start s0"
  shows "\<exists>s. steps lab3_step s0 s \<and> status s = Running \<and> process_count s = MAX_PROCESSES
    \<and> (\<forall>pid. pid \<noteq> -1 \<longrightarrow> status (lab3_command ''+'' pid s) = Out_of_bounds)"
proof -
  from assms have "status s0 = Running" "process_count s0 = 0" "pids s0 = []"
    by (simp_all add: lab3_start_def pids_def)
  with fill_table [of s0 MAX_PROCESSES] obtain s where
    "steps lab3_step s0 s" "status s = Running" "process_count s = MAX_PROCESSES" by auto
  then show ?thesis by (auto simp: lab3_command_def create_child_def Let_def)
qed

text \<open>
  A child that has not got to \<open>signal_handlers\<close> yet dies of the signals of \<open>g\<close> and \<open>s\<close> instead of
  changing its output, and never prints anything.
\<close>

theorem lab3_early_signal_kills:
  assumes "lab3_start s0" "pid > 0"
  shows "\<exists>s c. steps lab3_step s0 s \<and> kids s = [(pid, c)] \<and> c_pc c = C_Dead \<and> printed c = None
    \<and> show_all_processes s = [pid]"
proof -
  let ?s1 = "lab3_command ''+'' pid s0" and ?s2 = "lab3_command ''g'' (-1) (lab3_command ''+'' pid s0)"
  let ?s3 = "?s2\<lparr>kids := [(pid, (forked s0)\<lparr>c_pc := C_Dead\<rparr>)]\<rparr>"
  note defs = lab3_command_def create_child_def allow_stdout_for_all_def kill_USR_def on_kid_def
    pids_def Let_def
  have s0: "s0 = \<lparr>all_processes = replicate MAX_PROCESSES 0, process_count = 0, stdout_open = True,
     kids = [], status = Running\<rparr>" using assms(1) by (simp add: lab3_start_def)
  have "lab3_step s0 ?s1" by (rule lab3_step.cmd) (use s0 assms(2) in \<open>simp_all add: pids_def\<close>)
  then have "steps lab3_step s0 ?s1" by (rule steps_single)
  then have "steps lab3_step s0 ?s2"
    by (rule steps_snoc) (rule lab3_step.cmd, use s0 assms(2) in \<open>simp_all add: defs\<close>)
  moreover have k: "kids ?s2 = [(pid, (forked s0)\<lparr>pending := [SIGUSR1]\<rparr>)]"
    using s0 assms(2) by (simp add: defs forked_def)
  have "lab3_step ?s2 (?s2\<lparr>kids := (kids ?s2)[0 := (fst (kids ?s2 ! 0), deliver SIGUSR1 (snd (kids ?s2 ! 0)))]\<rparr>)"
    by (rule lab3_step.signal) (simp_all add: k)
  then have "lab3_step ?s2 ?s3" by (simp add: k deliver_def forked_def)
  ultimately have "steps lab3_step s0 ?s3" by (rule steps_snoc)
  moreover have "show_all_processes ?s3 = [pid]"
    using s0 assms(2) by (simp add: show_all_processes_def defs)
  ultimately show ?thesis by (intro exI [of _ ?s3]) (simp add: forked_def)
qed

subsection \<open>Witnesses\<close>

text \<open>A child that is struck by the timer once in each iteration, always with \<open>data\<close> at 00.\<close>

definition kid :: "nat \<Rightarrow> child" where
  "kid n = \<lparr>c_pc = C_Reset, iter = n, contin = (n > 0), data_a = 0, data_b = 0, stat = [int n, 0, 0, 0],
     is_stdout_open = True, timer_armed = False, alarm_pending = False, pending = [], printed = None\<rparr>"

definition solo :: "child \<Rightarrow> lab3" where
  "solo c = \<lparr>all_processes = (replicate MAX_PROCESSES 0)[0 := 7], process_count = 1, stdout_open = True,
     kids = [(7, c)], status = Running\<rparr>"

definition lab3_initial :: lab3 where
  "lab3_initial = \<lparr>all_processes = replicate MAX_PROCESSES 0, process_count = 0, stdout_open = True,
     kids = [], status = Running\<rparr>"

lemma solo_run: "child_step c = Some c' \<Longrightarrow> lab3_step (solo c) (solo c')"
  using lab3_step.run [of 0 "solo c" c'] by (simp add: solo_def)

lemma solo_expire: "timer_armed c \<Longrightarrow> lab3_step (solo c) (solo (c\<lparr>alarm_pending := True\<rparr>))"
  using lab3_step.expire [of 0 "solo c"] by (simp add: solo_def)

lemma solo_alarm: "alarm_pending c \<Longrightarrow> c_pc c \<noteq> C_Dead \<Longrightarrow>
    lab3_step (solo c) (solo ((alarm_handler c)\<lparr>alarm_pending := False\<rparr>))"
  using lab3_step.alarm [of 0 "solo c"] by (simp add: solo_def)

lemma solo_created: "steps lab3_step lab3_initial (solo (kid 0))"
proof -
  have "lab3_step lab3_initial (lab3_command ''+'' 7 lab3_initial)"
    by (rule lab3_step.cmd) (simp_all add: lab3_initial_def pids_def)
  also have "lab3_command ''+'' 7 lab3_initial = solo (forked lab3_initial)"
    by (simp add: lab3_command_def create_child_def lab3_initial_def solo_def forked_def)
  finally have "steps lab3_step lab3_initial (solo (forked lab3_initial))" by (rule steps_single)
  moreover have "lab3_step (solo (forked lab3_initial)) (solo (kid 0))"
    by (rule solo_run) (simp add: child_step_def forked_def kid_def lab3_initial_def)
  ultimately show ?thesis by (rule steps_snoc)
qed

lemma solo_cycle: "n < CYCLE_ITERATIONS_COUNT \<Longrightarrow> steps lab3_step (solo (kid n)) (solo (kid (Suc n)))"
proof -
  assume n: "n < CYCLE_ITERATIONS_COUNT"
  let ?a = "(kid n)\<lparr>contin := False, c_pc := C_Timer\<rparr>"
  let ?b = "?a\<lparr>timer_armed := True, c_pc := C_Test\<rparr>"
  let ?c = "(alarm_handler (?b\<lparr>alarm_pending := True\<rparr>))\<lparr>alarm_pending := False\<rparr>"
  let ?d = "?c\<lparr>c_pc := C_Delete\<rparr>"
  have "lab3_step (solo (kid n)) (solo ?a)"
    by (rule solo_run) (use n in \<open>simp add: child_step_def kid_def\<close>)
  moreover have "lab3_step (solo ?a) (solo ?b)" by (rule solo_run) (simp add: child_step_def setup_timer_def)
  moreover have "lab3_step (solo ?b) (solo (?b\<lparr>alarm_pending := True\<rparr>))" by (rule solo_expire) simp
  moreover have "lab3_step (solo (?b\<lparr>alarm_pending := True\<rparr>)) (solo ?c)" by (rule solo_alarm) simp_all
  moreover have "lab3_step (solo ?c) (solo ?d)"
    by (rule solo_run) (simp add: child_step_def alarm_handler_def Let_def)
  moreover have "lab3_step (solo ?d) (solo (kid (Suc n)))"
    by (rule solo_run) (simp add: child_step_def alarm_handler_def kid_def timer_delete_def Let_def)
  ultimately show ?thesis by (meson steps.intros)
qed

lemma solo_cycles: "n \<le> CYCLE_ITERATIONS_COUNT \<Longrightarrow> steps lab3_step lab3_initial (solo (kid n))"
proof (induction n)
  case 0
  show ?case by (rule solo_created)
next
  case (Suc n)
  then show ?case using solo_cycle [of n] by (auto intro: steps_trans)
qed

definition finished_kid :: child where
  "finished_kid = (kid CYCLE_ITERATIONS_COUNT)\<lparr>c_pc := C_Dead, printed := Some [5000, 0, 0, 0]\<rparr>"

lemma solo_finished: "steps lab3_step lab3_initial (solo finished_kid)"
proof -
  let ?k = "kid CYCLE_ITERATIONS_COUNT"
  have "lab3_step (solo ?k) (solo (?k\<lparr>c_pc := C_Print\<rparr>))"
    by (rule solo_run) (simp add: child_step_def kid_def)
  moreover have "lab3_step (solo (?k\<lparr>c_pc := C_Print\<rparr>)) (solo finished_kid)"
    by (rule solo_run) (simp add: child_step_def print_statistic_def finished_kid_def kid_def)
  ultimately show ?thesis using solo_cycles [of CYCLE_ITERATIONS_COUNT] by (auto intro: steps_snoc)
qed

lemma initial_start: "lab3_start lab3_initial"
  by (simp add: lab3_start_def lab3_initial_def)

theorem lab3_statistics_witness: "length [5000, 0, 0, 0 :: int] = 4 \<and> sum_list [5000, 0, 0, 0] \<ge> int CYCLE_ITERATIONS_COUNT"
  by (rule lab3_statistics [OF initial_start solo_finished, of 7 finished_kid])
    (simp_all add: solo_def finished_kid_def)


end
