(* ===== verification/Access_Manager.thy ===== *)
theory Access_Manager
  imports C_String "HOL-Library.AList" "HOL-Library.Sublist"
begin

section \<open>Access_manager: running programs on copies of files (Access_manager/)\<close>

text \<open>
  The files are an association list from paths to contents. A program that is executed is a
  parameter: from its name, its arguments and the contents of the file it gets, it yields the new
  contents (or none, if it removes the file) and its output; it touches no other file. Whether a
  path can be created, the hash function and what \<open>scandir\<close> lists are parameters too. \<open>fork\<close> and
  the allocation of memory do not fail.
\<close>

abbreviation (input) PATH_MAX :: nat where "PATH_MAX \<equiv> 4096"
abbreviation (input) BUFFER_SIZE :: nat where "BUFFER_SIZE \<equiv> 1024"
abbreviation (input) MAX_PARALLEL_PROCESSES :: nat where "MAX_PARALLEL_PROCESSES \<equiv> 10"

record program_info =
  prog_name :: string
  prog_args :: "string list"
  file_patterns :: "string list"
  processed_files :: "string list"
  prog_output :: "string option"

type_synonym files = "(string \<times> string) list"
type_synonym program = "string \<Rightarrow> string list \<Rightarrow> string \<Rightarrow> string option \<times> string"

subsection \<open>The functions of access\_manager.c\<close>

definition get_md5_hash :: "(string \<Rightarrow> string) \<Rightarrow> files \<Rightarrow> string \<Rightarrow> string option" where
  "get_md5_hash md5 fs path = map_option md5 (map_of fs path)"

text \<open>Both files are opened before the test, the second one being created or emptied.\<close>

definition copy_file :: "(string \<Rightarrow> bool) \<Rightarrow> files \<Rightarrow> string \<Rightarrow> string \<Rightarrow> files \<times> int" where
  "copy_file can_create fs src dst =
     (let inp = (map_of fs src \<noteq> None);
          fs' = (if can_create dst then AList.update dst [] fs else fs) in
      if \<not> inp \<or> \<not> can_create dst then (fs', -1)
      else (AList.update dst (the (map_of fs' src)) fs', 0))"

definition modify_filename :: "string \<Rightarrow> string \<Rightarrow> string" where
  "modify_filename filename progname =
     (let base = (if CHR ''.'' \<in> set filename
                  then rev (tl (dropWhile (\<lambda>c. c \<noteq> CHR ''.'') (rev filename))) else filename)
      in base @ ''_'' @ progname)"

text \<open>A directory that cannot be opened counts as empty.\<close>

definition is_dir_empty :: "string list option \<Rightarrow> bool" where
  "is_dir_empty entries =
     (case entries of
        None \<Rightarrow> True
      | Some names \<Rightarrow> length (filter (\<lambda>d. d \<noteq> ''.'' \<and> d \<noteq> ''..'') names) = 0)"

text \<open>\<open>execute_program\<close>: the child opens the output file, then runs the program on the copy.\<close>

definition execute_program ::
  "(string \<Rightarrow> bool) \<Rightarrow> program \<Rightarrow> string \<Rightarrow> program_info \<Rightarrow> string \<Rightarrow> files \<Rightarrow> files" where
  "execute_program can_create run filepath prog output_path fs =
     (if \<not> can_create output_path then fs
      else
        let (contents, out) = run (prog_name prog) (prog_args prog @ [filepath]) (the (map_of fs filepath));
            fs = AList.update output_path out fs in
        (case contents of
           None \<Rightarrow> AList.delete filepath fs
         | Some c \<Rightarrow> AList.update filepath c fs))"

text \<open>The text that the loop of \<open>print_output_and_remove\<close> collects.\<close>

function collect_output :: "string \<Rightarrow> string" where
  "collect_output f =
     (case fgets BUFFER_SIZE f of None \<Rightarrow> [] | Some (line, rest) \<Rightarrow> cstr line @ collect_output rest)"
  by pat_completeness auto
termination
  by (relation "measure length") (auto dest!: fgets_shorter)

declare collect_output.simps [simp del]

definition print_output_and_remove :: "string \<Rightarrow> program_info \<Rightarrow> files \<Rightarrow> program_info \<times> files" where
  "print_output_and_remove path prog fs =
     (case map_of fs path of
        None \<Rightarrow> (prog, fs)
      | Some f \<Rightarrow>
          let out = collect_output f in
          (prog\<lparr>prog_output := Some (case prog_output prog of None \<Rightarrow> out | Some old \<Rightarrow> old @ out)\<rparr>,
           AList.delete path fs))"

subsection \<open>main\<close>

text \<open>The programs described by the arguments behind the directory.\<close>

function parse_programs :: "string list \<Rightarrow> program_info list" where
  "parse_programs [] = []"
| "parse_programs (a # as) =
     (if a = ''--'' then parse_programs as
      else
        let more = takeWhile (\<lambda>x. x \<noteq> ''--'' \<and> x \<noteq> ''--files'') as;
            rest = dropWhile (\<lambda>x. x \<noteq> ''--'' \<and> x \<noteq> ''--files'') as;
            p = \<lparr>prog_name = a, prog_args = a # more, file_patterns = [], processed_files = [], prog_output = None\<rparr>
        in if rest \<noteq> [] \<and> hd rest = ''--files''
           then p\<lparr>file_patterns := takeWhile (\<lambda>x. x \<noteq> ''--'') (tl rest)\<rparr>
                # parse_programs (dropWhile (\<lambda>x. x \<noteq> ''--'') (tl rest))
           else p # parse_programs rest)"
  by pat_completeness auto
termination
proof (relation "measure length")
  fix a :: string and as more rest :: "string list" and p :: program_info
  assume "rest = dropWhile (\<lambda>x. x \<noteq> ''--'' \<and> x \<noteq> ''--files'') as" "rest \<noteq> [] \<and> hd rest = ''--files''"
  then have "length (dropWhile (\<lambda>x. x \<noteq> ''--'') (tl rest)) \<le> length as"
    by (metis (no_types, lifting) diff_le_self dual_order.trans length_dropWhile_le length_tl)
  then show "(dropWhile (\<lambda>x. x \<noteq> ''--'') (tl rest), a # as) \<in> measure length" by simp
qed (auto simp: length_dropWhile_le less_Suc_eq_le)

text \<open>\<open>strstr\<close> finds a pattern that is a part of the name.\<close>

definition program_matches :: "program_info \<Rightarrow> string \<Rightarrow> bool" where
  "program_matches prog filename \<longleftrightarrow>
     file_patterns prog = [] \<or> list_ex (\<lambda>pat. sublist pat filename) (file_patterns prog)"

definition copy_path :: "string \<Rightarrow> string \<Rightarrow> program_info \<Rightarrow> string" where
  "copy_path copy_dir filename prog =
     take (PATH_MAX - 1) (copy_dir @ ''/'' @ modify_filename filename (prog_name prog))"

definition temp_out :: "string \<Rightarrow> string" where
  "temp_out copypath = take (PATH_MAX - 1) (copypath @ ''.out'')"

text \<open>The body of the loop over the programs. The counter of active processes is 0 around it.\<close>

definition process_program ::
  "(string \<Rightarrow> string) \<Rightarrow> (string \<Rightarrow> bool) \<Rightarrow> program \<Rightarrow> string \<Rightarrow> string \<Rightarrow> string \<Rightarrow> program_info \<Rightarrow> files \<Rightarrow>
   program_info \<times> files" where
  "process_program md5 can_create run directory copy_dir filename prog fs =
     (let fullpath = take (PATH_MAX - 1) (directory @ ''/'' @ filename) in
      if \<not> program_matches prog filename then (prog, fs)
      else
        let modname = modify_filename filename (prog_name prog);
            copypath = copy_path copy_dir filename prog;
            (fs, r) = copy_file can_create fs fullpath copypath in
        if r \<noteq> 0 then (prog, fs)
        else
          let before_hash = get_md5_hash md5 fs copypath;
              fs = execute_program can_create run copypath prog (temp_out copypath) fs;
              after_hash = get_md5_hash md5 fs copypath;
              fs = (if before_hash \<noteq> None \<and> after_hash \<noteq> None \<and> before_hash = after_hash
                    then AList.delete copypath fs else fs);
              (prog, fs) = print_output_and_remove (temp_out copypath) prog fs
          in (prog\<lparr>processed_files := processed_files prog @ [modname]\<rparr>, fs))"

fun process_file ::
  "(string \<Rightarrow> string) \<Rightarrow> (string \<Rightarrow> bool) \<Rightarrow> program \<Rightarrow> string \<Rightarrow> string \<Rightarrow> string \<Rightarrow> program_info list \<Rightarrow> files \<Rightarrow>
   program_info list \<times> files" where
  "process_file md5 can_create run directory copy_dir filename [] fs = ([], fs)"
| "process_file md5 can_create run directory copy_dir filename (prog # progs) fs =
     (let (prog, fs) = process_program md5 can_create run directory copy_dir filename prog fs;
          (progs, fs) = process_file md5 can_create run directory copy_dir filename progs fs
      in (prog # progs, fs))"

text \<open>The loop over the directory's entries: a name and whether it is a regular file.\<close>

fun process_entries ::
  "(string \<Rightarrow> string) \<Rightarrow> (string \<Rightarrow> bool) \<Rightarrow> program \<Rightarrow> string \<Rightarrow> string \<Rightarrow> (string \<times> bool) list \<Rightarrow> program_info list \<Rightarrow> files \<Rightarrow>
   program_info list \<times> files" where
  "process_entries md5 can_create run directory copy_dir [] progs fs = (progs, fs)"
| "process_entries md5 can_create run directory copy_dir ((filename, is_reg) # es) progs fs =
     (if \<not> is_reg then process_entries md5 can_create run directory copy_dir es progs fs
      else
        let (progs, fs) = process_file md5 can_create run directory copy_dir filename progs fs
        in process_entries md5 can_create run directory copy_dir es progs fs)"

text \<open>The names of the files in a directory.\<close>

definition dir_entries :: "string \<Rightarrow> files \<Rightarrow> string list" where
  "dir_entries dir fs = map (drop (length dir + 1)) (filter (prefix (dir @ ''/'')) (map fst fs))"

text \<open>
  The results that are printed, the files, and whether the directory of the copies is removed; or
  the exit status. \<open>realpath\<close> and \<open>scandir\<close> are what these functions return.
\<close>

definition access_manager ::
  "(string \<Rightarrow> string) \<Rightarrow> (string \<Rightarrow> bool) \<Rightarrow> program \<Rightarrow> (string \<Rightarrow> string option) \<Rightarrow> (string \<Rightarrow> (string \<times> bool) list option) \<Rightarrow>
   string list \<Rightarrow> files \<Rightarrow> int + (string \<times> string) list \<times> files \<times> bool" where
  "access_manager md5 can_create run realpath scandir argv fs =
     (if length argv < 3 then Inl 1
      else
        (case realpath (argv ! 1) of
           None \<Rightarrow> Inl 1
         | Some directory \<Rightarrow>
             let copy_dir = take (PATH_MAX - 1) (directory @ ''/copy'');
                 programs = parse_programs (drop 2 argv) in
             (case scandir directory of
                None \<Rightarrow> Inl 1
              | Some namelist \<Rightarrow>
                  let (programs, fs) = process_entries md5 can_create run directory copy_dir namelist programs fs;
                      results = concat (map (\<lambda>p. case prog_output p of None \<Rightarrow> [] | Some out \<Rightarrow> [(prog_name p, out)]) programs)
                  in Inr (results, fs, is_dir_empty (Some (dir_entries copy_dir fs))))))"


subsection \<open>Which files change\<close>

lemma map_of_update: "map_of (AList.update k v al) k' = (if k' = k then Some v else map_of al k')"
  by (simp add: update_conv')

lemma map_of_delete: "map_of (AList.delete k al) k' = (if k' = k then None else map_of al k')"
  by (simp add: delete_conv')

named_theorems file_simps "lookups behind the operations on files"

lemmas [file_simps] = map_of_update map_of_delete

lemma copy_file_other [file_simps]:
  "p \<noteq> dst \<Longrightarrow> map_of (fst (copy_file can_create fs src dst)) p = map_of fs p"
  by (simp add: copy_file_def Let_def file_simps)

lemma execute_program_other [file_simps]:
  "p \<noteq> filepath \<Longrightarrow> p \<noteq> output_path \<Longrightarrow>
   map_of (execute_program can_create run filepath prog output_path fs) p = map_of fs p"
  by (simp add: execute_program_def Let_def file_simps split: prod.split option.split)

lemma print_output_other [file_simps]:
  "p \<noteq> path \<Longrightarrow> map_of (snd (print_output_and_remove path prog fs)) p = map_of fs p"
  by (simp add: print_output_and_remove_def Let_def file_simps split: option.split)

lemma process_program_other:
  assumes "p \<noteq> copy_path copy_dir filename prog" "p \<noteq> temp_out (copy_path copy_dir filename prog)"
  shows "map_of (snd (process_program md5 can_create run directory copy_dir filename prog fs)) p = map_of fs p"
proof -
  define c where "c = copy_path copy_dir filename prog"
  obtain fs1 r where cp: "copy_file can_create fs (take (PATH_MAX - 1) (directory @ ''/'' @ filename)) c = (fs1, r)"
    by fastforce
  define fs2 where "fs2 = execute_program can_create run c prog (temp_out c) fs1"
  define fs3 where "fs3 = (if get_md5_hash md5 fs1 c \<noteq> None \<and> get_md5_hash md5 fs2 c \<noteq> None
      \<and> get_md5_hash md5 fs1 c = get_md5_hash md5 fs2 c then AList.delete c fs2 else fs2)"
  have 1: "map_of fs1 p = map_of fs p" by (metis assms(1) c_def copy_file_other cp fst_conv)
  have 2: "map_of fs3 p = map_of fs1 p" using assms by (simp add: fs3_def fs2_def file_simps c_def)
  have 3: "map_of (snd (print_output_and_remove (temp_out c) prog fs3)) p = map_of fs3 p"
    using assms by (simp add: file_simps c_def)
  have "snd (process_program md5 can_create run directory copy_dir filename prog fs) =
      (if \<not> program_matches prog filename then fs else if r \<noteq> 0 then fs1
       else snd (print_output_and_remove (temp_out c) prog fs3))"
    unfolding process_program_def Let_def c_def [symmetric] cp fs2_def fs3_def
    by (simp add: case_prod_unfold)
  with 1 2 3 show ?thesis by simp
qed

lemma prefix_take: "prefix ys xs \<Longrightarrow> length ys \<le> n \<Longrightarrow> prefix ys (take n xs)"
  by (auto simp: prefix_def)

lemma copy_path_prefix:
  assumes "length copy_dir < PATH_MAX - 1"
  shows "prefix (copy_dir @ ''/'') (copy_path copy_dir filename prog)"
    and "prefix (copy_dir @ ''/'') (temp_out (copy_path copy_dir filename prog))"
proof -
  show c: "prefix (copy_dir @ ''/'') (copy_path copy_dir filename prog)"
    unfolding copy_path_def by (rule prefix_take) (use assms in auto)
  show "prefix (copy_dir @ ''/'') (temp_out (copy_path copy_dir filename prog))"
    unfolding temp_out_def by (rule prefix_take) (use assms prefix_prefix [OF c] in auto)
qed

lemma process_file_other:
  assumes "length copy_dir < PATH_MAX - 1" "\<not> prefix (copy_dir @ ''/'') p"
  shows "map_of (snd (process_file md5 can_create run directory copy_dir filename progs fs)) p = map_of fs p"
proof (induction progs arbitrary: fs)
  case Nil
  then show ?case by simp
next
  case (Cons prog progs)
  have "p \<noteq> copy_path copy_dir filename prog" "p \<noteq> temp_out (copy_path copy_dir filename prog)"
    using copy_path_prefix [OF assms(1), of filename prog] assms(2) by auto
  with Cons process_program_other [of p copy_dir filename prog md5 can_create run directory fs]
  show ?case by (auto simp: Let_def split: prod.split) (metis snd_conv)
qed

lemma process_entries_other:
  assumes "length copy_dir < PATH_MAX - 1" "\<not> prefix (copy_dir @ ''/'') p"
  shows "map_of (snd (process_entries md5 can_create run directory copy_dir es progs fs)) p = map_of fs p"
proof (induction es arbitrary: progs fs)
  case Nil
  then show ?case by simp
next
  case (Cons e es)
  obtain filename is_reg where e: "e = (filename, is_reg)" by fastforce
  with Cons process_file_other [OF assms, of md5 can_create run directory filename progs fs]
  show ?case by (auto simp: Let_def split: prod.split)
qed



text \<open>Output without NUL characters is collected as it is.\<close>

lemma collect_output_id: "NUL \<notin> set f \<Longrightarrow> collect_output f = f"
proof (induction f rule: collect_output.induct)
  case (1 f)
  show ?case
  proof (cases "fgets BUFFER_SIZE f")
    case None
    then show ?thesis by (subst collect_output.simps) (simp add: fgets_def split: if_splits)
  next
    case (Some lr)
    obtain line rest where lr: "lr = (line, rest)" by fastforce
    with Some have f: "line @ rest = f"
      using read_upto_append [of "BUFFER_SIZE - 1" f line rest] by (simp add: fgets_def split: if_splits)
    with 1(2) have "NUL \<notin> set line" "NUL \<notin> set rest" by auto
    with 1(1) [OF Some lr [symmetric]] Some lr f show ?thesis
      by (subst collect_output.simps) (simp add: cstr_no_nul)
  qed
qed

text \<open>One program on one file that it selects.\<close>

lemma process_program_selected:
  assumes selected: "program_matches prog filename"
    and original: "map_of fs (take (PATH_MAX - 1) (directory @ ''/'' @ filename)) = Some c"
      "take (PATH_MAX - 1) (directory @ ''/'' @ filename) \<noteq> copy_path copy_dir filename prog"
    and creatable: "can_create (copy_path copy_dir filename prog)"
      "can_create (temp_out (copy_path copy_dir filename prog))"
    and fits: "length (copy_path copy_dir filename prog) + 4 < PATH_MAX"
    and execution: "run (prog_name prog) (prog_args prog @ [copy_path copy_dir filename prog]) c = (Some c', out)"
      "NUL \<notin> set out"
  shows "\<exists>fs'. process_program md5 can_create run directory copy_dir filename prog fs =
      (prog\<lparr>prog_output := Some (case prog_output prog of None \<Rightarrow> out | Some old \<Rightarrow> old @ out),
            processed_files := processed_files prog @ [modify_filename filename (prog_name prog)]\<rparr>, fs')
    \<and> map_of fs' = (map_of fs)(copy_path copy_dir filename prog := (if md5 c' = md5 c then None else Some c'),
                              temp_out (copy_path copy_dir filename prog) := None)"
proof -
  define src where "src = take (PATH_MAX - 1) (directory @ ''/'' @ filename)"
  define cp where "cp = copy_path copy_dir filename prog"
  define tmp where "tmp = temp_out cp"
  have ne: "tmp \<noteq> cp" "src \<noteq> cp"
    using fits original(2) by (auto simp: tmp_def temp_out_def cp_def src_def)
  define fs1 where "fs1 = AList.update cp c (AList.update cp [] fs)"
  have copy: "copy_file can_create fs src cp = (fs1, 0)"
    using original(1) [folded src_def] creatable(1) [folded cp_def] ne
    by (simp add: copy_file_def fs1_def map_of_update Let_def)
  define fs2 where "fs2 = AList.update cp c' (AList.update tmp out fs1)"
  have "run (prog_name prog) (prog_args prog @ [cp]) (the (map_of fs1 cp)) = (Some c', out)"
    using execution(1) by (simp add: fs1_def map_of_update cp_def)
  then have exec: "execute_program can_create run cp prog tmp fs1 = fs2"
    using creatable(2) by (simp add: execute_program_def fs2_def tmp_def cp_def)
  define fs3 where "fs3 = (if md5 c' = md5 c then AList.delete cp fs2 else fs2)"
  have hash: "get_md5_hash md5 fs1 cp = Some (md5 c)" "get_md5_hash md5 fs2 cp = Some (md5 c')"
    by (simp_all add: get_md5_hash_def fs1_def fs2_def map_of_update)
  have kept: "(if get_md5_hash md5 fs1 cp \<noteq> None \<and> get_md5_hash md5 fs2 cp \<noteq> None
      \<and> get_md5_hash md5 fs1 cp = get_md5_hash md5 fs2 cp then AList.delete cp fs2 else fs2) = fs3"
    by (auto simp: hash fs3_def)
  have "map_of fs3 tmp = Some out"
    using ne by (simp add: fs3_def fs2_def map_of_update map_of_delete)
  then have pr: "print_output_and_remove tmp prog fs3 =
      (prog\<lparr>prog_output := Some (case prog_output prog of None \<Rightarrow> out | Some old \<Rightarrow> old @ out)\<rparr>, AList.delete tmp fs3)"
    using collect_output_id [OF execution(2)] by (simp add: print_output_and_remove_def)
  have "process_program md5 can_create run directory copy_dir filename prog fs =
      (prog\<lparr>prog_output := Some (case prog_output prog of None \<Rightarrow> out | Some old \<Rightarrow> old @ out),
            processed_files := processed_files prog @ [modify_filename filename (prog_name prog)]\<rparr>, AList.delete tmp fs3)"
    unfolding process_program_def Let_def src_def [symmetric] cp_def [symmetric] copy prod.case tmp_def [symmetric] exec kept
    using selected pr by simp
  moreover have "map_of (AList.delete tmp fs3) = (map_of fs)(cp := (if md5 c' = md5 c then None else Some c'), tmp := None)"
    by (rule ext) (simp add: fs3_def fs2_def fs1_def map_of_update map_of_delete)
  ultimately show ?thesis by (auto simp: cp_def tmp_def)
qed

text \<open>
  One program on one file that it selects: the copy is kept exactly if its hash changed, the
  temporary output file is gone, the output is appended to what the program printed before, and
  no other file is touched.
\<close>

theorem am_keeps_changed_copies:
  assumes selected: "program_matches prog filename"
    and original: "map_of fs (take (PATH_MAX - 1) (directory @ ''/'' @ filename)) = Some c"
      "take (PATH_MAX - 1) (directory @ ''/'' @ filename) \<noteq> copy_path copy_dir filename prog"
    and creatable: "can_create (copy_path copy_dir filename prog)"
      "can_create (temp_out (copy_path copy_dir filename prog))"
    and fits: "length (copy_path copy_dir filename prog) + 4 < PATH_MAX"
    and execution: "run (prog_name prog) (prog_args prog @ [copy_path copy_dir filename prog]) c = (Some c', out)"
      "NUL \<notin> set out"
  shows "\<exists>fs'. process_program md5 can_create run directory copy_dir filename prog fs =
      (prog\<lparr>prog_output := Some (case prog_output prog of None \<Rightarrow> out | Some old \<Rightarrow> old @ out),
            processed_files := processed_files prog @ [modify_filename filename (prog_name prog)]\<rparr>, fs')
    \<and> map_of fs' = (map_of fs)(copy_path copy_dir filename prog := (if md5 c' = md5 c then None else Some c'),
                              temp_out (copy_path copy_dir filename prog) := None)"
  by (rule process_program_selected) (rule assms)+

subsection \<open>Arguments\<close>

text \<open>A way to write a program down; one that can be read back uses \<open>--\<close> and \<open>--files\<close> only as separators.\<close>

definition render :: "program_info \<Rightarrow> string list" where
  "render p = prog_args p @ (if file_patterns p = [] then [] else ''--files'' # file_patterns p) @ [''--'']"

definition renderable :: "program_info \<Rightarrow> bool" where
  "renderable p \<longleftrightarrow>
     prog_args p \<noteq> [] \<and> hd (prog_args p) = prog_name p \<and> prog_name p \<noteq> ''--''
     \<and> (\<forall>a \<in> set (tl (prog_args p)). a \<noteq> ''--'' \<and> a \<noteq> ''--files'') \<and> (\<forall>a \<in> set (file_patterns p). a \<noteq> ''--'')
     \<and> processed_files p = [] \<and> prog_output p = None"

lemma takeWhile_stop: "\<forall>x \<in> set xs. P x \<Longrightarrow> \<not> P y \<Longrightarrow> takeWhile P (xs @ y # ys) = xs \<and> dropWhile P (xs @ y # ys) = y # ys"
  by (induction xs) auto

text \<open>
  C39. The arguments that describe a list of programs are parsed into exactly these programs, with
  their arguments and patterns.
\<close>

theorem am_parse_render:
  assumes "\<forall>p \<in> set ps. renderable p"
  shows "parse_programs (concat (map render ps)) = ps"
  using assms
proof (induction ps)
  case Nil
  then show ?case by simp
next
  case (Cons p ps)
  let ?rest = "''--'' # concat (map render ps)"
  have r: "parse_programs ?rest = ps" using Cons by simp
  obtain more where a: "prog_args p = prog_name p # more"
    and more: "\<forall>a \<in> set more. a \<noteq> ''--'' \<and> a \<noteq> ''--files''" "prog_name p \<noteq> ''--''"
    and pats: "\<forall>a \<in> set (file_patterns p). a \<noteq> ''--''"
    and fresh: "processed_files p = []" "prog_output p = None"
    using Cons.prems by (cases "prog_args p") (auto simp: renderable_def)
  have p: "p = \<lparr>prog_name = prog_name p, prog_args = prog_name p # more, file_patterns = file_patterns p,
      processed_files = [], prog_output = None\<rparr>"
    using a fresh by simp
  show ?case
  proof (cases "file_patterns p = []")
    case True
    then have c: "concat (map render (p # ps)) = prog_name p # more @ ?rest" by (simp add: render_def a)
    have "takeWhile (\<lambda>x. x \<noteq> ''--'' \<and> x \<noteq> ''--files'') (more @ ?rest) = more
        \<and> dropWhile (\<lambda>x. x \<noteq> ''--'' \<and> x \<noteq> ''--files'') (more @ ?rest) = ?rest"
      by (rule takeWhile_stop [OF more(1)]) simp
    then show ?thesis
      unfolding c using more(2) r True by (subst parse_programs.simps(2)) (simp add: Let_def p [symmetric] del: parse_programs.simps, metis p)
  next
    case False
    then have c: "concat (map render (p # ps)) = prog_name p # more @ ''--files'' # file_patterns p @ ?rest"
      by (simp add: render_def a)
    have "takeWhile (\<lambda>x. x \<noteq> ''--'' \<and> x \<noteq> ''--files'') (more @ ''--files'' # file_patterns p @ ?rest) = more
        \<and> dropWhile (\<lambda>x. x \<noteq> ''--'' \<and> x \<noteq> ''--files'') (more @ ''--files'' # file_patterns p @ ?rest)
          = ''--files'' # file_patterns p @ ?rest"
      by (rule takeWhile_stop [OF more(1)]) simp
    moreover have "takeWhile (\<lambda>x. x \<noteq> ''--'') (file_patterns p @ ?rest) = file_patterns p
        \<and> dropWhile (\<lambda>x. x \<noteq> ''--'') (file_patterns p @ ?rest) = ?rest"
      by (rule takeWhile_stop [OF pats]) simp
    ultimately show ?thesis
      unfolding c using more(2) r by (subst parse_programs.simps(2)) (simp add: Let_def del: parse_programs.simps, metis p)
  qed
qed


text \<open>
  The copies of two files whose names differ only behind the last dot have the same path: the
  second one overwrites the first, changed or not.
\<close>

lemma modify_filename_drops_extension:
  "CHR ''.'' \<notin> set e \<Longrightarrow> modify_filename (b @ ''.'' @ e) progname = b @ ''_'' @ progname"
proof -
  assume e: "CHR ''.'' \<notin> set e"
  then have "dropWhile (\<lambda>c. c \<noteq> CHR ''.'') (rev e @ CHR ''.'' # rev b) = CHR ''.'' # rev b"
    by (subst dropWhile_append2) auto
  then show ?thesis by (simp add: modify_filename_def Let_def)
qed

theorem am_same_stem_collides:
  "CHR ''.'' \<notin> set e1 \<Longrightarrow> CHR ''.'' \<notin> set e2 \<Longrightarrow>
   copy_path copy_dir (b @ ''.'' @ e1) prog = copy_path copy_dir (b @ ''.'' @ e2) prog"
  by (simp only: copy_path_def modify_filename_drops_extension not_False_eq_True)

subsection \<open>Witnesses\<close>

definition demo_run :: program where
  "demo_run name args c = (Some (c @ ''!''), ''ok'')"

definition demo_files :: files where
  "demo_files = [(''/d/a.c'', ''x''), (''/d/b'', ''y'')]"

definition demo_prog :: program_info where
  "demo_prog = \<lparr>prog_name = ''up'', prog_args = [''up'', ''-v''], file_patterns = [''.c''], processed_files = [],
     prog_output = None\<rparr>"


theorem am_keeps_changed_copies_witness:
  "\<exists>fs'. process_program id (\<lambda>p. True) demo_run ''/d'' ''/d/copy'' ''a.c'' demo_prog demo_files =
      (demo_prog\<lparr>prog_output := Some ''ok'', processed_files := [''a_up'']\<rparr>, fs')
    \<and> map_of fs' = (map_of demo_files)(''/d/copy/a_up'' := Some ''x!'', ''/d/copy/a_up.out'' := None)"
proof -
  have c: "copy_path ''/d/copy'' ''a.c'' demo_prog = ''/d/copy/a_up''" "temp_out ''/d/copy/a_up'' = ''/d/copy/a_up.out''"
    "modify_filename ''a.c'' ''up'' = ''a_up''"
    by code_simp+
  have s: "program_matches demo_prog ''a.c''" by code_simp
  show ?thesis
    using am_keeps_changed_copies [OF s, of demo_files "''/d''" "''x''" "''/d/copy''" "\<lambda>p. True" demo_run "''x!''" "''ok''" id]
    by (simp add: c) (simp add: demo_files_def demo_run_def demo_prog_def c)
qed

theorem am_parse_render_witness:
  "parse_programs (concat (map render [demo_prog, demo_prog\<lparr>file_patterns := []\<rparr>])) =
    [demo_prog, demo_prog\<lparr>file_patterns := []\<rparr>]"
  by (rule am_parse_render) (simp add: renderable_def demo_prog_def)

end
