(* ===== verification/Access_Runs.thy ===== *)
theory Access_Runs
  imports Access_Manager
begin

section \<open>Access_manager: what a whole run does\<close>

text \<open>
  A specification of \<open>main\<close>: the jobs are the pairs of a regular file of the directory and a program
  that selects it, in the order of the two loops. Every job works on the original contents of its
  file; the final files are the original ones changed by the jobs one after the other, and what is
  printed for a program is what it wrote, file by file. That two jobs may have the same copy
  (\<open>am_same_stem_collides\<close>) is part of the specification: the later one wins.
\<close>

definition source_path :: "string \<Rightarrow> string \<Rightarrow> string" where
  "source_path directory filename = take (PATH_MAX - 1) (directory @ ''/'' @ filename)"

text \<open>What the program leaves of the copy and what it writes.\<close>

definition job_result ::
  "program \<Rightarrow> string \<Rightarrow> string \<Rightarrow> files \<Rightarrow> string \<Rightarrow> program_info \<Rightarrow> string option \<times> string" where
  "job_result run directory copy_dir fs filename p =
     run (prog_name p) (prog_args p @ [copy_path copy_dir filename p])
       (the (map_of fs (source_path directory filename)))"

text \<open>What a job does to the files.\<close>

definition job_update ::
  "(string \<Rightarrow> string) \<Rightarrow> program \<Rightarrow> string \<Rightarrow> string \<Rightarrow> files \<Rightarrow> string \<times> program_info \<Rightarrow>
   (string \<rightharpoonup> string) \<Rightarrow> (string \<rightharpoonup> string)" where
  "job_update md5 run directory copy_dir fs = (\<lambda>(filename, p) m.
     let old = the (map_of fs (source_path directory filename));
         new = the (fst (job_result run directory copy_dir fs filename p)) in
     m(copy_path copy_dir filename p := (if md5 new = md5 old then None else Some new),
       temp_out (copy_path copy_dir filename p) := None))"

definition files_of :: "program_info \<Rightarrow> (string \<times> bool) list \<Rightarrow> string list" where
  "files_of p es = map fst (filter (\<lambda>(f, is_reg). is_reg \<and> program_matches p f) es)"

definition jobs :: "(string \<times> bool) list \<Rightarrow> program_info list \<Rightarrow> (string \<times> program_info) list" where
  "jobs es progs =
     concat (map (\<lambda>(f, is_reg). if is_reg then map (Pair f) (filter (\<lambda>p. program_matches p f) progs) else []) es)"

text \<open>
  A job that nothing prevents: the file is there, its paths fit into the buffers, the copy and the
  temporary file can be created, and the program leaves the copy in place and writes text.
\<close>

definition job_ok ::
  "(string \<Rightarrow> bool) \<Rightarrow> program \<Rightarrow> string \<Rightarrow> string \<Rightarrow> files \<Rightarrow> string \<times> program_info \<Rightarrow> bool" where
  "job_ok can_create run directory copy_dir fs = (\<lambda>(filename, p).
     CHR ''/'' \<notin> set filename \<and> length (directory @ ''/'' @ filename) < PATH_MAX
     \<and> map_of fs (source_path directory filename) \<noteq> None
     \<and> length (copy_path copy_dir filename p) + 4 < PATH_MAX
     \<and> can_create (copy_path copy_dir filename p) \<and> can_create (temp_out (copy_path copy_dir filename p))
     \<and> fst (job_result run directory copy_dir fs filename p) \<noteq> None
     \<and> NUL \<notin> set (snd (job_result run directory copy_dir fs filename p)))"

text \<open>A program's record after it has been run on some files.\<close>

definition credit ::
  "program \<Rightarrow> string \<Rightarrow> string \<Rightarrow> files \<Rightarrow> program_info \<Rightarrow> string list \<Rightarrow> program_info" where
  "credit run directory copy_dir fs p names =
     (if names = [] then p
      else p\<lparr>prog_output := Some ((case prog_output p of None \<Rightarrow> [] | Some old \<Rightarrow> old)
               @ concat (map (\<lambda>f. snd (job_result run directory copy_dir fs f p)) names)),
             processed_files := processed_files p @ map (\<lambda>f. modify_filename f (prog_name p)) names\<rparr>)"

subsection \<open>Running a program does not change what it is\<close>

lemma credit_sel [simp]:
  "prog_name (credit run directory copy_dir fs p names) = prog_name p"
  "prog_args (credit run directory copy_dir fs p names) = prog_args p"
  "file_patterns (credit run directory copy_dir fs p names) = file_patterns p"
  by (simp_all add: credit_def)

lemma credit_same [simp]:
  "program_matches (credit run directory copy_dir fs p names) f = program_matches p f"
  "copy_path dir f (credit run directory copy_dir fs p names) = copy_path dir f p"
  "job_result r d c s f (credit run directory copy_dir fs p names) = job_result r d c s f p"
  "job_update md5 r d c s (f, credit run directory copy_dir fs p names) = job_update md5 r d c s (f, p)"
  "job_ok can_create r d c s (f, credit run directory copy_dir fs p names) = job_ok can_create r d c s (f, p)"
  "files_of (credit run directory copy_dir fs p names) es = files_of p es"
  by (simp_all add: program_matches_def copy_path_def job_result_def job_update_def job_ok_def files_of_def)

lemma credit_append [simp]:
  "credit run directory copy_dir fs (credit run directory copy_dir fs p xs) ys = credit run directory copy_dir fs p (xs @ ys)"
  by (cases "xs = []"; cases "ys = []") (simp_all add: credit_def job_result_def copy_path_def split: option.split)

lemma credit_none [simp]: "credit run directory copy_dir fs p [] = p"
  by (simp add: credit_def)

lemma files_of_simps [simp]:
  "files_of p [] = []"
  "files_of p ((f, is_reg) # es) = (if is_reg \<and> program_matches p f then f # files_of p es else files_of p es)"
  by (simp_all add: files_of_def)

lemma jobs_simps [simp]:
  "jobs [] progs = []"
  "jobs ((f, is_reg) # es) progs =
     (if is_reg then map (Pair f) (filter (\<lambda>p. program_matches p f) progs) else []) @ jobs es progs"
  by (simp_all add: jobs_def)

text \<open>The jobs behind some programs that have already been run on other files.\<close>

lemma jobs_credit:
  "jobs es (map (\<lambda>p. credit run directory copy_dir fs p (g p)) progs) =
     map (\<lambda>(f, p). (f, credit run directory copy_dir fs p (g p))) (jobs es progs)"
  by (induction es) (auto simp: filter_map comp_def)

lemma fold_job_credit:
  "fold (job_update md5 r d c s) (map (\<lambda>(f, p). (f, credit run directory copy_dir fs p (g p))) js) m =
     fold (job_update md5 r d c s) js m"
  by (induction js arbitrary: m) auto

subsection \<open>The loops\<close>

text \<open>The files that the jobs read are not in \<open>copy/\<close>.\<close>

lemma source_outside:
  assumes "CHR ''/'' \<notin> set f" "length (directory @ ''/'' @ f) < PATH_MAX"
  shows "\<not> prefix (directory @ ''/copy/'') (source_path directory f)"
proof
  assume "prefix (directory @ ''/copy/'') (source_path directory f)"
  then have "prefix ''copy/'' f" using assms(2) by (simp add: source_path_def)
  then have "CHR ''/'' \<in> set f" by (auto simp: prefix_def)
  with assms(1) show False by simp
qed

definition untouched :: "string \<Rightarrow> files \<Rightarrow> files \<Rightarrow> bool" where
  "untouched directory fs0 fs \<longleftrightarrow>
     (\<forall>q. \<not> prefix (directory @ ''/copy/'') q \<longrightarrow> map_of fs q = map_of fs0 q)"

lemma process_program_job:
  assumes ok: "program_matches p f \<Longrightarrow> job_ok can_create run directory (directory @ ''/copy'') fs0 (f, p)"
    and same: "untouched directory fs0 fs" and len: "length (directory @ ''/copy'') < PATH_MAX - 1"
  shows "\<exists>fs'. process_program md5 can_create run directory (directory @ ''/copy'') f p fs =
      (credit run directory (directory @ ''/copy'') fs0 p (if program_matches p f then [f] else []), fs')
    \<and> map_of fs' = (if program_matches p f then job_update md5 run directory (directory @ ''/copy'') fs0 (f, p) (map_of fs)
        else map_of fs)
    \<and> untouched directory fs0 fs'"
proof (cases "program_matches p f")
  case False
  with same show ?thesis by (simp add: process_program_def Let_def)
next
  case True
  let ?copy = "directory @ ''/copy''" and ?src = "source_path directory f"
  from ok [OF True] have j: "CHR ''/'' \<notin> set f" "length (directory @ ''/'' @ f) < PATH_MAX" "map_of fs0 ?src \<noteq> None"
    "length (copy_path ?copy f p) + 4 < PATH_MAX" "can_create (copy_path ?copy f p)"
    "can_create (temp_out (copy_path ?copy f p))" "fst (job_result run directory ?copy fs0 f p) \<noteq> None"
    "NUL \<notin> set (snd (job_result run directory ?copy fs0 f p))"
    by (auto simp: job_ok_def)
  obtain c where c: "map_of fs0 ?src = Some c" using j(3) by auto
  obtain c' out where r: "job_result run directory ?copy fs0 f p = (Some c', out)"
    using j(7) by (cases "job_result run directory ?copy fs0 f p") auto
  note out = source_outside [OF j(1,2)]
  have src: "map_of fs ?src = Some c" using same out c by (simp add: untouched_def)
  have ne: "?src \<noteq> copy_path ?copy f p" using copy_path_prefix(1) [OF len, of f p] out by auto
  have run: "run (prog_name p) (prog_args p @ [copy_path ?copy f p]) c = (Some c', out)"
    using r by (simp add: job_result_def c)
  have nul: "NUL \<notin> set out" using j(8) r by simp
  have "\<exists>fs'. process_program md5 can_create run directory ?copy f p fs =
      (p\<lparr>prog_output := Some (case prog_output p of None \<Rightarrow> out | Some old \<Rightarrow> old @ out),
         processed_files := processed_files p @ [modify_filename f (prog_name p)]\<rparr>, fs')
    \<and> map_of fs' = (map_of fs)(copy_path ?copy f p := (if md5 c' = md5 c then None else Some c'),
       temp_out (copy_path ?copy f p) := None)"
    by (rule process_program_selected [OF True]) (rule src [unfolded source_path_def] ne [unfolded source_path_def] j run nul)+
  then obtain fs' where fs': "process_program md5 can_create run directory ?copy f p fs =
      (p\<lparr>prog_output := Some (case prog_output p of None \<Rightarrow> out | Some old \<Rightarrow> old @ out),
         processed_files := processed_files p @ [modify_filename f (prog_name p)]\<rparr>, fs')"
    "map_of fs' = (map_of fs)(copy_path ?copy f p := (if md5 c' = md5 c then None else Some c'),
       temp_out (copy_path ?copy f p) := None)" by blast
  have "untouched directory fs0 fs'"
    unfolding untouched_def
  proof (intro allI impI)
    fix q assume q: "\<not> prefix (directory @ ''/copy/'') q"
    then have "q \<noteq> copy_path ?copy f p" "q \<noteq> temp_out (copy_path ?copy f p)"
      using copy_path_prefix [OF len, of f p] by auto
    with q same show "map_of fs' q = map_of fs0 q" by (simp add: fs'(2) untouched_def)
  qed
  moreover have "map_of fs' = job_update md5 run directory ?copy fs0 (f, p) (map_of fs)"
    by (simp add: fs'(2) job_update_def c r)
  moreover have "p\<lparr>prog_output := Some (case prog_output p of None \<Rightarrow> out | Some old \<Rightarrow> old @ out),
         processed_files := processed_files p @ [modify_filename f (prog_name p)]\<rparr> = credit run directory ?copy fs0 p [f]"
    by (simp add: credit_def r split: option.split)
  ultimately show ?thesis using fs'(1) True by auto
qed

lemma process_file_jobs:
  assumes "\<And>p. p \<in> set progs \<Longrightarrow> program_matches p f \<Longrightarrow>
      job_ok can_create run directory (directory @ ''/copy'') fs0 (f, p)"
    and "untouched directory fs0 fs" and len: "length (directory @ ''/copy'') < PATH_MAX - 1"
  shows "\<exists>fs'. process_file md5 can_create run directory (directory @ ''/copy'') f progs fs =
      (map (\<lambda>p. credit run directory (directory @ ''/copy'') fs0 p (if program_matches p f then [f] else [])) progs, fs')
    \<and> map_of fs' = fold (job_update md5 run directory (directory @ ''/copy'') fs0)
        (map (Pair f) (filter (\<lambda>p. program_matches p f) progs)) (map_of fs)
    \<and> untouched directory fs0 fs'"
  using assms(1,2)
proof (induction progs arbitrary: fs)
  case Nil
  then show ?case by simp
next
  case (Cons p progs)
  from process_program_job [OF Cons.prems(1) Cons.prems(2) len, of p md5] obtain fs1 where
    1: "process_program md5 can_create run directory (directory @ ''/copy'') f p fs =
      (credit run directory (directory @ ''/copy'') fs0 p (if program_matches p f then [f] else []), fs1)"
    "map_of fs1 = (if program_matches p f then job_update md5 run directory (directory @ ''/copy'') fs0 (f, p) (map_of fs)
        else map_of fs)" "untouched directory fs0 fs1" by auto
  from Cons.IH [OF Cons.prems(1) 1(3)] obtain fs2 where
    2: "process_file md5 can_create run directory (directory @ ''/copy'') f progs fs1 =
      (map (\<lambda>p. credit run directory (directory @ ''/copy'') fs0 p (if program_matches p f then [f] else [])) progs, fs2)"
    "map_of fs2 = fold (job_update md5 run directory (directory @ ''/copy'') fs0)
        (map (Pair f) (filter (\<lambda>p. program_matches p f) progs)) (map_of fs1)"
    "untouched directory fs0 fs2" by auto
  from 1 2 show ?case by (simp add: Let_def)
qed

lemma process_entries_jobs:
  assumes "\<And>f p. (f, p) \<in> set (jobs es progs) \<Longrightarrow>
      job_ok can_create run directory (directory @ ''/copy'') fs0 (f, p)"
    and "untouched directory fs0 fs" and len: "length (directory @ ''/copy'') < PATH_MAX - 1"
  shows "\<exists>fs'. process_entries md5 can_create run directory (directory @ ''/copy'') es progs fs =
      (map (\<lambda>p. credit run directory (directory @ ''/copy'') fs0 p (files_of p es)) progs, fs')
    \<and> map_of fs' = fold (job_update md5 run directory (directory @ ''/copy'') fs0) (jobs es progs) (map_of fs)"
  using assms(1,2)
proof (induction es arbitrary: progs fs)
  case Nil
  then show ?case by simp
next
  case (Cons e es)
  obtain f is_reg where e: "e = (f, is_reg)" by fastforce
  show ?case
  proof (cases is_reg)
    case False
    with Cons.IH [of progs fs] Cons.prems show ?thesis by (simp add: e)
  next
    case True
    let ?done = "\<lambda>p. if program_matches p f then [f] else []"
    let ?progs = "map (\<lambda>p. credit run directory (directory @ ''/copy'') fs0 p (?done p)) progs"
    have j: "job_ok can_create run directory (directory @ ''/copy'') fs0 (f, p)"
      if "p \<in> set progs" "program_matches p f" for p
      using Cons.prems(1) [of f p] that True by (simp add: e)
    from process_file_jobs [OF j Cons.prems(2) len, where ?md5.0 = md5] obtain fs1 where
      1: "process_file md5 can_create run directory (directory @ ''/copy'') f progs fs = (?progs, fs1)"
      "map_of fs1 = fold (job_update md5 run directory (directory @ ''/copy'') fs0)
        (map (Pair f) (filter (\<lambda>p. program_matches p f) progs)) (map_of fs)"
      "untouched directory fs0 fs1" by auto
    have js: "jobs es ?progs = map (\<lambda>(g, p). (g, credit run directory (directory @ ''/copy'') fs0 p (?done p))) (jobs es progs)"
      by (rule jobs_credit)
    have "job_ok can_create run directory (directory @ ''/copy'') fs0 (g, p)" if "(g, p) \<in> set (jobs es ?progs)" for g p
      using that Cons.prems(1) unfolding js by (auto simp: e)
    from Cons.IH [where progs = ?progs, OF this 1(3)] obtain fs2 where
      2: "process_entries md5 can_create run directory (directory @ ''/copy'') es ?progs fs1 =
        (map (\<lambda>p. credit run directory (directory @ ''/copy'') fs0 p (files_of p es)) ?progs, fs2)"
      "map_of fs2 = fold (job_update md5 run directory (directory @ ''/copy'') fs0) (jobs es ?progs) (map_of fs1)" by blast
    have "map (\<lambda>p. credit run directory (directory @ ''/copy'') fs0 p (files_of p es)) ?progs =
        map (\<lambda>p. credit run directory (directory @ ''/copy'') fs0 p (files_of p ((f, True) # es))) progs"
      by auto
    moreover have "map_of fs2 = fold (job_update md5 run directory (directory @ ''/copy'') fs0) (jobs ((f, True) # es) progs) (map_of fs)"
      using 2(2) 1(2) unfolding js fold_job_credit by simp
    ultimately show ?thesis using 1(1) 2(1) True by (simp add: e)
  qed
qed

subsection \<open>The whole program\<close>

lemma parsed_fresh: "p \<in> set (parse_programs as) \<Longrightarrow> prog_output p = None"
proof (induction as rule: parse_programs.induct)
  case (2 a as)
  then show ?case by (auto simp: Let_def split: if_splits)
qed simp

lemma access_manager_runs_jobs:
  assumes "3 \<le> length argv" "realpath (argv ! 1) = Some directory" "scandir directory = Some es"
    and "length (directory @ ''/copy'') < PATH_MAX - 1"
    and "\<forall>job \<in> set (jobs es (parse_programs (drop 2 argv))).
      job_ok can_create run directory (directory @ ''/copy'') fs job"
  shows "\<exists>fs' rm. access_manager md5 can_create run realpath scandir argv fs =
      Inr (concat (map (\<lambda>p. if files_of p es = [] then []
          else [(prog_name p, concat (map (\<lambda>f. snd (job_result run directory (directory @ ''/copy'') fs f p)) (files_of p es)))])
            (parse_programs (drop 2 argv))), fs', rm)
    \<and> map_of fs' = fold (job_update md5 run directory (directory @ ''/copy'') fs)
        (jobs es (parse_programs (drop 2 argv))) (map_of fs)"
proof -
  let ?copy = "directory @ ''/copy''" and ?progs = "parse_programs (drop 2 argv)"
  have cut: "take 4095 directory @ take (4095 - length directory) ''/copy'' = ?copy" using assms(4) by simp
  have "job_ok can_create run directory ?copy fs (f, p)" if "(f, p) \<in> set (jobs es ?progs)" for f p
    using assms(5) that by blast
  from process_entries_jobs [OF this _ assms(4), where fs = fs and ?md5.0 = md5] obtain fs' where
    r: "process_entries md5 can_create run directory ?copy es ?progs fs =
        (map (\<lambda>p. credit run directory ?copy fs p (files_of p es)) ?progs, fs')"
    "map_of fs' = fold (job_update md5 run directory ?copy fs) (jobs es ?progs) (map_of fs)"
    by (auto simp: untouched_def)
  have res: "map ((\<lambda>p. case prog_output p of None \<Rightarrow> [] | Some out \<Rightarrow> [(prog_name p, out)])
      \<circ> (\<lambda>p. credit run directory ?copy fs p (files_of p es))) ?progs =
    map (\<lambda>p. if files_of p es = [] then []
       else [(prog_name p, concat (map (\<lambda>f. snd (job_result run directory ?copy fs f p)) (files_of p es)))]) ?progs"
    by (intro map_cong) (auto simp: credit_def parsed_fresh)
  have "\<exists>rm. access_manager md5 can_create run realpath scandir argv fs =
      Inr (concat (map ((\<lambda>p. case prog_output p of None \<Rightarrow> [] | Some out \<Rightarrow> [(prog_name p, out)])
        \<circ> (\<lambda>p. credit run directory ?copy fs p (files_of p es))) ?progs), fs', rm)"
    using assms(1-3) r(1) by (simp add: access_manager_def Let_def cut)
  with r(2) show ?thesis unfolding res by blast
qed

text \<open>
  C8. If nothing prevents the jobs, the program does what the specification says: the files of the
  directory stay, each copy that its job changed is kept, all others and the temporary files are
  gone, and for every program that selected a file what it wrote is printed, in the order of the files.
\<close>

theorem am_whole_run:
  assumes "3 \<le> length argv" "realpath (argv ! 1) = Some directory" "scandir directory = Some es"
    and "length (directory @ ''/copy'') < PATH_MAX - 1"
    and "\<forall>job \<in> set (jobs es (parse_programs (drop 2 argv))).
      job_ok can_create run directory (directory @ ''/copy'') fs job"
  shows "\<exists>fs' rm. access_manager md5 can_create run realpath scandir argv fs =
      Inr (concat (map (\<lambda>p. if files_of p es = [] then []
          else [(prog_name p, concat (map (\<lambda>f. snd (job_result run directory (directory @ ''/copy'') fs f p)) (files_of p es)))])
            (parse_programs (drop 2 argv))), fs', rm)
    \<and> map_of fs' = fold (job_update md5 run directory (directory @ ''/copy'') fs)
        (jobs es (parse_programs (drop 2 argv))) (map_of fs)"
  by (rule access_manager_runs_jobs) (rule assms)+

subsection \<open>Programs that are given by a path\<close>

text \<open>
  The name of the program is a part of the copy's name. If it contains a slash, the copy is to be
  created in a subdirectory of \<open>copy/\<close>, which nobody has made: the program is silently never run.
\<close>

theorem am_program_path_is_skipped:
  assumes "CHR ''/'' \<in> set (prog_name prog)"
    and "\<And>q. CHR ''/'' \<in> set q \<Longrightarrow> \<not> can_create (copy_dir @ ''/'' @ q)"
    and "length (copy_dir @ ''/'' @ modify_filename filename (prog_name prog)) < PATH_MAX"
  shows "process_program md5 can_create run directory copy_dir filename prog fs = (prog, fs)"
proof -
  have "CHR ''/'' \<in> set (modify_filename filename (prog_name prog))"
    using assms(1) by (simp add: modify_filename_def Let_def)
  moreover have "copy_path copy_dir filename prog = copy_dir @ ''/'' @ modify_filename filename (prog_name prog)"
    using assms(3) by (simp add: copy_path_def)
  ultimately have "\<not> can_create (copy_path copy_dir filename prog)" using assms(2) by simp
  then show ?thesis by (simp add: process_program_def copy_file_def Let_def)
qed

subsection \<open>A run\<close>

text \<open>The program \<open>up\<close> changes \<open>a.c\<close>, \<open>cat\<close> leaves both files as they are.\<close>

definition demo_programs :: program where
  "demo_programs name args c = (if name = ''up'' then (Some (c @ ''!''), ''changed '') else (Some c, c))"

theorem am_whole_run_witness:
  "\<exists>fs' rm. access_manager id (\<lambda>p. True) demo_programs Some (\<lambda>p. Some [(''a.c'', True), (''b'', True), (''copy'', False)])
      [''am'', ''/d'', ''up'', ''--files'', ''.c'', ''--'', ''cat'', ''--'', ''no'', ''--files'', ''.h''] demo_files =
      Inr ([(''up'', ''changed ''), (''cat'', ''xy'')], fs', rm)
    \<and> map_of fs' = fold (job_update id demo_programs ''/d'' ''/d/copy'' demo_files)
        (jobs [(''a.c'', True), (''b'', True), (''copy'', False)]
          (parse_programs [''up'', ''--files'', ''.c'', ''--'', ''cat'', ''--'', ''no'', ''--files'', ''.h''])) (map_of demo_files)"
proof -
  let ?es = "[(''a.c'', True), (''b'', True), (''copy'', False)]"
  let ?argv = "[''am'', ''/d'', ''up'', ''--files'', ''.c'', ''--'', ''cat'', ''--'', ''no'', ''--files'', ''.h'']"
  let ?up = "\<lparr>prog_name = ''up'', prog_args = [''up''], file_patterns = [''.c''], processed_files = [], prog_output = None\<rparr>"
  let ?cat = "\<lparr>prog_name = ''cat'', prog_args = [''cat''], file_patterns = [], processed_files = [], prog_output = None\<rparr>"
  have js: "jobs ?es (parse_programs (drop 2 ?argv)) = [(''a.c'', ?up), (''a.c'', ?cat), (''b'', ?cat)]"
    by code_simp
  have j: "\<forall>job \<in> set (jobs ?es (parse_programs (drop 2 ?argv))).
      job_ok (\<lambda>p. True) demo_programs ''/d'' (''/d'' @ ''/copy'') demo_files job"
    unfolding js by (simp add: job_ok_def source_path_def copy_path_def modify_filename_def job_result_def
        demo_programs_def demo_files_def Let_def)
  have r: "concat (map (\<lambda>p. if files_of p ?es = [] then []
          else [(prog_name p, concat (map (\<lambda>f. snd (job_result demo_programs ''/d'' (''/d'' @ ''/copy'') demo_files f p)) (files_of p ?es)))])
            (parse_programs (drop 2 ?argv))) = [(''up'', ''changed ''), (''cat'', ''xy'')]"
    by code_simp
  have d: "drop 2 ?argv = [''up'', ''--files'', ''.c'', ''--'', ''cat'', ''--'', ''no'', ''--files'', ''.h'']" by simp
  from am_whole_run [where realpath = Some and scandir = "\<lambda>p. Some ?es" and ?md5.0 = id, OF _ _ _ _ j]
  show ?thesis unfolding r unfolding d by simp
qed

end
