(* ===== verification/Access_Single.thy ===== *)
theory Access_Single
  imports Access_Runs
begin

section \<open>Accessmanager: the program in one file (Accessmanager/Access\_manager.c)\<close>

text \<open>
  The directory Accessmanager holds the whole program in one file. Line by line its functions are
  those of Access_manager/access_manager.c and main.c; only the include guard and the prototypes of
  the header are missing. These are the definitions of \<open>Access_Manager\<close> under the name of this file,
  and the specification of \<open>Access_Runs\<close> holds for its \<open>main\<close>.
\<close>

definition get_md5_hash_single ::
  "(string \<Rightarrow> string) \<Rightarrow> files \<Rightarrow> string \<Rightarrow> string option" where
  "get_md5_hash_single = get_md5_hash"

definition copy_file_single ::
  "(string \<Rightarrow> bool) \<Rightarrow> files \<Rightarrow> string \<Rightarrow> string \<Rightarrow> files \<times> int" where
  "copy_file_single = copy_file"

definition modify_filename_single :: "string \<Rightarrow> string \<Rightarrow> string" where
  "modify_filename_single = modify_filename"

definition is_dir_empty_single :: "string list option \<Rightarrow> bool" where
  "is_dir_empty_single = is_dir_empty"

definition execute_program_single ::
  "(string \<Rightarrow> bool) \<Rightarrow> program \<Rightarrow> string \<Rightarrow> program_info \<Rightarrow> string \<Rightarrow> files \<Rightarrow> files" where
  "execute_program_single = execute_program"

definition print_output_and_remove_single ::
  "string \<Rightarrow> program_info \<Rightarrow> files \<Rightarrow> program_info \<times> files" where
  "print_output_and_remove_single = print_output_and_remove"

definition access_manager_single ::
  "(string \<Rightarrow> string) \<Rightarrow> (string \<Rightarrow> bool) \<Rightarrow> program \<Rightarrow> (string \<Rightarrow> string option) \<Rightarrow> (string \<Rightarrow> (string \<times> bool) list option) \<Rightarrow>
   string list \<Rightarrow> files \<Rightarrow> int + (string \<times> string) list \<times> files \<times> bool" where
  "access_manager_single = access_manager"

text \<open>The whole program in one file does what the specification says.\<close>

theorem single_whole_run:
  assumes "3 \<le> length argv" "realpath (argv ! 1) = Some directory" "scandir directory = Some es"
    and "length (directory @ ''/copy'') < PATH_MAX - 1"
    and "\<forall>job \<in> set (jobs es (parse_programs (drop 2 argv))).
      job_ok can_create run directory (directory @ ''/copy'') fs job"
  shows "\<exists>fs' rm. access_manager_single md5 can_create run realpath scandir argv fs =
      Inr (concat (map (\<lambda>p. if files_of p es = [] then []
          else [(prog_name p, concat (map (\<lambda>f. snd (job_result run directory (directory @ ''/copy'') fs f p)) (files_of p es)))])
            (parse_programs (drop 2 argv))), fs', rm)
    \<and> map_of fs' = fold (job_update md5 run directory (directory @ ''/copy'') fs)
        (jobs es (parse_programs (drop 2 argv))) (map_of fs)"
  unfolding access_manager_single_def by (rule access_manager_runs_jobs) (rule assms)+

end
