(* ===== verification/Spec2Isabelle.thy ===== *)
theory Spec2Isabelle
  imports Lab4_World Dyn_Queue Dyn_Queue_52 Lab5_Liveness Lab5_Wakeups Index_Pipeline Lab7_Generation
    Lab8_Dialog Lab8_Clients Lab1_Dirwalk Lab2_Env Lab3_Processes Access_Single
begin

text \<open>
  \<^bold>\<open>A verification of the OSISP laboratory programs\<close>

  The repository holds independent C programs on Linux, one per directory under src/. This
  development models them as executable HOL functions and step relations and proves what makes
  them correct; where the code fails to do what it means to, a theorem shows the failure.

  \<^bold>\<open>Conventions.\<close> A struct is a record, an enumeration a datatype, an integer whose wrap-around
  matters a word. Results of system calls that the code tests are arguments of the model. A process
  or thread is a program counter with one location per call that can block or that touches shared
  data; concurrency is a step relation, and \<open>steps\<close> (Prelude) its reachable states. What can loop
  for ever or block is an \<open>option\<close>; an access outside an array is a value of its own
  (\<open>Out_of_bounds\<close>, \<open>Overflow\<close>, \<open>Behind_envp\<close>). The text of progress messages is left out
  unless a property is about it.

  \<^bold>\<open>Shared theories.\<close> Prelude: C integer types, reachability, sums over processes (\<open>tally\<close>),
  slices of circular arrays. C_String: C strings, \<open>fgets\<close>, \<open>strtol\<close>, printed numbers. File_System:
  the file tree as a parameter, case-insensitive comparison, paths. Bounded_Fifo: the FIFO list
  that both kinds of queue are compared with.

  \<^bold>\<open>lab4\<close> (processes over shared memory and semaphores). Message is message.c and message.h
  (hash and generation). Ring_Buffer is ring_buffer.c: well-formedness, refinement of the FIFO list
  and the life time of a dequeued slot. Lab4_System composes \<open>producer_process\<close> and
  \<open>consumer_process\<close> of main.c over the System V semaphores, interrupts by SIGUSR1 included: mutual
  exclusion, no failure message, no deadlock, and how an interrupted wait breaks this. Lab4_Manager
  is the process table and command loop of main.c. Lab4_World composes the two: commands fork, signal
  and reap processes that run meanwhile; no child is left behind, but the manager can hang in
  \<open>waitpid\<close>.

  \<^bold>\<open>lab5\<close> (threads). Dyn_Queue is 5.1/src/queue.c, the queue that can be resized; Dyn_Queue_52 the
  variant in 5.2. Lab5_Threads is 5.1/src/main.c (two counting semaphores and a mutex);
  Lab5_Tokens proves that the semaphores guard the queue, Lab5_Pool the bookkeeping of threads,
  Lab5_Runs holds executable runs: the witnesses and the failing schedules.
  Lab5_Liveness proves that a producer and a consumer are never both blocked, unless a queue of one
  slot is reduced, and that they are then. Lab5_Conds is
  5.2/src/main.c (a mutex and condition variables); Lab5_Monitor proves the mutual exclusion and the
  guards of the queue while no thread is closed, Lab5_Conds_Runs shows how closing one breaks them.
  Lab5_Wakeups counts, for each kind of thread, what the queue offers, the threads awake and the
  signals under way: no wake-up is lost while no thread is closed and the capacity is positive, and
  a queue reduced to no slots blocks the main thread for ever.

  \<^bold>\<open>lab6\<close> (sorting an index file with threads). Index_Records is the comparison and \<open>merge_blocks\<close>
  of sort_index.c, Index_Threads the loops of the two kinds of worker threads (the locale
  \<open>chunk_jobs\<close> states what makes jobs on disjoint chunks independent of their interleaving; both
  phases are interpretations),
  Index_Barrier the threads with their barriers, Index_Sort the portions, the merge rounds,
  \<open>external_merge\<close> and \<open>main\<close> with every failing call, Index_File generation.c and view.c,
  Index_Pipeline the three programs one after the other on one file. Doubles are kept as their 64
  bits, ordered by \<open>double_key\<close>; \<open>qsort\<close> is a parameter of which only its specification is assumed.

  \<^bold>\<open>lab7\<close> (concurrent editing with record locks). Editor is editor.c and record.h: the input
  loops, and editors that interleave their system calls; the invariant is that a lock is held exactly
  between locking and unlocking, and no editor waits for a lock for ever. Lab7_Generation is
  generation.c.

  \<^bold>\<open>lab8\<close> (file server). Lab8_Server is a client's thread of server.c, Lab8_Clients the server
  with several clients: they do not influence each other, but any of them can end the server.
  Lab8_Dialog is client.c and client and server together: the dialogue refines a specification of
  remote commands, and fails where a line looks like a prompt or a command is blank.

  \<^bold>\<open>lab1, lab2, lab3, Access_manager.\<close> Lab1_Dirwalk: \<open>dirwalk\<close> (with fuel, since its recursion
  depends on the file system: any fuel above the depth of the tree is enough) against the preorder
  of the tree. Lab2_Env: the environments of parent.c and child.c. Lab3_Processes: the parent, its
  table, and children interrupted by timer and user signals. Access_Manager: the argument parser and
  the loop that runs programs on copies of files; Access_Runs compares a whole run with a
  specification; Access_Single is the older version of the program in the directory Accessmanager,
  one file with the same functions.

  \<^bold>\<open>Not modelled.\<close> Outside the models: log messages with time stamps (\<open>log_event\<close>), scheduling
  priorities, failing memory allocation except where noted, the arithmetic of random time marks.
\<close>

end
